theory Spec2Isabelle
  imports Complex_Main "HOL-Library.Multiset"
begin

section \<open>Toroidal geometry\<close>

text \<open>
  JavaScript numbers are modelled as exact rationals: an arithmetic operation of the
  source is read without rounding, except in the depletion test of \<open>masterUpdate\<close>, whose
  outcome at the boundary is decided by the rounding of doubles (see \<open>round_double\<close>).
  The remainder operator \<open>%\<close> of JavaScript truncates the quotient towards zero, so the
  result carries the sign of the dividend.
\<close>

definition trunc :: "rat \<Rightarrow> int" where
  "trunc q = (if 0 \<le> q then \<lfloor>q\<rfloor> else \<lceil>q\<rceil>)"

definition js_rem :: "rat \<Rightarrow> rat \<Rightarrow> rat" where
  "js_rem v m = v - m * of_int (trunc (v / m))"

text \<open>
  \<open>wrap01Fast(v, size)\<close>: one conditional add or subtract, then the modulo fallback when the
  value is still outside the range.
\<close>

definition wrap01Fast :: "rat \<Rightarrow> rat \<Rightarrow> rat" where
  "wrap01Fast v sz =
     (let v1 = (if v < 0 then v + sz else if v \<ge> sz then v - sz else v)
      in if v1 < 0 \<or> v1 \<ge> sz
         then (let v2 = js_rem v1 sz in if v2 < 0 then v2 + sz else v2)
         else v1)"

text \<open>\<open>wrapDeltaFast(d, size)\<close>: one conditional add or subtract around half the size.\<close>

definition wrapDeltaFast :: "rat \<Rightarrow> rat \<Rightarrow> rat" where
  "wrapDeltaFast d sz =
     (let half = sz * (1/2)
      in if d > half then d - sz else if d < - half then d + sz else d)"

section \<open>Rounding to double precision\<close>

text \<open>
  A JavaScript number is an IEEE-754 double: a literal denotes the double nearest to it,
  and an arithmetic operation returns the double nearest to the exact result, a tie going
  to the even significand.  \<open>round_double q\<close> is that double for a rational \<open>q\<close>, with a
  significand of 53 bits and an exponent of any size (no overflow, no subnormal numbers).
  \<open>exponent_of q\<close> is the integer \<open>e\<close> with \<open>2^e \<le> q < 2^(e+1)\<close> for positive \<open>q\<close>.
\<close>

definition pow2 :: "int \<Rightarrow> rat" where
  "pow2 e = (if 0 \<le> e then 2 ^ nat e else 1 / 2 ^ nat (- e))"

definition round_even :: "rat \<Rightarrow> int" where
  "round_even x =
     (let f = \<lfloor>x\<rfloor>; r = x - of_int f
      in if r < 1 / 2 then f else if 1 / 2 < r then f + 1 else if even f then f else f + 1)"

function exponent_of :: "rat \<Rightarrow> int" where
  "exponent_of q =
     (if q \<le> 0 then 0
      else if 2 \<le> q then exponent_of (q / 2) + 1
      else if q < 1 then exponent_of (q * 2) - 1
      else 0)"
  by pat_completeness auto

termination exponent_of
proof (relation "measure (\<lambda>q. 2 * nat \<lceil>1 / q\<rceil> + nat \<lfloor>q\<rfloor>)")
  show "wf (measure (\<lambda>q::rat. 2 * nat \<lceil>1 / q\<rceil> + nat \<lfloor>q\<rfloor>))" by simp
next
  fix q :: rat
  assume a: "\<not> q \<le> 0" "2 \<le> q"
  have "0 < 1 / q" "1 / q \<le> 1" using a by simp_all
  then have c1: "\<lceil>1 / q\<rceil> = 1" by (simp add: ceiling_eq_iff)
  have "0 < 1 / (q / 2)" "1 / (q / 2) \<le> 1" using a by simp_all
  then have c2: "\<lceil>1 / (q / 2)\<rceil> = 1" by (simp only: ceiling_eq_iff) simp
  have "q / 2 \<le> q - 1" using a by simp
  then have "\<lfloor>q / 2\<rfloor> \<le> \<lfloor>q - 1\<rfloor>" by (rule floor_mono)
  then have f: "\<lfloor>q / 2\<rfloor> < \<lfloor>q\<rfloor>" by simp
  have "0 \<le> \<lfloor>q / 2\<rfloor>" using a by simp
  with f have "nat \<lfloor>q / 2\<rfloor> < nat \<lfloor>q\<rfloor>" by linarith
  then show "(q / 2, q) \<in> measure (\<lambda>q. 2 * nat \<lceil>1 / q\<rceil> + nat \<lfloor>q\<rfloor>)"
    unfolding in_measure c1 c2 by simp
next
  fix q :: rat
  assume a: "\<not> q \<le> 0" "\<not> 2 \<le> q" "q < 1"
  define c where "c = \<lceil>1 / q\<rceil>"
  have y: "1 < 1 / q" using a by simp
  then have c2: "2 \<le> c" unfolding c_def by linarith
  have "1 / q \<le> of_int c" unfolding c_def by linarith
  then have "1 / (q * 2) \<le> of_int c / 2" by simp
  also have "\<dots> \<le> of_int (c - 1)" using c2 by simp
  finally have h: "\<lceil>1 / (q * 2)\<rceil> \<le> c - 1" by (simp only: ceiling_le_iff)
  have f0: "\<lfloor>q\<rfloor> = 0" using a by (simp add: floor_eq_iff)
  have "q * 2 < 2" using a by simp
  then have f1: "\<lfloor>q * 2\<rfloor> \<le> 1" by (simp add: floor_le_iff)
  have "2 * nat \<lceil>1 / (q * 2)\<rceil> + nat \<lfloor>q * 2\<rfloor> < 2 * nat c + nat \<lfloor>q\<rfloor>"
    using h f1 f0 c2 by linarith
  then show "(q * 2, q) \<in> measure (\<lambda>q. 2 * nat \<lceil>1 / q\<rceil> + nat \<lfloor>q\<rfloor>)"
    unfolding in_measure c_def .
qed

declare exponent_of.simps [simp del]

definition round_double :: "rat \<Rightarrow> rat" where
  "round_double q =
     (if q = 0 then 0
      else (let u = pow2 (exponent_of \<bar>q\<bar> - 52)
            in sgn q * of_int (round_even (\<bar>q\<bar> / u)) * u))"

section \<open>Configuration constants\<close>

text \<open>
  The constants of this section are the values of the source's literals.  All but one
  are integers, which doubles hold exactly; \<open>MASTER_TRIGGER_DEPLETION\<close> is the double the
  literal \<open>0.90\<close> denotes, which lies above nine tenths.
\<close>

definition WORLD_w :: rat where "WORLD_w = 24000"
definition WORLD_h :: rat where "WORLD_h = 24000"
definition CHILD_START_RES :: rat where "CHILD_START_RES = 12"
definition HARD_PROBE_CAP :: nat where "HARD_PROBE_CAP = 1000000"
definition MASTER_TRIGGER_DEPLETION :: rat where
  "MASTER_TRIGGER_DEPLETION = round_double (90 / 100)"
definition RES_CELL :: rat where "RES_CELL = 700"
definition replicateCost :: rat where "replicateCost = 100"

section \<open>Data model\<close>

datatype phase = NORMAL | RALLY | BUILD | CHARGE | WARP

record dna =
  maxSpeed :: rat
  accel :: rat
  harvestRate :: rat

text \<open>
  A probe object.  \<open>carried\<close> is the field \<open>this.resources\<close> of the source (the name
  \<open>resources\<close> is kept for the global array), \<open>px\<close>, \<open>py\<close> are \<open>this.x\<close>, \<open>this.y\<close>,
  \<open>d2tmp\<close> is the scratch field \<open>_d2tmp\<close> written by the selection before it is read.
  \<open>target\<close> is a resource index, \<open>-1\<close> for none.
\<close>

record probe =
  pid :: nat
  isPlayer :: bool
  px :: rat
  py :: rat
  vx :: rat
  vy :: rat
  heading :: rat
  carried :: rat
  genes :: dna
  target :: int
  radarCooldown :: rat
  wanderT :: rat
  replCooldown :: rat
  waypoint :: "(rat \<times> rat) option"
  sacrificing :: bool
  sacrificeT :: rat
  dead :: bool
  d2tmp :: rat

text \<open>
  A resource record.  \<open>rx\<close>, \<open>ry\<close> are its position; \<open>activeIndex\<close>, \<open>gridCell\<close> and
  \<open>gridIndex\<close> are the back-references \<open>activeIndex\<close>, \<open>_gridCell\<close>, \<open>_gridIndex\<close>, with
  \<open>-1\<close> for none.
\<close>

record resource =
  rid :: nat
  kind :: nat
  rx :: rat
  ry :: rat
  amt :: rat
  maxAmt :: rat
  radius :: rat
  active :: bool
  activeIndex :: int
  gridCell :: int
  gridIndex :: int

record warp_machine =
  wm_x :: rat
  wm_y :: rat
  wm_mode :: phase

record master =
  mstate :: phase
  mwaypoint :: "(rat \<times> rat) option"
  mt :: rat
  sacrificed :: nat
  toSacrifice :: nat
  warpMachine :: "warp_machine option"

text \<open>
  The global mutable state of the simulation, passed explicitly.  The array \<open>probes\<close>
  holds the probe objects; an object is identified by its position in that array.
  Presentation state (camera focus, zoom, stars) is left out: the simulation never reads it.
\<close>

record sim =
  probes :: "probe list"
  probeId :: nat
  resources :: "resource list"
  resourceActive :: "nat list"
  resGridW :: int
  resGridH :: int
  resGrid :: "nat list list"
  harvestCellNeighbors :: "nat list list"
  systemIndex :: nat
  systemInitialTotal :: rat
  systemRemainingTotal :: rat
  master :: master

section \<open>Replication\<close>

text \<open>
  The random draws and the trigonometric values of one replication are inputs of the model:
  \<open>off_x = cos(a) * m\<close> and \<open>off_y = sin(a) * m\<close> place the child, \<open>f_maxSpeed\<close>, \<open>f_accel\<close>,
  \<open>f_harvest\<close> are the mutation factors, \<open>c_vx\<close>, \<open>c_vy\<close> the child's velocity, \<open>c_heading\<close>,
  \<open>c_radarCooldown\<close>, \<open>c_wanderT\<close> the draws of the \<open>Probe\<close> constructor, and \<open>cooldown\<close>
  the parent's new replication cooldown \<open>rand(1.8, 3.4)\<close>.
\<close>

record repl_env =
  off_x :: rat
  off_y :: rat
  f_maxSpeed :: rat
  f_accel :: rat
  f_harvest :: rat
  c_vx :: rat
  c_vy :: rat
  c_heading :: rat
  c_radarCooldown :: rat
  c_wanderT :: rat
  cooldown :: rat

definition constrain :: "rat \<Rightarrow> rat \<Rightarrow> rat \<Rightarrow> rat" where
  "constrain n low high = max (min n high) low"

definition mutateDNA :: "repl_env \<Rightarrow> dna \<Rightarrow> dna" where
  "mutateDNA env d =
     \<lparr> maxSpeed = constrain (maxSpeed d * f_maxSpeed env) 140 320,
       accel = constrain (accel d * f_accel env) 260 700,
       harvestRate = constrain (harvestRate d * f_harvest env) 8 40 \<rparr>"

text \<open>
  \<open>new Probe(cx, cy, false, childDNA)\<close> followed by the assignments of \<open>replicate\<close> to the
  child's \<open>resources\<close>, \<open>vx\<close> and \<open>vy\<close>.
\<close>

definition newChild :: "nat \<Rightarrow> rat \<Rightarrow> rat \<Rightarrow> dna \<Rightarrow> repl_env \<Rightarrow> probe" where
  "newChild n cx cy d env =
     \<lparr> pid = n, isPlayer = False, px = cx, py = cy, vx = c_vx env, vy = c_vy env,
       heading = c_heading env, carried = CHILD_START_RES, genes = d, target = - 1,
       radarCooldown = c_radarCooldown env, wanderT = c_wanderT env, replCooldown = 0,
       waypoint = None, sacrificing = False, sacrificeT = 0, dead = False, d2tmp = 0 \<rparr>"

text \<open>
  \<open>replicate(cost)\<close> called on the probe at index \<open>i\<close> of \<open>probes\<close>.  The three early
  returns leave the state as it is.
\<close>

definition replicateP :: "rat \<Rightarrow> repl_env \<Rightarrow> nat \<Rightarrow> sim \<Rightarrow> sim" where
  "replicateP cost env i s =
     (let this = probes s ! i in
      if length (probes s) \<ge> HARD_PROBE_CAP then s
      else if carried this < cost then s
      else if mstate (master s) \<noteq> NORMAL then s
      else
        (let this' = this\<lparr>carried := carried this - cost\<rparr>;
             cx = wrap01Fast (px this + off_x env) WORLD_w;
             cy = wrap01Fast (py this + off_y env) WORLD_h;
             childDNA = mutateDNA env (genes this);
             child = newChild (probeId s) cx cy childDNA env
         in s\<lparr>probes := (probes s)[i := this'] @ [child], probeId := probeId s + 1\<rparr>))"

text \<open>\<open>tryAutoReplicate(dt)\<close> called on the probe at index \<open>i\<close>.\<close>

definition tryAutoReplicate :: "rat \<Rightarrow> repl_env \<Rightarrow> nat \<Rightarrow> sim \<Rightarrow> sim" where
  "tryAutoReplicate dt env i s =
     (let this = probes s ! i in
      if dead this \<or> isPlayer this then s
      else if dt \<le> 0 then s
      else if length (probes s) \<ge> HARD_PROBE_CAP then s
      else if mstate (master s) \<noteq> NORMAL then s
      else if replCooldown this > 0 then s
      else
        (let cost = replicateCost in
         if carried this \<ge> cost * (108 / 100)
         then (let s1 = replicateP cost env i s
               in s1\<lparr>probes := (probes s1)[i := (probes s1 ! i)\<lparr>replCooldown := cooldown env\<rparr>]\<rparr>)
         else s))"

text \<open>
  The outcome of a successful replication of the probe at index \<open>i\<close>: the parent paid the
  cost, one probe was appended, it carries the starting balance, and no other probe changed
  its place.
\<close>

definition replicated :: "nat \<Rightarrow> sim \<Rightarrow> sim \<Rightarrow> bool" where
  "replicated i s s' \<longleftrightarrow>
     replicateCost \<le> carried (probes s ! i)
     \<and> length (probes s') = length (probes s) + 1
     \<and> carried (probes s' ! i) = carried (probes s ! i) - replicateCost
     \<and> carried (last (probes s')) = CHILD_START_RES
     \<and> (\<forall>j < length (probes s). j \<noteq> i \<longrightarrow> probes s' ! j = probes s ! j)"

section \<open>K-closest selection\<close>

text \<open>
  The selection works on an array of probe objects.  An object is a reference: here the
  index of the probe in the store \<open>ps\<close>, so the array \<open>arr\<close> is a list of indices and the
  cached distance of its \<open>i\<close>-th entry is \<open>d2tmp (ps ! (arr ! i))\<close>.
\<close>

definition swap :: "'a list \<Rightarrow> nat \<Rightarrow> nat \<Rightarrow> 'a list" where
  "swap arr i j = (let t = arr ! i in (arr[i := arr ! j])[j := t])"

text \<open>The \<open>for\<close> loop of \<open>partitionByD2\<close>, from the loop index \<open>i\<close> on.\<close>

function part_loop ::
  "probe list \<Rightarrow> nat list \<Rightarrow> rat \<Rightarrow> nat \<Rightarrow> nat \<Rightarrow> nat \<Rightarrow> nat list \<times> nat" where
  "part_loop ps arr pivotValue right storeIndex i =
     (if i < right then
        (if d2tmp (ps ! (arr ! i)) < pivotValue
         then part_loop ps (swap arr storeIndex i) pivotValue right (storeIndex + 1) (i + 1)
         else part_loop ps arr pivotValue right storeIndex (i + 1))
      else (arr, storeIndex))"
  by pat_completeness auto
termination
  by (relation "measure (\<lambda>(ps, arr, pivotValue, right, storeIndex, i). right - i)") auto

declare part_loop.simps [simp del]

text \<open>
  \<open>partitionByD2(arr, left, right, pivotIndex)\<close> on indices inside the array; it returns the
  permuted array and the final place of the pivot.
\<close>

definition partitionByD2 ::
  "probe list \<Rightarrow> nat list \<Rightarrow> nat \<Rightarrow> nat \<Rightarrow> nat \<Rightarrow> nat list \<times> nat" where
  "partitionByD2 ps arr left right pivotIndex =
     (let pivotValue = d2tmp (ps ! (arr ! pivotIndex));
          arr1 = swap arr pivotIndex right;
          (arr2, storeIndex) = part_loop ps arr1 pivotValue right left left
      in (swap arr2 right storeIndex, storeIndex))"

text \<open>
  \<open>n >> 1\<close>: the operand is converted to a signed 32-bit integer and shifted
  arithmetically.
\<close>

definition toInt32 :: "int \<Rightarrow> int" where
  "toInt32 n = (n + 2 ^ 31) mod 2 ^ 32 - 2 ^ 31"

definition sar1 :: "int \<Rightarrow> int" where
  "sar1 n = toInt32 n div 2"

text \<open>
  The \<open>while (true)\<close> loop of \<open>selectKClosestInPlace\<close> with its variables \<open>left\<close> and
  \<open>right\<close>.  Reading \<open>arr[pivotIndex]._d2tmp\<close> outside the array raises a \<open>TypeError\<close> in
  the source; that is the result \<open>None\<close>.
\<close>

definition in_range :: "nat list \<Rightarrow> int \<Rightarrow> bool" where
  "in_range arr i \<longleftrightarrow> 0 \<le> i \<and> i < int (length arr)"

lemma part_loop_index:
  "storeIndex \<le> i \<Longrightarrow> i \<le> right \<Longrightarrow>
   storeIndex \<le> snd (part_loop ps arr pivotValue right storeIndex i)
   \<and> snd (part_loop ps arr pivotValue right storeIndex i) \<le> right"
proof (induction ps arr pivotValue right storeIndex i rule: part_loop.induct)
  case (1 ps arr pivotValue right storeIndex i)
  show ?case
  proof (cases "i < right")
    case False
    with "1.prems" show ?thesis
      by (subst (1 2) part_loop.simps) simp
  next
    case True
    show ?thesis
    proof (cases "d2tmp (ps ! (arr ! i)) < pivotValue")
      case True
      with \<open>i < right\<close> "1.IH"(1) "1.prems" show ?thesis
        by (subst (1 2) part_loop.simps) simp
    next
      case False
      with \<open>i < right\<close> "1.IH"(2) "1.prems" show ?thesis
        by (subst (1 2) part_loop.simps) simp
    qed
  qed
qed

lemma partitionByD2_index:
  assumes "left \<le> right"
  shows "left \<le> snd (partitionByD2 ps arr left right pivotIndex)
         \<and> snd (partitionByD2 ps arr left right pivotIndex) \<le> right"
proof -
  obtain arr2 p where e: "part_loop ps (swap arr pivotIndex right)
      (d2tmp (ps ! (arr ! pivotIndex))) right left left = (arr2, p)"
    by (cases "part_loop ps (swap arr pivotIndex right)
      (d2tmp (ps ! (arr ! pivotIndex))) right left left") blast
  have "left \<le> p \<and> p \<le> right"
    using part_loop_index[OF le_refl assms, of ps "swap arr pivotIndex right"
      "d2tmp (ps ! (arr ! pivotIndex))"] e by simp
  then show ?thesis
    by (simp add: partitionByD2_def Let_def e)
qed

function select_loop ::
  "probe list \<Rightarrow> nat list \<Rightarrow> int \<Rightarrow> int \<Rightarrow> int \<Rightarrow> nat list option" where
  "select_loop ps arr k left right =
     (if left \<ge> right then Some arr
      else if \<not> in_range arr left \<or> \<not> in_range arr right
              \<or> \<not> in_range arr (sar1 (left + right)) then None
      else
        (let (arr', pivotIndex) =
               partitionByD2 ps arr (nat left) (nat right) (nat (sar1 (left + right)))
         in if k - 1 = int pivotIndex then Some arr'
            else if k - 1 < int pivotIndex then select_loop ps arr' k left (int pivotIndex - 1)
            else select_loop ps arr' k (int pivotIndex + 1) right))"
  by pat_completeness auto
termination
proof (relation "measure (\<lambda>(ps, arr, k, left, right). nat (right - left))")
  show "wf (measure (\<lambda>(ps, arr, k, left, right). nat (right - left)))"
    by simp
next
  fix ps :: "probe list" and arr :: "nat list" and k left right :: int
    and x :: "nat list \<times> nat" and xa :: "nat list" and y :: nat
  assume a: "\<not> right \<le> left"
    "\<not> (\<not> in_range arr left \<or> \<not> in_range arr right \<or> \<not> in_range arr (sar1 (left + right)))"
    "x = partitionByD2 ps arr (nat left) (nat right) (nat (sar1 (left + right)))"
    "(xa, y) = x"
  have "nat left \<le> nat right" using a(1) by simp
  from partitionByD2_index[OF this, of ps arr "nat (sar1 (left + right))"] a(3,4)
  have "nat left \<le> y \<and> y \<le> nat right" by (metis snd_conv)
  then show "((ps, xa, k, left, int y - 1), ps, arr, k, left, right)
             \<in> measure (\<lambda>(ps, arr, k, left, right). nat (right - left))"
    using a(1,2) unfolding in_range_def by simp linarith
next
  fix ps :: "probe list" and arr :: "nat list" and k left right :: int
    and x :: "nat list \<times> nat" and xa :: "nat list" and y :: nat
  assume a: "\<not> right \<le> left"
    "\<not> (\<not> in_range arr left \<or> \<not> in_range arr right \<or> \<not> in_range arr (sar1 (left + right)))"
    "x = partitionByD2 ps arr (nat left) (nat right) (nat (sar1 (left + right)))"
    "(xa, y) = x"
  have "nat left \<le> nat right" using a(1) by simp
  from partitionByD2_index[OF this, of ps arr "nat (sar1 (left + right))"] a(3,4)
  have "nat left \<le> y \<and> y \<le> nat right" by (metis snd_conv)
  then show "((ps, xa, k, int y + 1, right), ps, arr, k, left, right)
             \<in> measure (\<lambda>(ps, arr, k, left, right). nat (right - left))"
    using a(1,2) unfolding in_range_def by simp linarith
qed

declare select_loop.simps [simp del]

text \<open>
  The wrapped squared distance of a probe to the point \<open>wp\<close>, as the first loop of
  \<open>selectKClosestInPlace\<close> computes it.
\<close>

definition dist2 :: "probe \<Rightarrow> rat \<times> rat \<Rightarrow> rat" where
  "dist2 p wp =
     (let dx = wrapDeltaFast (px p - fst wp) WORLD_w;
          dy = wrapDeltaFast (py p - snd wp) WORLD_h
      in dx * dx + dy * dy)"

definition annotate :: "probe list \<Rightarrow> nat list \<Rightarrow> rat \<times> rat \<Rightarrow> probe list" where
  "annotate ps arr wp =
     fold (\<lambda>r qs. qs[r := (qs ! r)\<lparr>d2tmp := dist2 (qs ! r) wp\<rparr>]) arr ps"

text \<open>
  \<open>selectKClosestInPlace(arr, k, wp)\<close>: the store with the distances cached and the
  permuted array.
\<close>

definition selectKClosestInPlace ::
  "probe list \<Rightarrow> nat list \<Rightarrow> int \<Rightarrow> rat \<times> rat \<Rightarrow> (probe list \<times> nat list) option" where
  "selectKClosestInPlace ps arr k wp =
     (let ps' = annotate ps arr wp
      in case select_loop ps' arr k 0 (int (length arr) - 1) of
           None \<Rightarrow> None
         | Some arr' \<Rightarrow> Some (ps', arr'))"

definition part_post ::
  "probe list \<Rightarrow> rat \<Rightarrow> nat list \<Rightarrow> nat \<Rightarrow> nat \<Rightarrow> nat list \<Rightarrow> nat \<Rightarrow> bool" where
  "part_post ps pv arr st right arr' p \<longleftrightarrow>
     length arr' = length arr \<and> mset arr' = mset arr \<and> st \<le> p \<and> p \<le> right
     \<and> (\<forall>j. j < st \<or> right \<le> j \<longrightarrow> arr' ! j = arr ! j)
     \<and> (\<forall>j. st \<le> j \<and> j < p \<longrightarrow> d2tmp (ps ! (arr' ! j)) < pv)
     \<and> (\<forall>j. p \<le> j \<and> j < right \<longrightarrow> \<not> d2tmp (ps ! (arr' ! j)) < pv)"

definition partition_post ::
  "probe list \<Rightarrow> nat list \<Rightarrow> nat \<Rightarrow> nat \<Rightarrow> nat list \<Rightarrow> nat \<Rightarrow> bool" where
  "partition_post ps arr left right arr' p \<longleftrightarrow>
     length arr' = length arr \<and> mset arr' = mset arr \<and> left \<le> p \<and> p \<le> right
     \<and> (\<forall>j. j < left \<or> right < j \<longrightarrow> arr' ! j = arr ! j)
     \<and> (\<forall>j. left \<le> j \<and> j < p \<longrightarrow> d2tmp (ps ! (arr' ! j)) < d2tmp (ps ! (arr' ! p)))
     \<and> (\<forall>j. p < j \<and> j \<le> right \<longrightarrow> d2tmp (ps ! (arr' ! p)) \<le> d2tmp (ps ! (arr' ! j)))"

definition split_at :: "probe list \<Rightarrow> nat list \<Rightarrow> nat \<Rightarrow> bool" where
  "split_at ps arr m \<longleftrightarrow>
     (\<forall>i < length arr. \<forall>j < length arr. i < m \<and> m \<le> j \<longrightarrow>
        d2tmp (ps ! (arr ! i)) \<le> d2tmp (ps ! (arr ! j)))"

section \<open>Spatial grid and resource pool\<close>

text \<open>
  The functions below return \<open>None\<close> where the source would raise a \<open>TypeError\<close> (a property
  read through \<open>undefined\<close>) or would assign to an array element outside the array, which
  JavaScript answers by extending the array with holes.  The properties proved later show
  that neither happens in a consistent state.
\<close>

text \<open>\<open>cellIndexForPos(x, y)\<close>; \<open>v | 0\<close> truncates and converts to a signed 32-bit integer.\<close>

definition cellIndexForPos :: "sim \<Rightarrow> rat \<Rightarrow> rat \<Rightarrow> int" where
  "cellIndexForPos s x y =
     (let cx = toInt32 (trunc (x / RES_CELL));
          cy = toInt32 (trunc (y / RES_CELL));
          cx = (if cx \<ge> resGridW s then resGridW s - 1 else cx);
          cy = (if cy \<ge> resGridH s then resGridH s - 1 else cy)
      in cx + cy * resGridW s)"

definition gridAddResource :: "nat \<Rightarrow> sim \<Rightarrow> sim option" where
  "gridAddResource idx s =
     (if idx \<ge> length (resources s) then None
      else
        (let r = resources s ! idx;
             ci = cellIndexForPos s (rx r) (ry r)
         in if ci < 0 \<or> ci \<ge> int (length (resGrid s)) then None
            else
              (let cell = resGrid s ! nat ci;
                   r' = r\<lparr>gridCell := ci, gridIndex := int (length cell)\<rparr>
               in Some (s\<lparr>resources := (resources s)[idx := r'],
                          resGrid := (resGrid s)[nat ci := cell @ [idx]]\<rparr>))))"

definition gridRemoveResource :: "nat \<Rightarrow> sim \<Rightarrow> sim option" where
  "gridRemoveResource idx s =
     (if idx \<ge> length (resources s) then None
      else
        (let r = resources s ! idx; ci = gridCell r; gi = gridIndex r
         in if ci < 0 \<or> gi < 0 then Some s
            else if ci \<ge> int (length (resGrid s)) then None
            else
              (let cell = resGrid s ! nat ci
               in if cell = [] \<or> gi \<ge> int (length cell) then None
                  else
                    (let lastIdx = cell ! (length cell - 1)
                     in if lastIdx \<ge> length (resources s) then None
                        else
                          (let cell' = butlast (cell[nat gi := lastIdx]);
                               res1 = (resources s)
                                 [lastIdx := (resources s ! lastIdx)\<lparr>gridIndex := gi\<rparr>];
                               res2 = res1[idx := (res1 ! idx)\<lparr>gridCell := - 1, gridIndex := - 1\<rparr>]
                           in Some (s\<lparr>resources := res2,
                                      resGrid := (resGrid s)[nat ci := cell']\<rparr>))))))"

definition activateResource :: "nat \<Rightarrow> sim \<Rightarrow> sim option" where
  "activateResource idx s =
     (if idx \<ge> length (resources s) then None
      else
        (let r = resources s ! idx;
             r' = r\<lparr>active := True, activeIndex := int (length (resourceActive s))\<rparr>
         in gridAddResource idx
              (s\<lparr>resources := (resources s)[idx := r'],
                 resourceActive := resourceActive s @ [idx]\<rparr>)))"

definition deactivateResource :: "nat \<Rightarrow> sim \<Rightarrow> sim option" where
  "deactivateResource idx s =
     (if idx \<ge> length (resources s) then None
      else if \<not> active (resources s ! idx) then Some s
      else
        (case gridRemoveResource idx s of
           None \<Rightarrow> None
         | Some s1 \<Rightarrow>
             (let ai = activeIndex (resources s1 ! idx);
                  ra = resourceActive s1
              in if ra = [] \<or> ai < 0 \<or> ai \<ge> int (length ra) then None
                 else
                   (let lastIdx = ra ! (length ra - 1)
                    in if lastIdx \<ge> length (resources s1) then None
                       else
                         (let ra' = butlast (ra[nat ai := lastIdx]);
                              res1 = (resources s1)
                                [lastIdx := (resources s1 ! lastIdx)\<lparr>activeIndex := ai\<rparr>];
                              res2 = res1[idx := (res1 ! idx)\<lparr>active := False, activeIndex := - 1\<rparr>]
                          in Some (s1\<lparr>resources := res2, resourceActive := ra'\<rparr>))))))"

text \<open>
  Consistency of the grid with the back-references: every slot of every cell holds a
  resource whose \<open>_gridCell\<close> and \<open>_gridIndex\<close> name that slot, and every resource with
  \<open>_gridCell \<ge> 0\<close> names a slot of the cell computed from its position that holds it.
\<close>

definition grid_consistent :: "sim \<Rightarrow> bool" where
  "grid_consistent s \<longleftrightarrow>
     0 < resGridW s \<and> 0 < resGridH s
     \<and> int (length (resGrid s)) = resGridW s * resGridH s
     \<and> (\<forall>ci < length (resGrid s). \<forall>gi < length (resGrid s ! ci).
          resGrid s ! ci ! gi < length (resources s)
          \<and> gridCell (resources s ! (resGrid s ! ci ! gi)) = int ci
          \<and> gridIndex (resources s ! (resGrid s ! ci ! gi)) = int gi)
     \<and> (\<forall>idx < length (resources s). 0 \<le> gridCell (resources s ! idx) \<longrightarrow>
          cellIndexForPos s (rx (resources s ! idx)) (ry (resources s ! idx))
            = gridCell (resources s ! idx)
          \<and> gridCell (resources s ! idx) < int (length (resGrid s))
          \<and> 0 \<le> gridIndex (resources s ! idx)
          \<and> gridIndex (resources s ! idx)
              < int (length (resGrid s ! nat (gridCell (resources s ! idx))))
          \<and> resGrid s ! nat (gridCell (resources s ! idx))
               ! nat (gridIndex (resources s ! idx)) = idx)"

text \<open>
  Consistency of the active list: a resource is active exactly when it is in the grid,
  and the active list and the \<open>activeIndex\<close> fields name each other.
\<close>

definition active_consistent :: "sim \<Rightarrow> bool" where
  "active_consistent s \<longleftrightarrow>
     (\<forall>idx < length (resources s).
        active (resources s ! idx) \<longleftrightarrow> 0 \<le> gridCell (resources s ! idx))
     \<and> (\<forall>ai < length (resourceActive s).
          resourceActive s ! ai < length (resources s)
          \<and> active (resources s ! (resourceActive s ! ai))
          \<and> activeIndex (resources s ! (resourceActive s ! ai)) = int ai)
     \<and> (\<forall>idx < length (resources s). active (resources s ! idx) \<longrightarrow>
          0 \<le> activeIndex (resources s ! idx)
          \<and> activeIndex (resources s ! idx) < int (length (resourceActive s))
          \<and> resourceActive s ! nat (activeIndex (resources s ! idx)) = idx)"

text \<open>
  The property of claim C8 in its own words: an active resource is stored in exactly the
  cell computed from its position, at the slot its back-references name; an inactive
  resource is in no cell.
\<close>

definition stored_where_active :: "sim \<Rightarrow> bool" where
  "stored_where_active s \<longleftrightarrow>
     (\<forall>idx < length (resources s).
        (active (resources s ! idx) \<longrightarrow>
           (\<forall>ci < length (resGrid s). \<forall>gi < length (resGrid s ! ci).
              resGrid s ! ci ! gi = idx \<longleftrightarrow>
                int ci = cellIndexForPos s (rx (resources s ! idx)) (ry (resources s ! idx))
                \<and> int ci = gridCell (resources s ! idx)
                \<and> int gi = gridIndex (resources s ! idx))
           \<and> (\<exists>ci < length (resGrid s). \<exists>gi < length (resGrid s ! ci).
                resGrid s ! ci ! gi = idx))
        \<and> (\<not> active (resources s ! idx) \<longrightarrow>
             (\<forall>ci < length (resGrid s). idx \<notin> set (resGrid s ! ci))))"

text \<open>A position inside the world, as \<open>makeResource\<close> produces it.\<close>

definition in_world :: "resource \<Rightarrow> bool" where
  "in_world r \<longleftrightarrow> 0 \<le> rx r \<and> rx r < WORLD_w \<and> 0 \<le> ry r \<and> ry r < WORLD_h"

text \<open>Two resource records that differ at most in their grid back-references.\<close>

definition same_but_grid :: "resource \<Rightarrow> resource \<Rightarrow> bool" where
  "same_but_grid r r' \<longleftrightarrow> r' = r\<lparr>gridCell := gridCell r', gridIndex := gridIndex r'\<rparr>"

text \<open>Two resource records that agree on everything but the bookkeeping fields.\<close>

definition same_payload :: "resource \<Rightarrow> resource \<Rightarrow> bool" where
  "same_payload r r' \<longleftrightarrow>
     rid r' = rid r \<and> kind r' = kind r \<and> rx r' = rx r \<and> ry r' = ry r \<and> amt r' = amt r
     \<and> maxAmt r' = maxAmt r \<and> radius r' = radius r"

section \<open>Harvesting\<close>

definition PROBE_RADIUS :: rat where "PROBE_RADIUS = 10"
definition RESOURCE_BASE_R :: rat where "RESOURCE_BASE_R = 8"
definition TOUCH_PAD :: rat where "TOUCH_PAD = 6"
definition NUM_RES_COMMON :: nat where "NUM_RES_COMMON = 1200"
definition NUM_RES_RICH :: nat where "NUM_RES_RICH = 140"
definition RALLY_RADIUS2 :: rat where "RALLY_RADIUS2 = 260 * 260"
definition RALLY_FRACTION :: rat where "RALLY_FRACTION = 65 / 100"
definition RALLY_TIMEOUT :: rat where "RALLY_TIMEOUT = 22"
definition WARP_CHARGE_TIME :: rat where "WARP_CHARGE_TIME = 55 / 10"

text \<open>\<open>rand(a, b) = a + (b - a) * Math.random()\<close>, with the draw \<open>u\<close> of \<open>Math.random()\<close> given.\<close>

definition rand :: "rat \<Rightarrow> rat \<Rightarrow> rat \<Rightarrow> rat" where
  "rand a b u = a + (b - a) * u"

text \<open>
  \<open>_harvestFrom(ridx, dt)\<close> called on the probe at index \<open>i\<close>.  A missing resource
  (\<open>!r\<close>) and an amount at or below \<open>0.001\<close> return at once.
\<close>

definition harvestFrom :: "rat \<Rightarrow> nat \<Rightarrow> nat \<Rightarrow> sim \<Rightarrow> sim option" where
  "harvestFrom dt ridx i s =
     (if ridx \<ge> length (resources s) then Some s
      else
        (let r = resources s ! ridx
         in if amt r \<le> 1 / 1000 then Some s
            else
              (let this = probes s ! i;
                   take = min (amt r) (harvestRate (genes this) * dt);
                   r1 = r\<lparr>amt := amt r - take\<rparr>;
                   s1 = s\<lparr>resources := (resources s)[ridx := r1],
                          probes := (probes s)[i := this\<lparr>carried := carried this + take\<rparr>],
                          systemRemainingTotal := max 0 (systemRemainingTotal s - take)\<rparr>
               in if amt r1 \<le> 1 / 1000
                  then
                    (case deactivateResource ridx
                            (s1\<lparr>resources := (resources s1)[ridx := r1\<lparr>amt := 0\<rparr>]\<rparr>) of
                       None \<Rightarrow> None
                     | Some s2 \<Rightarrow>
                         Some (if target (probes s2 ! i) = int ridx
                               then s2\<lparr>probes := (probes s2)[i := (probes s2 ! i)\<lparr>target := - 1\<rparr>]\<rparr>
                               else s2))
                  else Some s1)))"

text \<open>Whether the probe touches the resource, and the squared distance it is at.\<close>

definition d2_to :: "probe \<Rightarrow> resource \<Rightarrow> rat" where
  "d2_to this r =
     (let dx = wrapDeltaFast (rx r - px this) WORLD_w;
          dy = wrapDeltaFast (ry r - py this) WORLD_h
      in dx * dx + dy * dy)"

definition touches :: "probe \<Rightarrow> resource \<Rightarrow> bool" where
  "touches this r =
     (let touch = PROBE_RADIUS + radius r + TOUCH_PAD in d2_to this r \<le> touch * touch)"

text \<open>
  The scan of one cell in \<open>harvest\<close>: \<open>best\<close> is a resource index or \<open>-1\<close>, \<open>bestD2\<close> is
  \<open>None\<close> while it is still \<open>Infinity\<close>.
\<close>

definition scan_cell :: "sim \<Rightarrow> probe \<Rightarrow> nat list \<Rightarrow> int \<times> rat option \<Rightarrow> int \<times> rat option" where
  "scan_cell s this cell acc =
     fold (\<lambda>ridx (best, bestD2).
             if ridx \<ge> length (resources s) then (best, bestD2)
             else
               (let r = resources s ! ridx
                in if amt r \<le> 1 / 1000 then (best, bestD2)
                   else if touches this r
                           \<and> (case bestD2 of None \<Rightarrow> True | Some b \<Rightarrow> d2_to this r < b)
                   then (int ridx, Some (d2_to this r))
                   else (best, bestD2)))
          cell acc"

definition scan_neigh :: "sim \<Rightarrow> probe \<Rightarrow> nat list \<Rightarrow> (int \<times> rat option) option" where
  "scan_neigh s this neigh =
     fold (\<lambda>n acc. case acc of
                      None \<Rightarrow> None
                    | Some a \<Rightarrow>
                        if n \<ge> length (resGrid s) then None
                        else Some (scan_cell s this (resGrid s ! n) a))
          neigh (Some (- 1, None))"

text \<open>\<open>harvest(dt)\<close> called on the probe at index \<open>i\<close>.\<close>

definition harvest :: "rat \<Rightarrow> nat \<Rightarrow> sim \<Rightarrow> sim option" where
  "harvest dt i s =
     (let this = probes s ! i
      in if dead this \<or> dt \<le> 0 then Some s
         else if resourceActive s = [] then Some s
         else
           (let live = (0 \<le> target this \<and> nat (target this) < length (resources s)
                        \<and> amt (resources s ! nat (target this)) > 1 / 1000)
            in if live \<and> touches this (resources s ! nat (target this))
               then harvestFrom dt (nat (target this)) i s
               else
                 (let s1 = (if 0 \<le> target this \<and> \<not> live
                            then s\<lparr>probes := (probes s)[i := this\<lparr>target := - 1\<rparr>]\<rparr>
                            else s);
                      ci = cellIndexForPos s1 (px this) (py this)
                  in if ci < 0 \<or> ci \<ge> int (length (harvestCellNeighbors s1)) then None
                     else
                       (case scan_neigh s1 this (harvestCellNeighbors s1 ! nat ci) of
                          None \<Rightarrow> None
                        | Some (best, bestD2) \<Rightarrow>
                            if 0 \<le> best then harvestFrom dt (nat best) i s1 else Some s1))))"

section \<open>System spawning\<close>

text \<open>
  The draws of one \<open>makeResource\<close> call: \<open>use_cluster\<close> is the outcome of the cluster test,
  \<open>u_x\<close>, \<open>u_y\<close>, \<open>u_amt\<close> are draws of \<open>Math.random()\<close>, \<open>cl_x\<close>, \<open>cl_y\<close> are the cluster
  centre plus its Gaussian offset, and \<open>sqrt_amt\<close> is the value of \<open>sqrt(maxAmt)\<close>.
\<close>

record res_env =
  use_cluster :: bool
  u_x :: rat
  u_y :: rat
  cl_x :: rat
  cl_y :: rat
  u_amt :: rat
  sqrt_amt :: rat

definition makeResource :: "nat \<Rightarrow> nat \<Rightarrow> res_env \<Rightarrow> resource" where
  "makeResource n k e =
     (let x = (if \<not> use_cluster e then rand 0 WORLD_w (u_x e) else wrap01Fast (cl_x e) WORLD_w);
          y = (if \<not> use_cluster e then rand 0 WORLD_h (u_y e) else wrap01Fast (cl_y e) WORLD_h);
          m = (if k = 0 then rand 18 110 (u_amt e) else rand 140 420 (u_amt e))
      in \<lparr> rid = n, kind = k, rx = x, ry = y, amt = m, maxAmt = m,
            radius = RESOURCE_BASE_R + sqrt_amt e * (if k = 0 then 52 / 100 else 62 / 100),
            active = False, activeIndex = - 1, gridCell = - 1, gridIndex = - 1 \<rparr>)"

definition initResGrid :: "sim \<Rightarrow> sim" where
  "initResGrid s =
     (let w = \<lceil>WORLD_w / RES_CELL\<rceil>; h = \<lceil>WORLD_h / RES_CELL\<rceil>
      in s\<lparr>resGridW := w, resGridH := h, resGrid := replicate (nat (w * h)) []\<rparr>)"

text \<open>
  \<open>mod(n, m)\<close> of the source, on JavaScript's truncating remainder: \<open>n % m\<close> has the sign
  of \<open>n\<close> and the magnitude of \<open>|n|\<close> modulo \<open>|m|\<close>.  For \<open>m = 0\<close> the source yields \<open>NaN\<close>; the
  function is called with the grid width and height only.
\<close>

definition js_mod :: "int \<Rightarrow> int \<Rightarrow> int" where
  "js_mod n m = (let r = sgn n * (\<bar>n\<bar> mod \<bar>m\<bar>) in if r < 0 then r + m else r)"

text \<open>
  \<open>buildNeighborLists\<close>, for the harvest table; the radar table is read by \<open>radarPing\<close>
  only, which is not modelled.
\<close>

definition buildNeighborLists :: "sim \<Rightarrow> sim" where
  "buildNeighborLists s =
     s\<lparr>harvestCellNeighbors :=
         map (\<lambda>ci. let cx = int ci mod resGridW s; cy = int ci div resGridW s
                   in concat (map (\<lambda>oy. map (\<lambda>ox. nat (js_mod (cx + ox) (resGridW s)
                                                    + js_mod (cy + oy) (resGridH s) * resGridW s))
                                        [- 1, 0, 1])
                              [- 1, 0, 1]))
             [0 ..< nat (resGridW s * resGridH s)]\<rparr>"

text \<open>One iteration of a creation loop of \<open>spawnSystem\<close>.\<close>

definition spawn_one :: "nat \<Rightarrow> nat \<Rightarrow> res_env \<Rightarrow> sim \<Rightarrow> sim option" where
  "spawn_one n k e s =
     (let r = makeResource n k e; idx = length (resources s)
      in case activateResource idx (s\<lparr>resources := resources s @ [r]\<rparr>) of
           None \<Rightarrow> None
         | Some s1 \<Rightarrow> Some (s1\<lparr>systemInitialTotal := systemInitialTotal s1 + maxAmt r\<rparr>))"

fun spawn_loop :: "nat \<Rightarrow> (nat \<Rightarrow> res_env) \<Rightarrow> nat list \<Rightarrow> sim \<Rightarrow> sim option" where
  "spawn_loop k env [] s = Some s"
| "spawn_loop k env (n # ns) s =
     (case spawn_one n k (env n) s of None \<Rightarrow> None | Some s1 \<Rightarrow> spawn_loop k env ns s1)"

definition spawnSystem :: "(nat \<Rightarrow> res_env) \<Rightarrow> sim \<Rightarrow> sim option" where
  "spawnSystem env s =
     (let s0 = initResGrid (s\<lparr>resources := [], resourceActive := [],
                               systemInitialTotal := 0, systemRemainingTotal := 0\<rparr>)
      in case spawn_loop 0 env [0 ..< NUM_RES_COMMON] s0 of
           None \<Rightarrow> None
         | Some s1 \<Rightarrow>
             (case spawn_loop 1 env [NUM_RES_COMMON ..< NUM_RES_COMMON + NUM_RES_RICH] s1 of
                None \<Rightarrow> None
              | Some s2 \<Rightarrow>
                  Some (buildNeighborLists
                          (s2\<lparr>systemRemainingTotal := systemInitialTotal s2\<rparr>))))"

section \<open>Probe update\<close>

text \<open>
  The steering arithmetic of the three control functions (square roots, trigonometry,
  keyboard state, random draws and the radar search) is not computed here: its results
  for one probe in one tick are inputs of the model.  \<open>k_vx\<close>, \<open>k_vy\<close>, \<open>k_heading\<close> are the
  velocity and heading the control function leaves; \<open>k_target\<close>, \<open>k_radarCooldown\<close>,
  \<open>k_wanderT\<close> are the values \<open>aiControl\<close> leaves in the fields it alone writes.  Guards,
  timers, flags, integration, damping and wrapping are modelled as written.
\<close>

record control =
  k_vx :: rat
  k_vy :: rat
  k_heading :: rat
  k_target :: int
  k_radarCooldown :: rat
  k_wanderT :: rat

definition steer :: "control \<Rightarrow> probe \<Rightarrow> probe" where
  "steer k p = p\<lparr>vx := k_vx k, vy := k_vy k, heading := k_heading k\<rparr>"

definition sacrificeBehavior :: "rat \<Rightarrow> control \<Rightarrow> probe \<Rightarrow> probe" where
  "sacrificeBehavior dt k p =
     (let p1 = steer k p;
          p2 = p1\<lparr>sacrificeT := sacrificeT p1 - dt\<rparr>
      in if sacrificeT p2 \<le> 0 then p2\<lparr>dead := True\<rparr> else p2)"

definition playerControl :: "control \<Rightarrow> probe \<Rightarrow> probe" where
  "playerControl k p = steer k p"

definition aiControl :: "rat \<Rightarrow> control \<Rightarrow> master \<Rightarrow> probe \<Rightarrow> probe" where
  "aiControl dt k m p =
     (let p1 = p\<lparr>replCooldown := max 0 (replCooldown p - dt)\<rparr>
      in if mstate m \<noteq> NORMAL \<and> mwaypoint m \<noteq> None
         then steer k (p1\<lparr>waypoint := mwaypoint m\<rparr>)
         else (steer k p1)\<lparr>target := k_target k, radarCooldown := k_radarCooldown k,
                            wanderT := k_wanderT k\<rparr>)"

text \<open>\<open>update(dt)\<close> of one probe; \<open>damp\<close> is the constant \<open>DAMP_FACTOR\<close>.\<close>

definition update :: "rat \<Rightarrow> rat \<Rightarrow> control \<Rightarrow> master \<Rightarrow> probe \<Rightarrow> probe" where
  "update dt damp k m p =
     (if dead p \<or> dt \<le> 0 then p
      else
        (let p1 = (if sacrificing p then sacrificeBehavior dt k p
                   else if isPlayer p then playerControl k p
                   else aiControl dt k m p);
             p2 = p1\<lparr>px := px p1 + vx p1 * dt, py := py p1 + vy p1 * dt\<rparr>;
             p3 = p2\<lparr>vx := vx p2 * damp, vy := vy p2 * damp\<rparr>
         in p3\<lparr>px := wrap01Fast (px p3) WORLD_w, py := wrap01Fast (py p3) WORLD_h\<rparr>))"

section \<open>Master orchestration\<close>

text \<open>
  The environment of one tick: the damping constant, the control results and replication
  draws per probe index, the draws of the rally waypoint, the sacrifice timers, and (for a
  warp) the draws of the new system and of the placement of each probe.
\<close>

record placement =
  w_x :: rat
  w_y :: rat
  w_vx :: rat
  w_vy :: rat
  w_radarCooldown :: rat
  w_wanderT :: rat
  w_heading :: rat

record tick_env =
  damp :: rat
  kin :: "nat \<Rightarrow> control"
  repl :: "nat \<Rightarrow> repl_env"
  rally_ux :: rat
  rally_uy :: rat
  sac_u :: "nat \<Rightarrow> rat"
  spawn_env :: "nat \<Rightarrow> res_env"
  place :: "nat \<Rightarrow> placement"

definition startRally :: "tick_env \<Rightarrow> sim \<Rightarrow> sim" where
  "startRally env s =
     (let wp = (rand 0 WORLD_w (rally_ux env), rand 0 WORLD_h (rally_uy env));
          m = (master s)\<lparr>mstate := RALLY, mt := 0, sacrificed := 0, toSacrifice := 0,
                          warpMachine := None, mwaypoint := Some wp\<rparr>
      in s\<lparr>master := m, probes := map (\<lambda>p. p\<lparr>waypoint := Some wp\<rparr>) (probes s)\<rparr>)"

text \<open>\<open>beginSacrifice(wp)\<close> of one probe, with the draw \<open>u\<close> of its timer.\<close>

definition beginSacrifice :: "rat \<times> rat \<Rightarrow> rat \<Rightarrow> probe \<Rightarrow> probe" where
  "beginSacrifice wp u p =
     (if isPlayer p then p
      else p\<lparr>sacrificing := True, sacrificeT := rand (7 / 10) (125 / 100) u,
              waypoint := Some wp, target := - 1\<rparr>)"

text \<open>The last loop of \<open>startBuild\<close>: \<open>beginSacrifice\<close> on the first entries of \<open>ai\<close>.\<close>

fun sacrifice_loop :: "rat \<times> rat \<Rightarrow> (nat \<Rightarrow> rat) \<Rightarrow> nat list \<Rightarrow> probe list \<Rightarrow> probe list" where
  "sacrifice_loop wp u [] ps = ps"
| "sacrifice_loop wp u (r # rs) ps =
     sacrifice_loop wp u rs (ps[r := beginSacrifice wp (u r) (ps ! r)])"

text \<open>
  \<open>startBuild\<close>.  The array \<open>ai\<close> holds the living non-player probes, as indices into
  \<open>probes\<close>.
\<close>

definition startBuild :: "tick_env \<Rightarrow> sim \<Rightarrow> sim option" where
  "startBuild env s =
     (let wp = (case mwaypoint (master s) of
                  None \<Rightarrow> (WORLD_w * (1 / 2), WORLD_h * (1 / 2))
                | Some w \<Rightarrow> w);
          ai = filter (\<lambda>i. \<not> isPlayer (probes s ! i) \<and> \<not> dead (probes s ! i))
                 [0 ..< length (probes s)];
          toSac = nat \<lfloor>rat_of_nat (length ai) * (10 / 100)\<rfloor>;
          m = (master s)\<lparr>mstate := BUILD, mt := 0, sacrificed := 0, mwaypoint := Some wp,
                          warpMachine := Some \<lparr>wm_x = fst wp, wm_y = snd wp, wm_mode = BUILD\<rparr>,
                          toSacrifice := toSac\<rparr>
      in if toSac \<le> 0 then Some (s\<lparr>master := m\<rparr>)
         else
           (case selectKClosestInPlace (probes s) ai (int toSac) wp of
              None \<Rightarrow> None
            | Some (ps, ai') \<Rightarrow>
                Some (s\<lparr>master := m,
                        probes := sacrifice_loop wp (sac_u env) (take toSac ai') ps\<rparr>)))"

definition startCharge :: "sim \<Rightarrow> sim" where
  "startCharge s =
     s\<lparr>master := (master s)\<lparr>mstate := CHARGE, mt := 0,
          warpMachine := map_option (\<lambda>w. w\<lparr>wm_mode := CHARGE\<rparr>) (warpMachine (master s))\<rparr>\<rparr>"

text \<open>The placement of one surviving probe in \<open>performWarp\<close>.\<close>

definition warpProbe :: "placement \<Rightarrow> probe \<Rightarrow> probe" where
  "warpProbe w p =
     (let p1 = p\<lparr>px := wrap01Fast (w_x w) WORLD_w, py := wrap01Fast (w_y w) WORLD_h,
                 vx := w_vx w, vy := w_vy w, target := - 1, waypoint := None\<rparr>;
          p2 = (if \<not> isPlayer p1
                then p1\<lparr>radarCooldown := w_radarCooldown w, wanderT := w_wanderT w,
                        heading := w_heading w\<rparr>
                else p1)
      in p2\<lparr>replCooldown := max (replCooldown p2) (1 / 2)\<rparr>)"

definition performWarp :: "tick_env \<Rightarrow> sim \<Rightarrow> sim option" where
  "performWarp env s =
     (let s1 = s\<lparr>master := (master s)\<lparr>mstate := WARP, mt := 0\<rparr>,
                 systemIndex := systemIndex s + 1\<rparr>
      in case spawnSystem (spawn_env env) s1 of
           None \<Rightarrow> None
         | Some s2 \<Rightarrow>
             Some (s2\<lparr>probes := map (\<lambda>i. warpProbe (place env i) (probes s2 ! i))
                                   [0 ..< length (probes s2)],
                      master := (master s2)\<lparr>mwaypoint := None, warpMachine := None,
                                            mstate := NORMAL, mt := 0\<rparr>\<rparr>))"

definition countArrivedAtWaypointSq :: "rat \<Rightarrow> sim \<Rightarrow> nat" where
  "countArrivedAtWaypointSq radiusSq s =
     (case mwaypoint (master s) of
        None \<Rightarrow> 0
      | Some (wx, wy) \<Rightarrow>
          length (filter (\<lambda>p. \<not> dead p \<and>
                    (let dx = wrapDeltaFast (wx - px p) WORLD_w;
                         dy = wrapDeltaFast (wy - py p) WORLD_h
                     in dx * dx + dy * dy \<le> radiusSq))
                  (probes s)))"

definition masterUpdate :: "rat \<Rightarrow> tick_env \<Rightarrow> sim \<Rightarrow> sim option" where
  "masterUpdate dt env s =
     (if dt \<le> 0 then Some s
      else if mstate (master s) = NORMAL then
        (if systemInitialTotal s > 0 then
           (let remainingFrac = round_double (systemRemainingTotal s / systemInitialTotal s)
            in if remainingFrac \<le> round_double (1 - MASTER_TRIGGER_DEPLETION)
                  \<and> length (probes s) \<ge> 1
               then Some (startRally env s) else Some s)
         else Some s)
      else
        (let s1 = s\<lparr>master := (master s)\<lparr>mt := mt (master s) + dt\<rparr>\<rparr>
         in if mstate (master s1) = RALLY then
              (let alive = length (probes s1);
                   arrived = countArrivedAtWaypointSq RALLY_RADIUS2 s1;
                   need = max 1 (nat \<lfloor>rat_of_nat alive * RALLY_FRACTION\<rfloor>);
                   timeoutOk = (mt (master s1) \<ge> RALLY_TIMEOUT
                                \<and> arrived \<ge> max 1 (nat \<lfloor>rat_of_nat alive * (45 / 100)\<rfloor>))
               in if arrived \<ge> need \<or> timeoutOk then startBuild env s1 else Some s1)
            else if mstate (master s1) = BUILD then
              (if sacrificed (master s1) \<ge> toSacrifice (master s1)
               then Some (startCharge s1) else Some s1)
            else if mstate (master s1) = CHARGE then
              (if mt (master s1) \<ge> WARP_CHARGE_TIME then performWarp env s1 else Some s1)
            else Some s1))"

text \<open>\<open>purgeSacrificed\<close>: one compaction pass over \<open>probes\<close>.\<close>

definition purgeSacrificed :: "sim \<Rightarrow> sim" where
  "purgeSacrificed s =
     (let died = length (filter dead (probes s))
      in if died > 0
         then s\<lparr>probes := filter (\<lambda>p. \<not> dead p) (probes s),
                master := (master s)\<lparr>sacrificed := sacrificed (master s) + died\<rparr>\<rparr>
         else s)"

text \<open>Two probe records that differ at most in what they carry and in their target.\<close>

definition same_but_cargo :: "probe \<Rightarrow> probe \<Rightarrow> bool" where
  "same_but_cargo p p' \<longleftrightarrow> p' = p\<lparr>carried := carried p', target := target p'\<rparr>"

text \<open>
  What a pool operation leaves alone: everything but the resource records (of which it
  keeps the number and the payload), the active list and the grid.
\<close>

definition pool_frame :: "sim \<Rightarrow> sim \<Rightarrow> bool" where
  "pool_frame s s' \<longleftrightarrow>
     s' = s\<lparr>resources := resources s', resourceActive := resourceActive s',
            resGrid := resGrid s'\<rparr>
     \<and> length (resources s') = length (resources s)
     \<and> (\<forall>j < length (resources s). same_payload (resources s ! j) (resources s' ! j))"

text \<open>
  What one harvest leaves alone: everything but the pool, the probes (of which it keeps
  the number and changes only cargo and target) and the remaining total.
\<close>

definition harvest_frame :: "sim \<Rightarrow> sim \<Rightarrow> bool" where
  "harvest_frame s s' \<longleftrightarrow>
     master s' = master s \<and> probeId s' = probeId s \<and> resGridW s' = resGridW s
     \<and> resGridH s' = resGridH s \<and> harvestCellNeighbors s' = harvestCellNeighbors s
     \<and> systemIndex s' = systemIndex s \<and> systemInitialTotal s' = systemInitialTotal s
     \<and> length (resources s') = length (resources s)
     \<and> length (probes s') = length (probes s)
     \<and> (\<forall>j < length (probes s). same_but_cargo (probes s ! j) (probes s' ! j))"

definition snap :: "rat \<Rightarrow> rat" where
  "snap a = (if a \<le> 1 / 1000 then 0 else a)"

text \<open>
  The relation between the remaining total and the amounts that the code maintains: no
  amount is negative, and the total lies between the sum of the amounts and that sum plus
  one thousandth per depleted resource.
\<close>

definition pool_total :: "sim \<Rightarrow> bool" where
  "pool_total s \<longleftrightarrow>
     list_all (\<lambda>r. 0 \<le> amt r) (resources s)
     \<and> sum_list (map amt (resources s)) \<le> systemRemainingTotal s
     \<and> systemRemainingTotal s
          \<le> sum_list (map amt (resources s))
            + (1 / 1000) * rat_of_nat (length (filter (\<lambda>r. amt r = 0) (resources s)))"

text \<open>The loop \<open>for (i...) probes[i].harvest(dt)\<close> of \<open>simStep\<close>, from index \<open>i\<close> on.\<close>

function harvest_loop :: "rat \<Rightarrow> nat \<Rightarrow> sim \<Rightarrow> sim option" where
  "harvest_loop dt i s =
     (if i < length (probes s)
      then (case harvest dt i s of None \<Rightarrow> None | Some s' \<Rightarrow> harvest_loop dt (i + 1) s')
      else Some s)"
  by pat_completeness auto

text \<open>
  The loop \<open>for (i...) probes[i].tryAutoReplicate(dt)\<close> of \<open>simStep\<close>: the bound
  \<open>probes.length\<close> is read again in every iteration, so the children pushed by the loop
  are visited by it.
\<close>

function replicate_loop :: "rat \<Rightarrow> (nat \<Rightarrow> repl_env) \<Rightarrow> nat \<Rightarrow> sim \<Rightarrow> sim" where
  "replicate_loop dt env i s =
     (if i < length (probes s)
      then replicate_loop dt env (i + 1) (tryAutoReplicate dt (env i) i s)
      else s)"
  by pat_completeness auto

text \<open>
  The first three phases of \<open>simStep\<close>: the state \<open>masterUpdate\<close> is called in.
\<close>

definition before_master :: "rat \<Rightarrow> tick_env \<Rightarrow> sim \<Rightarrow> sim option" where
  "before_master dt env s =
     (let s1 = s\<lparr>probes := map (\<lambda>i. update dt (damp env) (kin env i) (master s) (probes s ! i))
                              [0 ..< length (probes s)]\<rparr>
      in case harvest_loop dt 0 s1 of
           None \<Rightarrow> None
         | Some s2 \<Rightarrow>
             Some (if mstate (master s2) = NORMAL then replicate_loop dt (repl env) 0 s2
                   else s2))"

definition simStep :: "rat \<Rightarrow> tick_env \<Rightarrow> sim \<Rightarrow> sim option" where
  "simStep dt env s =
     (case before_master dt env s of
        None \<Rightarrow> None
      | Some s3 \<Rightarrow>
          (case masterUpdate dt env s3 of
             None \<Rightarrow> None
           | Some s4 \<Rightarrow> Some (purgeSacrificed s4)))"

text \<open>What replication leaves alone: everything but the probe array and the id counter.\<close>

definition repl_frame :: "sim \<Rightarrow> sim \<Rightarrow> bool" where
  "repl_frame s s' \<longleftrightarrow>
     master s' = master s \<and> resources s' = resources s
     \<and> resourceActive s' = resourceActive s \<and> resGrid s' = resGrid s
     \<and> resGridW s' = resGridW s \<and> resGridH s' = resGridH s
     \<and> harvestCellNeighbors s' = harvestCellNeighbors s
     \<and> systemIndex s' = systemIndex s \<and> systemInitialTotal s' = systemInitialTotal s
     \<and> systemRemainingTotal s' = systemRemainingTotal s"

text \<open>
  The depletion test of \<open>masterUpdate\<close> as the code evaluates it: the quotient and the
  difference \<open>1 - MASTER_TRIGGER_DEPLETION\<close> are doubles.  The test is not reached with an
  initial total of zero.
\<close>

definition depletion_reached :: "sim \<Rightarrow> bool" where
  "depletion_reached s \<longleftrightarrow>
     0 < systemInitialTotal s
     \<and> round_double (systemRemainingTotal s / systemInitialTotal s)
           \<le> round_double (1 - MASTER_TRIGGER_DEPLETION)"

text \<open>The state after \<open>n\<close> ticks, tick \<open>k\<close> taking its environment from \<open>envs k\<close>.\<close>

fun run :: "rat \<Rightarrow> (nat \<Rightarrow> tick_env) \<Rightarrow> nat \<Rightarrow> sim \<Rightarrow> sim option" where
  "run dt envs 0 s = Some s"
| "run dt envs (Suc n) s =
     (case run dt envs n s of None \<Rightarrow> None | Some sn \<Rightarrow> simStep dt (envs n) sn)"

text \<open>
  Whether, in tick \<open>n\<close> (counted from 0), \<open>masterUpdate\<close> finds the depletion condition
  true and at least one probe.
\<close>

definition triggered :: "rat \<Rightarrow> (nat \<Rightarrow> tick_env) \<Rightarrow> nat \<Rightarrow> sim \<Rightarrow> bool" where
  "triggered dt envs n s \<longleftrightarrow>
     (case run dt envs n s of
        None \<Rightarrow> False
      | Some sn \<Rightarrow>
          (case before_master dt (envs n) sn of
             None \<Rightarrow> False
           | Some s3 \<Rightarrow> depletion_reached s3 \<and> 1 \<le> length (probes s3)))"

text \<open>The draws of \<open>Math.random()\<close> lie in \<open>[0, 1)\<close>.\<close>

definition res_env_ok :: "res_env \<Rightarrow> bool" where
  "res_env_ok e \<longleftrightarrow>
     0 \<le> u_x e \<and> u_x e < 1 \<and> 0 \<le> u_y e \<and> u_y e < 1 \<and> 0 \<le> u_amt e \<and> u_amt e < 1"

text \<open>What spawning leaves alone, and how it moves the totals.\<close>

definition spawn_frame :: "sim \<Rightarrow> sim \<Rightarrow> bool" where
  "spawn_frame s s' \<longleftrightarrow>
     master s' = master s \<and> probes s' = probes s \<and> probeId s' = probeId s
     \<and> systemIndex s' = systemIndex s \<and> resGridW s' = resGridW s \<and> resGridH s' = resGridH s
     \<and> systemRemainingTotal s' = systemRemainingTotal s
     \<and> systemInitialTotal s' - sum_list (map amt (resources s'))
         = systemInitialTotal s - sum_list (map amt (resources s))"

text \<open>The remaining total and the amounts are the same in two states.\<close>

definition amounts_kept :: "sim \<Rightarrow> sim \<Rightarrow> bool" where
  "amounts_kept s s' \<longleftrightarrow>
     systemRemainingTotal s' = systemRemainingTotal s
     \<and> map amt (resources s') = map amt (resources s)"

text \<open>
  The three flags of a probe that the sacrifice accounting reads: \<open>isPlayer\<close>,
  \<open>sacrificing\<close>, \<open>dead\<close>.
\<close>

definition flags :: "probe \<Rightarrow> bool \<times> bool \<times> bool" where
  "flags p = (isPlayer p, sacrificing p, dead p)"

text \<open>A dead probe is a sacrificing one, and the player is never sacrificing.\<close>

definition sacrifice_ok :: "probe \<Rightarrow> bool" where
  "sacrifice_ok p \<longleftrightarrow> (dead p \<longrightarrow> sacrificing p) \<and> (isPlayer p \<longrightarrow> \<not> sacrificing p)"

text \<open>
  The accounting of the sacrifice: in \<open>BUILD\<close> the probes already counted and the probes
  still sacrificing add up to \<open>toSacrifice\<close>; in \<open>CHARGE\<close> all of them are counted; in the
  other states no probe is sacrificing.
\<close>

definition sacrifice_inv :: "sim \<Rightarrow> bool" where
  "sacrifice_inv s \<longleftrightarrow>
     list_all sacrifice_ok (probes s)
     \<and> (case mstate (master s) of
           BUILD \<Rightarrow> sacrificed (master s) + length (filter sacrificing (probes s))
                      = toSacrifice (master s)
         | CHARGE \<Rightarrow> sacrificed (master s) = toSacrifice (master s)
                      \<and> filter sacrificing (probes s) = []
         | _ \<Rightarrow> filter sacrificing (probes s) = [])"

section \<open>Example states\<close>

definition ex_dna :: dna where
  "ex_dna = \<lparr> maxSpeed = 200, accel = 400, harvestRate = 22 \<rparr>"

definition ex_probe :: probe where
  "ex_probe =
     \<lparr> pid = 1, isPlayer = False, px = 100, py = 23990, vx = 0, vy = 0, heading = 0,
       carried = 150, genes = ex_dna, target = - 1, radarCooldown = 1, wanderT = 1,
       replCooldown = 0, waypoint = None, sacrificing = False, sacrificeT = 0, dead = False,
       d2tmp = 0 \<rparr>"

definition ex_master :: master where
  "ex_master =
     \<lparr> mstate = NORMAL, mwaypoint = None, mt = 0, sacrificed = 0, toSacrifice = 0,
       warpMachine = None \<rparr>"

definition ex_env :: repl_env where
  "ex_env =
     \<lparr> off_x = 30, off_y = 25, f_maxSpeed = 1, f_accel = 1, f_harvest = 1, c_vx = 40,
       c_vy = 0, c_heading = 0, c_radarCooldown = 1/2, c_wanderT = 1/2, cooldown = 2 \<rparr>"

text \<open>One autonomous probe carrying 150, no resources, a grid of one cell.\<close>

definition ex_sim :: sim where
  "ex_sim =
     \<lparr> probes = [ex_probe], probeId = 2, resources = [], resourceActive = [],
       resGridW = 1, resGridH = 1, resGrid = [[]], harvestCellNeighbors = [[0]],
       systemIndex = 1, systemInitialTotal = 0, systemRemainingTotal = 0,
       master = ex_master \<rparr>"

definition ex_probes :: "probe list" where
  "ex_probes = map (\<lambda>d. ex_probe\<lparr>px := d, py := 0\<rparr>) [5, 3, 9, 1, 7, 2, 8]"

definition ex_arr :: "nat list" where
  "ex_arr = [0, 1, 2, 3, 4, 5, 6]"

definition ex_resource :: resource where
  "ex_resource =
     \<lparr> rid = 0, kind = 0, rx = 100, ry = 100, amt = 881 / 2000, maxAmt = 36081 / 2000,
       radius = 10, active = True, activeIndex = 0, gridCell = 0, gridIndex = 0 \<rparr>"

definition ex_pool :: sim where
  "ex_pool =
     \<lparr> probes = [ex_probe\<lparr>px := 100, py := 100, carried := 0, target := 0\<rparr>], probeId = 2,
       resources = [ex_resource], resourceActive = [0],
       resGridW = 35, resGridH = 35, resGrid = [0] # replicate 1224 [],
       harvestCellNeighbors = [], systemIndex = 1,
       systemInitialTotal = 36081 / 2000, systemRemainingTotal = 881 / 2000,
       master = ex_master \<rparr>"

definition ex_pool_off :: sim where
  "ex_pool_off =
     ex_pool\<lparr>resources := [ex_resource\<lparr>active := False, activeIndex := - 1, gridCell := - 1,
                                         gridIndex := - 1\<rparr>],
             resourceActive := [], resGrid := replicate 1225 []\<rparr>"

definition ex_control :: control where
  "ex_control =
     \<lparr> k_vx = 0, k_vy = 0, k_heading = 0, k_target = 0, k_radarCooldown = 1, k_wanderT = 1 \<rparr>"

definition ex_placement :: placement where
  "ex_placement =
     \<lparr> w_x = 12100, w_y = 12000, w_vx = 20, w_vy = 0, w_radarCooldown = 1 / 2,
       w_wanderT = 1 / 2, w_heading = 0 \<rparr>"

definition ex_res_env :: res_env where
  "ex_res_env =
     \<lparr> use_cluster = False, u_x = 1 / 2, u_y = 1 / 4, cl_x = 0, cl_y = 0, u_amt = 1 / 2,
       sqrt_amt = 8 \<rparr>"

definition ex_tick_env :: tick_env where
  "ex_tick_env =
     \<lparr> damp = 979 / 1000, kin = (\<lambda>i. ex_control), repl = (\<lambda>i. ex_env),
       rally_ux = 1 / 2, rally_uy = 1 / 2, sac_u = (\<lambda>i. 1 / 2),
       spawn_env = (\<lambda>n. ex_res_env), place = (\<lambda>i. ex_placement) \<rparr>"

text \<open>
  One autonomous probe with harvest rate 25 resting on a resource that holds 10.5 of its
  100: the system is 89.5 percent depleted, and a tick of a fiftieth of a second harvests
  one half.  The grid has a single cell.  \<open>ex_ten1\<close> and \<open>ex_ten2\<close> are the states one and
  two ticks later, before \<open>masterUpdate\<close> runs.
\<close>

definition ex_ten :: sim where
  "ex_ten =
     \<lparr> probes = [ex_probe\<lparr>px := 100, py := 100, carried := 0, target := 0,
                            genes := ex_dna\<lparr>harvestRate := 25\<rparr>\<rparr>], probeId = 2,
       resources = [ex_resource\<lparr>amt := 105 / 10, maxAmt := 100\<rparr>], resourceActive = [0],
       resGridW = 1, resGridH = 1, resGrid = [[0]], harvestCellNeighbors = [[0]],
       systemIndex = 1, systemInitialTotal = 100, systemRemainingTotal = 105 / 10,
       master = ex_master \<rparr>"

definition ex_ten1 :: sim where
  "ex_ten1 =
     \<lparr> probes = [ex_probe\<lparr>px := 100, py := 100, carried := 1 / 2, target := 0,
                            genes := ex_dna\<lparr>harvestRate := 25\<rparr>\<rparr>], probeId = 2,
       resources = [ex_resource\<lparr>amt := 10, maxAmt := 100\<rparr>], resourceActive = [0],
       resGridW = 1, resGridH = 1, resGrid = [[0]], harvestCellNeighbors = [[0]],
       systemIndex = 1, systemInitialTotal = 100, systemRemainingTotal = 10,
       master = ex_master \<rparr>"

definition ex_ten2 :: sim where
  "ex_ten2 =
     \<lparr> probes = [ex_probe\<lparr>px := 100, py := 100, carried := 1, target := 0,
                            genes := ex_dna\<lparr>harvestRate := 25\<rparr>\<rparr>], probeId = 2,
       resources = [ex_resource\<lparr>amt := 95 / 10, maxAmt := 100\<rparr>], resourceActive = [0],
       resGridW = 1, resGridH = 1, resGrid = [[0]], harvestCellNeighbors = [[0]],
       systemIndex = 1, systemInitialTotal = 100, systemRemainingTotal = 95 / 10,
       master = ex_master \<rparr>"

text \<open>
  A system in \<open>RALLY\<close> with one autonomous probe resting on the last resource, which holds
  0.4405: the pool is in balance, and a tick of a fiftieth of a second harvests 0.44.
  \<open>ex_snap1\<close> is the state after that tick.
\<close>

definition ex_snap :: sim where
  "ex_snap =
     \<lparr> probes = [ex_probe\<lparr>px := 100, py := 100, carried := 0, target := 0,
                            waypoint := Some (20000, 20000)\<rparr>], probeId = 2,
       resources = [ex_resource\<lparr>maxAmt := 100\<rparr>], resourceActive = [0],
       resGridW = 1, resGridH = 1, resGrid = [[0]], harvestCellNeighbors = [[0]],
       systemIndex = 1, systemInitialTotal = 100, systemRemainingTotal = 881 / 2000,
       master = ex_master\<lparr>mstate := RALLY, mwaypoint := Some (20000, 20000), mt := 1\<rparr> \<rparr>"

definition ex_snap1 :: sim where
  "ex_snap1 =
     \<lparr> probes = [ex_probe\<lparr>px := 100, py := 100, carried := 11 / 25, target := - 1,
                            waypoint := Some (20000, 20000)\<rparr>], probeId = 2,
       resources = [ex_resource\<lparr>amt := 0, maxAmt := 100, active := False, activeIndex := - 1,
                                  gridCell := - 1, gridIndex := - 1\<rparr>],
       resourceActive = [],
       resGridW = 1, resGridH = 1, resGrid = [[]], harvestCellNeighbors = [[0]],
       systemIndex = 1, systemInitialTotal = 100, systemRemainingTotal = 1 / 2000,
       master = ex_master\<lparr>mstate := RALLY, mwaypoint := Some (20000, 20000),
                          mt := 51 / 50\<rparr> \<rparr>"

text \<open>
  A system in \<open>RALLY\<close> with the player and ten autonomous probes, none sacrificing.
\<close>

definition ex_rally :: sim where
  "ex_rally =
     ex_sim\<lparr>probes := ex_probe\<lparr>isPlayer := True, pid := 0\<rparr>
                 # map (\<lambda>d. ex_probe\<lparr>px := d, py := 0\<rparr>) [5, 3, 9, 1, 7, 2, 8, 4, 6, 10],
            master := ex_master\<lparr>mstate := RALLY, mwaypoint := Some (0, 0), mt := 1\<rparr>\<rparr>"

text \<open>
  A system in \<open>BUILD\<close> whose one probe is sacrificing with a hundredth of a second left:
  \<open>ex_build1\<close> is the state after one tick (the probe died and was counted), \<open>ex_build2\<close>
  the state after the next (the master went on to \<open>CHARGE\<close>).
\<close>

definition ex_build :: sim where
  "ex_build =
     ex_sim\<lparr>probes := [ex_probe\<lparr>px := 100, py := 100, carried := 0, sacrificing := True,
                                   sacrificeT := 1 / 100, waypoint := Some (0, 0)\<rparr>],
            master := \<lparr> mstate = BUILD, mwaypoint = Some (0, 0), mt = 1, sacrificed = 0,
                        toSacrifice = 1,
                        warpMachine = Some \<lparr>wm_x = 0, wm_y = 0, wm_mode = BUILD\<rparr> \<rparr>\<rparr>"

definition ex_build1 :: sim where
  "ex_build1 =
     ex_sim\<lparr>probes := [],
            master := \<lparr> mstate = BUILD, mwaypoint = Some (0, 0), mt = 51 / 50, sacrificed = 1,
                        toSacrifice = 1,
                        warpMachine = Some \<lparr>wm_x = 0, wm_y = 0, wm_mode = BUILD\<rparr> \<rparr>\<rparr>"

definition ex_build2 :: sim where
  "ex_build2 =
     ex_sim\<lparr>probes := [],
            master := \<lparr> mstate = CHARGE, mwaypoint = Some (0, 0), mt = 0, sacrificed = 1,
                        toSacrifice = 1,
                        warpMachine = Some \<lparr>wm_x = 0, wm_y = 0, wm_mode = CHARGE\<rparr> \<rparr>\<rparr>"

section \<open>Properties of the toroidal geometry\<close>

lemma js_rem_bounds:
  assumes "0 < m"
  shows "- m < js_rem v m" and "js_rem v m < m"
proof -
  let ?q = "v / m"
  have a: "of_int (trunc ?q) - 1 < ?q \<and> ?q < of_int (trunc ?q) + (1::rat)"
    unfolding trunc_def by (auto; linarith)
  have e: "js_rem v m = m * (?q - of_int (trunc ?q))"
    unfolding js_rem_def using assms by (simp add: algebra_simps)
  have "- 1 < ?q - of_int (trunc ?q)" "?q - of_int (trunc ?q) < 1"
    using a by auto
  then have "m * (- 1) < m * (?q - of_int (trunc ?q))"
    and "m * (?q - of_int (trunc ?q)) < m * 1"
    using assms by (auto simp only: mult_less_cancel_left_pos)
  then show "- m < js_rem v m" and "js_rem v m < m"
    unfolding e by auto
qed

lemma wrap01Fast_range:
  assumes "0 < s"
  shows "0 \<le> wrap01Fast v s \<and> wrap01Fast v s < s"
proof -
  define v1 where "v1 = (if v < 0 then v + s else if v \<ge> s then v - s else v)"
  define v2 where "v2 = js_rem v1 s"
  have b: "- s < v2" "v2 < s"
    unfolding v2_def using js_rem_bounds[OF assms] by auto
  have e: "wrap01Fast v s =
      (if v1 < 0 \<or> v1 \<ge> s then (if v2 < 0 then v2 + s else v2) else v1)"
    unfolding wrap01Fast_def v1_def v2_def Let_def by simp
  show ?thesis unfolding e using b by auto
qed

lemma wrap01Fast_fix: "0 \<le> v \<Longrightarrow> v < s \<Longrightarrow> wrap01Fast v s = v"
  unfolding wrap01Fast_def Let_def by auto

text \<open>
  Claim C7.  For every value \<open>v\<close> and every world size \<open>s > 0\<close>, wrapping is idempotent and
  its result lies in \<open>[0, s)\<close>, also when the modulo fallback is taken.
\<close>

theorem wrap01Fast_idempotent:
  assumes "0 < s"
  shows "wrap01Fast (wrap01Fast v s) s = wrap01Fast v s
         \<and> 0 \<le> wrap01Fast v s \<and> wrap01Fast v s < s"
  using wrap01Fast_range[OF assms, of v] wrap01Fast_fix[of "wrap01Fast v s" s] by simp

theorem wrap01Fast_idempotent_witness:
  "(0::rat) < 24000
   \<and> wrap01Fast (- 50001) 24000 = 21999
   \<and> wrap01Fast (wrap01Fast (- 50001) 24000) 24000 = wrap01Fast (- 50001) 24000
   \<and> 0 \<le> wrap01Fast (- 50001) 24000 \<and> wrap01Fast (- 50001) 24000 < 24000"
proof -
  have h: "(0::rat) < 24000" by simp
  have v: "wrap01Fast (- 50001) 24000 = 21999"
    by code_simp
  show ?thesis using h v wrap01Fast_idempotent[OF h, of "- 50001"] by simp
qed

text \<open>
  Claim C6, as stated: the result of \<open>wrapDeltaFast\<close> lies in the half-open interval
  \<open>(-size/2, size/2]\<close>.  It fails at \<open>d = -size/2\<close>, the difference of the coordinates
  \<open>0\<close> and \<open>12000\<close> in a world of size \<open>24000\<close>: the value is returned unchanged.
\<close>

theorem wrapDeltaFast_half_open_counterexample:
  "- 24000 \<le> (- 12000 :: rat) \<and> (- 12000 :: rat) \<le> 24000
   \<and> wrapDeltaFast (- 12000) 24000 = - 12000
   \<and> \<not> (- (24000 / 2) < wrapDeltaFast (- 12000) 24000
          \<and> wrapDeltaFast (- 12000) 24000 \<le> 24000 / 2)"
  by (simp add: wrapDeltaFast_def Let_def)

text \<open>
  Claim C6, amended.  For every difference \<open>d\<close> in \<open>[-size, size]\<close> the result differs from
  \<open>d\<close> by a multiple of \<open>size\<close> and lies in the closed interval \<open>[-size/2, size/2]\<close>; the
  lower end \<open>-size/2\<close> is returned exactly when \<open>d = -size/2\<close>: it is returned for that
  difference, and every other difference gives a result above it.
\<close>

theorem wrapDeltaFast_closed_interval:
  assumes "0 < sz" and "- sz \<le> d" and "d \<le> sz"
  shows "(\<exists>k::int. wrapDeltaFast d sz = d + of_int k * sz)
         \<and> - (sz / 2) \<le> wrapDeltaFast d sz \<and> wrapDeltaFast d sz \<le> sz / 2
         \<and> (d \<noteq> - (sz / 2) \<longrightarrow> - (sz / 2) < wrapDeltaFast d sz)
         \<and> wrapDeltaFast (- (sz / 2)) sz = - (sz / 2)
         \<and> (wrapDeltaFast d sz = - (sz / 2) \<longleftrightarrow> d = - (sz / 2))"
proof -
  have k: "\<exists>k::int. wrapDeltaFast d sz = d + of_int k * sz"
  proof -
    have "wrapDeltaFast d sz = d + of_int (- 1) * sz
          \<or> wrapDeltaFast d sz = d + of_int 1 * sz
          \<or> wrapDeltaFast d sz = d + of_int 0 * sz"
      unfolding wrapDeltaFast_def Let_def by simp
    then show ?thesis by blast
  qed
  have r: "- (sz / 2) \<le> wrapDeltaFast d sz \<and> wrapDeltaFast d sz \<le> sz / 2
           \<and> (d \<noteq> - (sz / 2) \<longrightarrow> - (sz / 2) < wrapDeltaFast d sz)"
    using assms unfolding wrapDeltaFast_def Let_def by auto
  have l: "wrapDeltaFast (- (sz / 2)) sz = - (sz / 2)"
    using assms(1) unfolding wrapDeltaFast_def Let_def by simp
  have i: "wrapDeltaFast d sz = - (sz / 2) \<longleftrightarrow> d = - (sz / 2)"
  proof
    assume "wrapDeltaFast d sz = - (sz / 2)"
    with r show "d = - (sz / 2)" by auto
  next
    assume "d = - (sz / 2)"
    with l show "wrapDeltaFast d sz = - (sz / 2)" by simp
  qed
  show ?thesis using k r l i by blast
qed

theorem wrapDeltaFast_closed_interval_witness:
  "(0::rat) < 24000 \<and> - 24000 \<le> (- 23000 :: rat) \<and> (- 23000 :: rat) \<le> 24000
   \<and> (- 23000 :: rat) \<noteq> - (24000 / 2)
   \<and> wrapDeltaFast (- 23000) 24000 = 1000
   \<and> (\<exists>k::int. wrapDeltaFast (- 23000) 24000 = - 23000 + of_int k * 24000)
   \<and> - (24000 / 2) < wrapDeltaFast (- 23000) 24000
   \<and> wrapDeltaFast (- 23000) 24000 \<le> 24000 / 2
   \<and> wrapDeltaFast (- (24000 / 2)) 24000 = - (24000 / 2)
   \<and> wrapDeltaFast (- 23000) 24000 \<noteq> - (24000 / 2)"
proof -
  have v: "wrapDeltaFast (- 23000) 24000 = 1000"
    by (simp add: wrapDeltaFast_def Let_def)
  have "(\<exists>k::int. wrapDeltaFast (- 23000) 24000 = - 23000 + of_int k * 24000)
        \<and> - (24000 / 2) \<le> wrapDeltaFast (- 23000) 24000
        \<and> wrapDeltaFast (- 23000) 24000 \<le> 24000 / 2
        \<and> ((- 23000 :: rat) \<noteq> - (24000 / 2) \<longrightarrow> - (24000 / 2) < wrapDeltaFast (- 23000) 24000)
        \<and> wrapDeltaFast (- (24000 / 2)) 24000 = - (24000 / 2)
        \<and> (wrapDeltaFast (- 23000) 24000 = - (24000 / 2) \<longleftrightarrow> (- 23000 :: rat) = - (24000 / 2))"
    using wrapDeltaFast_closed_interval[of 24000 "- 23000"] by simp
  then show ?thesis using v by simp
qed

section \<open>Properties of replication\<close>

lemma replicateP_cases:
  "replicateP cost env i s = s \<or>
   (length (probes s) < HARD_PROBE_CAP \<and> cost \<le> carried (probes s ! i)
    \<and> mstate (master s) = NORMAL
    \<and> replicateP cost env i s =
        s\<lparr>probes := (probes s)[i := (probes s ! i)\<lparr>carried := carried (probes s ! i) - cost\<rparr>] @
            [newChild (probeId s) (wrap01Fast (px (probes s ! i) + off_x env) WORLD_w)
              (wrap01Fast (py (probes s ! i) + off_y env) WORLD_h)
              (mutateDNA env (genes (probes s ! i))) env],
          probeId := probeId s + 1\<rparr>)"
  unfolding replicateP_def Let_def by auto

lemma carried_newChild: "carried (newChild n cx cy d env) = CHILD_START_RES"
  by (simp add: newChild_def)

text \<open>
  Claim C9.  A replication request made when the population is at or above
  \<open>HARD_PROBE_CAP\<close>, or when the master state is not \<open>NORMAL\<close>, leaves the whole
  simulation state as it is; the model of both functions has no failing branch.
\<close>

theorem replication_dropped:
  assumes "length (probes s) \<ge> HARD_PROBE_CAP \<or> mstate (master s) \<noteq> NORMAL"
  shows "tryAutoReplicate dt env i s = s \<and> replicateP cost env i s = s"
  using assms unfolding tryAutoReplicate_def replicateP_def Let_def by auto

theorem replication_dropped_witness:
  "(length (probes (ex_sim\<lparr>master := ex_master\<lparr>mstate := RALLY\<rparr>\<rparr>)) \<ge> HARD_PROBE_CAP
      \<or> mstate (master (ex_sim\<lparr>master := ex_master\<lparr>mstate := RALLY\<rparr>\<rparr>)) \<noteq> NORMAL)
   \<and> tryAutoReplicate (1/50) ex_env 0 (ex_sim\<lparr>master := ex_master\<lparr>mstate := RALLY\<rparr>\<rparr>)
       = ex_sim\<lparr>master := ex_master\<lparr>mstate := RALLY\<rparr>\<rparr>
   \<and> replicateP replicateCost ex_env 0 (ex_sim\<lparr>master := ex_master\<lparr>mstate := RALLY\<rparr>\<rparr>)
       = ex_sim\<lparr>master := ex_master\<lparr>mstate := RALLY\<rparr>\<rparr>"
proof -
  have h: "length (probes (ex_sim\<lparr>master := ex_master\<lparr>mstate := RALLY\<rparr>\<rparr>)) \<ge> HARD_PROBE_CAP
      \<or> mstate (master (ex_sim\<lparr>master := ex_master\<lparr>mstate := RALLY\<rparr>\<rparr>)) \<noteq> NORMAL"
    by simp
  show ?thesis
    using h replication_dropped[OF h, of "1/50" ex_env 0 replicateCost] by simp
qed

lemma replicateP_replicated:
  assumes "i < length (probes s)" and "replicateP replicateCost env i s \<noteq> s"
  shows "replicated i s (replicateP replicateCost env i s)"
proof -
  from replicateP_cases[of replicateCost env i s] assms(2)
  obtain c where c: "replicateCost \<le> carried (probes s ! i)"
    "replicateP replicateCost env i s =
        s\<lparr>probes := (probes s)[i := (probes s ! i)\<lparr>carried := carried (probes s ! i) - replicateCost\<rparr>] @ [c],
          probeId := probeId s + 1\<rparr>" "carried c = CHILD_START_RES"
    using carried_newChild by blast
  show ?thesis unfolding replicated_def c(2) using assms(1) c(1,3)
    by (simp add: nth_append)
qed

lemma tryAutoReplicate_cases:
  "tryAutoReplicate dt env i s = s \<or>
   (replicateCost \<le> carried (probes s ! i) \<and> replicateP replicateCost env i s \<noteq> s \<and>
    tryAutoReplicate dt env i s =
      (replicateP replicateCost env i s)\<lparr>probes :=
         (probes (replicateP replicateCost env i s))
           [i := (probes (replicateP replicateCost env i s) ! i)\<lparr>replCooldown := cooldown env\<rparr>]\<rparr>)"
proof (cases "tryAutoReplicate dt env i s = s")
  case True then show ?thesis by simp
next
  case False
  then have g: "length (probes s) < HARD_PROBE_CAP" "mstate (master s) = NORMAL"
    "replicateCost * (108/100) \<le> carried (probes s ! i)"
    and e: "tryAutoReplicate dt env i s =
      (replicateP replicateCost env i s)\<lparr>probes :=
         (probes (replicateP replicateCost env i s))
           [i := (probes (replicateP replicateCost env i s) ! i)\<lparr>replCooldown := cooldown env\<rparr>]\<rparr>"
    unfolding tryAutoReplicate_def Let_def by (auto split: if_splits)
  have c: "replicateCost \<le> carried (probes s ! i)" using g(3) by (simp add: replicateCost_def)
  have "length (probes (replicateP replicateCost env i s)) \<noteq> length (probes s)"
    using g c unfolding replicateP_def Let_def by auto
  then have "replicateP replicateCost env i s \<noteq> s" by auto
  with c e show ?thesis by blast
qed

text \<open>
  Claim C5.  A probe carrying less than the replication cost never replicates, neither
  through \<open>replicate\<close> nor through \<open>tryAutoReplicate\<close>; whenever one of them changes
  the state, the parent loses exactly the cost and exactly one child is appended, carrying
  \<open>CHILD_START_RES\<close>.
\<close>

theorem replication_cost:
  assumes "i < length (probes s)"
  shows "(carried (probes s ! i) < replicateCost \<longrightarrow>
            replicateP replicateCost env i s = s \<and> tryAutoReplicate dt env i s = s)
       \<and> (replicateP replicateCost env i s \<noteq> s \<longrightarrow>
            replicated i s (replicateP replicateCost env i s))
       \<and> (tryAutoReplicate dt env i s \<noteq> s \<longrightarrow>
            replicated i s (tryAutoReplicate dt env i s))"
proof -
  have a: "carried (probes s ! i) < replicateCost \<Longrightarrow>
            replicateP replicateCost env i s = s \<and> tryAutoReplicate dt env i s = s"
    unfolding tryAutoReplicate_def replicateP_def Let_def replicateCost_def by auto
  have b: "replicateP replicateCost env i s \<noteq> s \<Longrightarrow>
            replicated i s (replicateP replicateCost env i s)"
    using replicateP_replicated[OF assms] by blast
  have c: "replicated i s (tryAutoReplicate dt env i s)" if "tryAutoReplicate dt env i s \<noteq> s"
  proof -
    from tryAutoReplicate_cases[of dt env i s] that
    have n: "replicateP replicateCost env i s \<noteq> s"
      and e: "tryAutoReplicate dt env i s =
      (replicateP replicateCost env i s)\<lparr>probes :=
         (probes (replicateP replicateCost env i s))
           [i := (probes (replicateP replicateCost env i s) ! i)\<lparr>replCooldown := cooldown env\<rparr>]\<rparr>"
      by blast+
    have r: "replicated i s (replicateP replicateCost env i s)" using b n by blast
    define ps where "ps = probes (replicateP replicateCost env i s)"
    have l: "length ps = length (probes s) + 1" using r unfolding replicated_def ps_def by simp
    have "last (ps[i := (ps ! i)\<lparr>replCooldown := cooldown env\<rparr>]) = last ps \<or> i = length ps - 1"
      using l by (metis last_list_update length_0_conv add_is_0 zero_neq_one)
    then have la: "last (ps[i := (ps ! i)\<lparr>replCooldown := cooldown env\<rparr>]) = last ps"
      using l assms by auto
    show ?thesis unfolding e using r l assms la unfolding replicated_def ps_def[symmetric]
      by (auto simp: nth_list_update)
  qed
  show ?thesis using a b c by blast
qed

theorem replication_cost_witness:
  "0 < length (probes ex_sim)
   \<and> \<not> carried (probes ex_sim ! 0) < replicateCost
   \<and> replicateP replicateCost ex_env 0 ex_sim \<noteq> ex_sim
   \<and> tryAutoReplicate (1/50) ex_env 0 ex_sim \<noteq> ex_sim
   \<and> replicated 0 ex_sim (replicateP replicateCost ex_env 0 ex_sim)
   \<and> replicated 0 ex_sim (tryAutoReplicate (1/50) ex_env 0 ex_sim)
   \<and> map carried (probes (tryAutoReplicate (1/50) ex_env 0 ex_sim)) = [50, 12]
   \<and> (carried (probes (ex_sim\<lparr>probes := [ex_probe\<lparr>carried := 99\<rparr>]\<rparr>) ! 0) < replicateCost
      \<and> replicateP replicateCost ex_env 0 (ex_sim\<lparr>probes := [ex_probe\<lparr>carried := 99\<rparr>]\<rparr>)
          = ex_sim\<lparr>probes := [ex_probe\<lparr>carried := 99\<rparr>]\<rparr>)"
proof -
  have h: "0 < length (probes ex_sim)" by (simp add: ex_sim_def)
  have h2: "0 < length (probes (ex_sim\<lparr>probes := [ex_probe\<lparr>carried := 99\<rparr>]\<rparr>))" by simp
  have n1: "replicateP replicateCost ex_env 0 ex_sim \<noteq> ex_sim"
  proof
    assume "replicateP replicateCost ex_env 0 ex_sim = ex_sim"
    then have "length (probes (replicateP replicateCost ex_env 0 ex_sim)) = length (probes ex_sim)" by simp
    then show False
      by (simp add: replicateP_def ex_sim_def ex_probe_def ex_master_def HARD_PROBE_CAP_def replicateCost_def Let_def)
  qed
  have n2: "tryAutoReplicate (1/50) ex_env 0 ex_sim \<noteq> ex_sim"
  proof
    assume "tryAutoReplicate (1/50) ex_env 0 ex_sim = ex_sim"
    then have "length (probes (tryAutoReplicate (1/50) ex_env 0 ex_sim)) = length (probes ex_sim)" by simp
    then show False
      by (simp add: tryAutoReplicate_def replicateP_def ex_sim_def ex_probe_def ex_master_def HARD_PROBE_CAP_def replicateCost_def Let_def)
  qed
  have c: "\<not> carried (probes ex_sim ! 0) < replicateCost"
    by (simp add: ex_sim_def ex_probe_def replicateCost_def)
  have m: "map carried (probes (tryAutoReplicate (1/50) ex_env 0 ex_sim)) = [50, 12]"
    by (simp add: tryAutoReplicate_def replicateP_def ex_sim_def ex_probe_def ex_master_def
        HARD_PROBE_CAP_def replicateCost_def Let_def newChild_def CHILD_START_RES_def)
  have c2: "carried (probes (ex_sim\<lparr>probes := [ex_probe\<lparr>carried := 99\<rparr>]\<rparr>) ! 0) < replicateCost"
    by (simp add: replicateCost_def)
  show ?thesis
    using h c n1 n2 m c2 replication_cost[OF h, of ex_env "1/50"]
      replication_cost[OF h2, of ex_env "1/50"]
    by simp
qed

section \<open>Properties of the K-closest selection\<close>

lemma length_swap: "length (swap arr i j) = length arr"
  by (simp add: swap_def Let_def)

lemma nth_swap:
  "i < length arr \<Longrightarrow> j < length arr \<Longrightarrow>
   swap arr i j ! n = (if n = j then arr ! i else if n = i then arr ! j else arr ! n)"
  by (simp add: swap_def Let_def nth_list_update)

lemma mset_swap_arr:
  "i < length arr \<Longrightarrow> j < length arr \<Longrightarrow> mset (swap arr i j) = mset arr"
  by (simp add: swap_def Let_def mset_swap)

lemma sar1_mid:
  assumes "0 \<le> l" "l < r" "r < 2 ^ 30"
  shows "sar1 (l + r) = (l + r) div 2" "l \<le> sar1 (l + r)" "sar1 (l + r) < r"
proof -
  have "toInt32 (l + r) = l + r"
    unfolding toInt32_def using assms by (simp add: mod_pos_pos_trivial)
  then show "sar1 (l + r) = (l + r) div 2" by (simp add: sar1_def)
  then show "l \<le> sar1 (l + r)" "sar1 (l + r) < r" using assms by linarith+
qed

lemma part_loop_spec:
  assumes "st \<le> i" and "i \<le> right" and "right \<le> length arr"
    and "\<forall>j. st \<le> j \<and> j < i \<longrightarrow> \<not> d2tmp (ps ! (arr ! j)) < pv"
    and "part_loop ps arr pv right st i = (arr', p)"
  shows "part_post ps pv arr st right arr' p"
  using assms
proof (induction ps arr pv right st i arbitrary: arr' p rule: part_loop.induct)
  case (1 ps arr pv right st i)
  note prems = "1.prems"
  show ?case
  proof (cases "i < right")
    case False
    then have e: "arr' = arr" "p = st"
      using prems(5) by (subst (asm) part_loop.simps, simp)+
    have "i = right" using False prems(2) by simp
    then show ?thesis unfolding part_post_def e using prems(1,2,4) by auto
  next
    case lt: True
    show ?thesis
    proof (cases "d2tmp (ps ! (arr ! i)) < pv")
      case True
      define arr1 where "arr1 = swap arr st i"
      have rc: "part_loop ps arr1 pv right (st + 1) (i + 1) = (arr', p)"
        using prems(5) lt True unfolding arr1_def by (subst (asm) part_loop.simps) simp
      have il: "i < length arr" "st < length arr" using lt prems(1,3) by auto
      have n1: "arr1 ! n = (if n = i then arr ! st else if n = st then arr ! i else arr ! n)" for n
        unfolding arr1_def using nth_swap[OF il(2) il(1), of n] by simp
      have l1: "length arr1 = length arr" unfolding arr1_def by (simp add: length_swap)
      have m1: "mset arr1 = mset arr" unfolding arr1_def using il by (simp add: mset_swap_arr)
      have pre: "\<forall>j. st + 1 \<le> j \<and> j < i + 1 \<longrightarrow> \<not> d2tmp (ps ! (arr1 ! j)) < pv"
      proof (intro allI impI)
        fix j assume j: "st + 1 \<le> j \<and> j < i + 1"
        show "\<not> d2tmp (ps ! (arr1 ! j)) < pv"
        proof (cases "j = i")
          case True
          then have "st < i" using j by simp
          then have "\<not> d2tmp (ps ! (arr ! st)) < pv" using prems(4) by simp
          then show ?thesis using True n1 by simp
        next
          case False
          then have "arr1 ! j = arr ! j" using n1 j by simp
          then show ?thesis using prems(4) j False by simp
        qed
      qed
      have ih: "part_post ps pv arr1 (st + 1) right arr' p"
        using "1.IH"(1)[OF lt True, folded arr1_def, of arr' p] prems(1,2,3) lt l1 pre rc
        by simp
      have a: "\<forall>j. j < st \<or> right \<le> j \<longrightarrow> arr' ! j = arr ! j"
      proof (intro allI impI)
        fix j assume j: "j < st \<or> right \<le> j"
        then have "arr' ! j = arr1 ! j" using ih unfolding part_post_def by auto
        moreover have "arr1 ! j = arr ! j" using n1 j lt prems(1) by auto
        ultimately show "arr' ! j = arr ! j" by simp
      qed
      have b: "\<forall>j. st \<le> j \<and> j < p \<longrightarrow> d2tmp (ps ! (arr' ! j)) < pv"
      proof (intro allI impI)
        fix j assume j: "st \<le> j \<and> j < p"
        show "d2tmp (ps ! (arr' ! j)) < pv"
        proof (cases "j = st")
          case True
          then have "arr' ! j = arr1 ! st" using ih unfolding part_post_def by auto
          then have "arr' ! j = arr ! i" using n1 by simp
          then show ?thesis using True \<open>d2tmp (ps ! (arr ! i)) < pv\<close> by simp
        next
          case False
          then show ?thesis using ih j unfolding part_post_def by auto
        qed
      qed
      show ?thesis
        unfolding part_post_def using ih a b l1 m1 unfolding part_post_def by auto
    next
      case False
      have rc: "part_loop ps arr pv right st (i + 1) = (arr', p)"
        using prems(5) lt False by (subst (asm) part_loop.simps) simp
      have pre: "\<forall>j. st \<le> j \<and> j < i + 1 \<longrightarrow> \<not> d2tmp (ps ! (arr ! j)) < pv"
      proof (intro allI impI)
        fix j assume j: "st \<le> j \<and> j < i + 1"
        show "\<not> d2tmp (ps ! (arr ! j)) < pv"
          using prems(4) j False by (cases "j = i") auto
      qed
      show ?thesis
        using "1.IH"(2)[OF lt False, of arr' p] prems(1,2,3) lt pre rc by simp
    qed
  qed
qed

lemma partitionByD2_spec:
  assumes "left \<le> pivotIndex" and "pivotIndex \<le> right" and "right < length arr"
    and "partitionByD2 ps arr left right pivotIndex = (arr', p)"
  shows "partition_post ps arr left right arr' p"
proof -
  define pv where "pv = d2tmp (ps ! (arr ! pivotIndex))"
  define arr1 where "arr1 = swap arr pivotIndex right"
  obtain arr2 q where e: "part_loop ps arr1 pv right left left = (arr2, q)"
    by (cases "part_loop ps arr1 pv right left left") blast
  have r: "arr' = swap arr2 right q" "p = q"
    using assms(4) e unfolding partitionByD2_def Let_def pv_def[symmetric] arr1_def[symmetric]
    by auto
  have pl: "pivotIndex < length arr" using assms by simp
  have l1: "length arr1 = length arr" unfolding arr1_def by (simp add: length_swap)
  have m1: "mset arr1 = mset arr" unfolding arr1_def using pl assms(3) by (simp add: mset_swap_arr)
  have n1: "arr1 ! n = (if n = right then arr ! pivotIndex
                        else if n = pivotIndex then arr ! right else arr ! n)" for n
    unfolding arr1_def using nth_swap[OF pl assms(3), of n] by simp
  have pp: "part_post ps pv arr1 left right arr2 q"
    using part_loop_spec[of left left right arr1 ps pv arr2 q] assms(1,2,3) l1 e by simp
  then have l2: "length arr2 = length arr" and m2: "mset arr2 = mset arr"
    and qb: "left \<le> q" "q \<le> right"
    and o2: "\<And>j. j < left \<or> right \<le> j \<Longrightarrow> arr2 ! j = arr1 ! j"
    and lo: "\<And>j. left \<le> j \<and> j < q \<Longrightarrow> d2tmp (ps ! (arr2 ! j)) < pv"
    and hi: "\<And>j. q \<le> j \<and> j < right \<Longrightarrow> \<not> d2tmp (ps ! (arr2 ! j)) < pv"
    unfolding part_post_def using l1 m1 by auto
  have rl: "right < length arr2" "q < length arr2" using l2 assms(3) qb by auto
  have n3: "arr' ! n = (if n = q then arr2 ! right else if n = right then arr2 ! q else arr2 ! n)" for n
    unfolding r using nth_swap[OF rl, of n] by simp
  have piv: "arr2 ! right = arr ! pivotIndex" using o2[of right] n1 by simp
  have kp: "d2tmp (ps ! (arr' ! q)) = pv" using n3 piv pv_def by simp
  have a: "length arr' = length arr" unfolding r using l2 by (simp add: length_swap)
  have b: "mset arr' = mset arr" unfolding r using rl m2 by (simp add: mset_swap_arr)
  have c: "\<forall>j. j < left \<or> right < j \<longrightarrow> arr' ! j = arr ! j"
  proof (intro allI impI)
    fix j assume j: "j < left \<or> right < j"
    then have "arr' ! j = arr2 ! j" using n3 qb by auto
    also have "\<dots> = arr1 ! j" using o2 j by auto
    also have "\<dots> = arr ! j" using n1 j assms(1,2) by auto
    finally show "arr' ! j = arr ! j" .
  qed
  have d: "\<forall>j. left \<le> j \<and> j < q \<longrightarrow> d2tmp (ps ! (arr' ! j)) < d2tmp (ps ! (arr' ! q))"
  proof (intro allI impI)
    fix j assume j: "left \<le> j \<and> j < q"
    then have "arr' ! j = arr2 ! j" using n3 qb by auto
    then show "d2tmp (ps ! (arr' ! j)) < d2tmp (ps ! (arr' ! q))" using lo[OF j] kp by simp
  qed
  have f: "\<forall>j. q < j \<and> j \<le> right \<longrightarrow> d2tmp (ps ! (arr' ! q)) \<le> d2tmp (ps ! (arr' ! j))"
  proof (intro allI impI)
    fix j assume j: "q < j \<and> j \<le> right"
    show "d2tmp (ps ! (arr' ! q)) \<le> d2tmp (ps ! (arr' ! j))"
    proof (cases "j = right")
      case True
      then have "arr' ! j = arr2 ! q" using n3 j by auto
      moreover have "\<not> d2tmp (ps ! (arr2 ! q)) < pv" using hi[of q] j True by simp
      ultimately show ?thesis using kp by simp
    next
      case False
      then have "arr' ! j = arr2 ! j" using n3 j by auto
      moreover have "\<not> d2tmp (ps ! (arr2 ! j)) < pv" using hi[of j] j False by simp
      ultimately show ?thesis using kp by simp
    qed
  qed
  show ?thesis unfolding partition_post_def using a b c d f qb r(2) by simp
qed

lemma inside_stays_inside:
  assumes len: "length xs = length ys" and ms: "mset xs = mset ys"
    and out: "\<forall>j. j < l \<or> r < j \<longrightarrow> xs ! j = ys ! j"
    and j: "l \<le> j" "j \<le> r" and r: "r < length xs"
  shows "\<exists>m. l \<le> m \<and> m \<le> r \<and> xs ! j = ys ! m"
proof -
  define n where "n = r + 1 - l"
  have nl: "n + l = r + 1" unfolding n_def using j by simp
  have dx: "xs = take l xs @ take n (drop l xs) @ drop (r + 1) xs"
  proof -
    have "drop l xs = take n (drop l xs) @ drop n (drop l xs)"
      by (rule append_take_drop_id[symmetric])
    moreover have "drop n (drop l xs) = drop (r + 1) xs"
      using nl by (simp only: drop_drop)
    ultimately have "drop l xs = take n (drop l xs) @ drop (r + 1) xs" by simp
    then have "take l xs @ drop l xs = take l xs @ take n (drop l xs) @ drop (r + 1) xs"
      by simp
    then show ?thesis by (simp only: append_take_drop_id)
  qed
  have dy: "ys = take l ys @ take n (drop l ys) @ drop (r + 1) ys"
  proof -
    have "drop l ys = take n (drop l ys) @ drop n (drop l ys)"
      by (rule append_take_drop_id[symmetric])
    moreover have "drop n (drop l ys) = drop (r + 1) ys"
      using nl by (simp only: drop_drop)
    ultimately have "drop l ys = take n (drop l ys) @ drop (r + 1) ys" by simp
    then have "take l ys @ drop l ys = take l ys @ take n (drop l ys) @ drop (r + 1) ys"
      by simp
    then show ?thesis by (simp only: append_take_drop_id)
  qed
  have t: "take l xs = take l ys"
    by (rule nth_equalityI) (use len out in auto)
  have d: "drop (r + 1) xs = drop (r + 1) ys"
    by (rule nth_equalityI) (use len out in auto)
  have "mset (take l xs) + mset (take n (drop l xs)) + mset (drop (r + 1) xs)
      = mset (take l ys) + mset (take n (drop l ys)) + mset (drop (r + 1) ys)"
    using ms dx dy by (metis mset_append add.assoc)
  then have "mset (take n (drop l xs)) = mset (take n (drop l ys))"
    using t d by simp
  then have s: "set (take n (drop l xs)) = set (take n (drop l ys))"
    by (rule mset_eq_setD)
  have "j - l < n" "l + (j - l) = j" unfolding n_def using j by auto
  then have "xs ! j = take n (drop l xs) ! (j - l)" "j - l < length (take n (drop l xs))"
    using r j unfolding n_def by auto
  then have "xs ! j \<in> set (take n (drop l xs))" by (metis nth_mem)
  then have "xs ! j \<in> set (take n (drop l ys))" using s by simp
  then obtain q where q: "q < length (take n (drop l ys))" "take n (drop l ys) ! q = xs ! j"
    by (metis in_set_conv_nth)
  then have "q < n" "l + q < length ys" by auto
  then have "ys ! (l + q) = xs ! j" using q by simp
  moreover have "l + q \<le> r" using \<open>q < n\<close> unfolding n_def by simp
  ultimately show ?thesis by (metis le_add1)
qed

lemma partition_split:
  assumes pp: "partition_post ps arr left right arr' p"
    and r: "right < length arr"
    and sl: "split_at ps arr left" and sr: "split_at ps arr (right + 1)"
  shows "split_at ps arr' left \<and> split_at ps arr' (right + 1)
         \<and> split_at ps arr' p \<and> split_at ps arr' (p + 1)"
proof -
  from pp have len: "length arr' = length arr" and ms: "mset arr' = mset arr"
    and pb: "left \<le> p" "p \<le> right"
    and out: "\<forall>j. j < left \<or> right < j \<longrightarrow> arr' ! j = arr ! j"
    and lo: "\<And>j. left \<le> j \<and> j < p \<Longrightarrow> d2tmp (ps ! (arr' ! j)) < d2tmp (ps ! (arr' ! p))"
    and hi: "\<And>j. p < j \<and> j \<le> right \<Longrightarrow> d2tmp (ps ! (arr' ! p)) \<le> d2tmp (ps ! (arr' ! j))"
    unfolding partition_post_def by auto
  have corr: "\<exists>m < length arr. arr' ! j = arr ! m \<and> (m < left \<longleftrightarrow> j < left) \<and> (right < m \<longleftrightarrow> right < j)"
    if "j < length arr" for j
  proof (cases "j < left \<or> right < j")
    case True
    then have "arr' ! j = arr ! j" using out by blast
    then show ?thesis using that by blast
  next
    case False
    then have "left \<le> j" "j \<le> right" by auto
    from inside_stays_inside[OF len ms out this] r len
    obtain m where "left \<le> m" "m \<le> right" "arr' ! j = arr ! m" by auto
    then show ?thesis using False r by (intro exI[of _ m]) auto
  qed
  have a: "split_at ps arr' left"
    unfolding split_at_def
  proof (intro allI impI)
    fix i j assume h: "i < length arr'" "j < length arr'" "i < left \<and> left \<le> j"
    obtain i' where i': "i' < length arr" "arr' ! i = arr ! i'" "i' < left"
      using corr[of i] h len by auto
    obtain j' where j': "j' < length arr" "arr' ! j = arr ! j'" "\<not> j' < left"
      using corr[of j] h len by auto
    show "d2tmp (ps ! (arr' ! i)) \<le> d2tmp (ps ! (arr' ! j))"
      using sl i' j' unfolding split_at_def by auto
  qed
  have b: "split_at ps arr' (right + 1)"
    unfolding split_at_def
  proof (intro allI impI)
    fix i j assume h: "i < length arr'" "j < length arr'" "i < right + 1 \<and> right + 1 \<le> j"
    obtain i' where i': "i' < length arr" "arr' ! i = arr ! i'" "\<not> right < i'"
      using corr[of i] h len by auto
    obtain j' where j': "j' < length arr" "arr' ! j = arr ! j'" "right < j'"
      using corr[of j] h len by auto
    show "d2tmp (ps ! (arr' ! i)) \<le> d2tmp (ps ! (arr' ! j))"
      using sr i' j' unfolding split_at_def by auto
  qed
  have mid: "d2tmp (ps ! (arr' ! i)) \<le> d2tmp (ps ! (arr' ! j))"
    if "i < length arr'" "j < length arr'" "i \<le> p" "p \<le> j" for i j
  proof (cases "i < left")
    case True
    then show ?thesis using a that pb unfolding split_at_def by auto
  next
    case il: False
    show ?thesis
    proof (cases "right < j")
      case True
      then show ?thesis using b that pb unfolding split_at_def by auto
    next
      case False
      have "d2tmp (ps ! (arr' ! i)) \<le> d2tmp (ps ! (arr' ! p))"
        using lo[of i] il that by (cases "i = p") auto
      moreover have "d2tmp (ps ! (arr' ! p)) \<le> d2tmp (ps ! (arr' ! j))"
        using hi[of j] False that by (cases "j = p") auto
      ultimately show ?thesis by simp
    qed
  qed
  have c: "split_at ps arr' p" unfolding split_at_def using mid by auto
  have d: "split_at ps arr' (p + 1)" unfolding split_at_def using mid by auto
  show ?thesis using a b c d by simp
qed

lemma partitionByD2_obtain:
  assumes "0 \<le> left" "left < right" "right < int (length arr)" "length arr < 2 ^ 30"
  obtains arr1 p where
    "partitionByD2 ps arr (nat left) (nat right) (nat (sar1 (left + right))) = (arr1, p)"
    "partition_post ps arr (nat left) (nat right) arr1 p"
    "in_range arr left" "in_range arr right" "in_range arr (sar1 (left + right))"
proof -
  have r30: "right < 2 ^ 30" using assms(3,4) by simp
  note m = sar1_mid[OF assms(1,2) r30]
  obtain arr1 p where
    e: "partitionByD2 ps arr (nat left) (nat right) (nat (sar1 (left + right))) = (arr1, p)"
    by (cases "partitionByD2 ps arr (nat left) (nat right) (nat (sar1 (left + right)))") blast
  have "nat left \<le> nat (sar1 (left + right))" "nat (sar1 (left + right)) \<le> nat right"
    "nat right < length arr"
    using m(2,3) assms by auto
  from partitionByD2_spec[OF this e]
  have pp: "partition_post ps arr (nat left) (nat right) arr1 p" .
  have "in_range arr left" "in_range arr right" "in_range arr (sar1 (left + right))"
    unfolding in_range_def using assms m(2,3) by auto
  with e pp show ?thesis using that by blast
qed

lemma select_loop_returns:
  assumes "0 \<le> left" and "right < int (length arr)" and "length arr < 2 ^ 30"
  shows "\<exists>arr'. select_loop ps arr k left right = Some arr' \<and> mset arr' = mset arr"
  using assms
proof (induction ps arr k left right rule: select_loop.induct)
  case (1 ps arr k left right)
  note prems = "1.prems"
  show ?case
  proof (cases "right \<le> left")
    case True
    then show ?thesis by (subst select_loop.simps) simp
  next
    case False
    then have lt: "left < right" by simp
    from partitionByD2_obtain[OF prems(1) lt prems(2,3), of ps]
    obtain arr1 p where
      e: "partitionByD2 ps arr (nat left) (nat right) (nat (sar1 (left + right))) = (arr1, p)"
      and pp: "partition_post ps arr (nat left) (nat right) arr1 p"
      and ir: "in_range arr left" "in_range arr right" "in_range arr (sar1 (left + right))"
      by blast
    have g: "\<not> (\<not> in_range arr left \<or> \<not> in_range arr right
               \<or> \<not> in_range arr (sar1 (left + right)))"
      using ir by simp
    from pp have len: "length arr1 = length arr" and ms: "mset arr1 = mset arr"
      and pb: "nat left \<le> p" "p \<le> nat right"
      unfolding partition_post_def by auto
    have unf: "select_loop ps arr k left right =
        (if k - 1 = int p then Some arr1
         else if k - 1 < int p then select_loop ps arr1 k left (int p - 1)
         else select_loop ps arr1 k (int p + 1) right)"
      using False g e by (subst select_loop.simps) simp
    show ?thesis
    proof (cases "k - 1 = int p")
      case True
      then show ?thesis using unf ms by simp
    next
      case ne: False
      show ?thesis
      proof (cases "k - 1 < int p")
        case True
        have "int p - 1 < int (length arr1)" using pb prems(2) len by linarith
        from "1.IH"(1)[OF False g refl e[symmetric] ne True prems(1) this] len prems(3)
        obtain arr' where "select_loop ps arr1 k left (int p - 1) = Some arr'"
          "mset arr' = mset arr1" by auto
        then show ?thesis using unf ne True ms by simp
      next
        case gt: False
        have "0 \<le> int p + 1" by simp
        from "1.IH"(2)[OF False g refl e[symmetric] ne gt this] len prems(2,3)
        obtain arr' where "select_loop ps arr1 k (int p + 1) right = Some arr'"
          "mset arr' = mset arr1" by auto
        then show ?thesis using unf ne gt ms by simp
      qed
    qed
  qed
qed

lemma select_loop_spec:
  assumes "0 \<le> left" and "right < int (length arr)" and "length arr < 2 ^ 30"
    and "left \<le> k - 1" and "k - 1 \<le> right"
    and "split_at ps arr (nat left)" and "split_at ps arr (nat (right + 1))"
  shows "\<exists>arr'. select_loop ps arr k left right = Some arr' \<and> mset arr' = mset arr
           \<and> split_at ps arr' (nat k)"
  using assms
proof (induction ps arr k left right rule: select_loop.induct)
  case (1 ps arr k left right)
  note prems = "1.prems"
  show ?case
  proof (cases "right \<le> left")
    case True
    then have "k = right + 1" using prems(4,5) by simp
    then show ?thesis using True prems(7) by (subst select_loop.simps) simp
  next
    case False
    then have lt: "left < right" by simp
    from partitionByD2_obtain[OF prems(1) lt prems(2,3), of ps]
    obtain arr1 p where
      e: "partitionByD2 ps arr (nat left) (nat right) (nat (sar1 (left + right))) = (arr1, p)"
      and pp: "partition_post ps arr (nat left) (nat right) arr1 p"
      and ir: "in_range arr left" "in_range arr right" "in_range arr (sar1 (left + right))"
      by blast
    have g: "\<not> (\<not> in_range arr left \<or> \<not> in_range arr right
               \<or> \<not> in_range arr (sar1 (left + right)))"
      using ir by simp
    from pp have len: "length arr1 = length arr" and ms: "mset arr1 = mset arr"
      and pb: "nat left \<le> p" "p \<le> nat right"
      unfolding partition_post_def by auto
    have rl: "nat right < length arr" using prems(1,2) lt by simp
    have sr: "split_at ps arr (nat right + 1)"
      using prems(7) prems(1) lt by (simp add: nat_add_distrib)
    from partition_split[OF pp rl prems(6) sr]
    have s: "split_at ps arr1 (nat left)" "split_at ps arr1 (nat right + 1)"
      "split_at ps arr1 p" "split_at ps arr1 (p + 1)" by auto
    have unf: "select_loop ps arr k left right =
        (if k - 1 = int p then Some arr1
         else if k - 1 < int p then select_loop ps arr1 k left (int p - 1)
         else select_loop ps arr1 k (int p + 1) right)"
      using False g e by (subst select_loop.simps) simp
    show ?thesis
    proof (cases "k - 1 = int p")
      case True
      then have "nat k = p + 1" by linarith
      then show ?thesis using unf ms s(4) True by simp
    next
      case ne: False
      show ?thesis
      proof (cases "k - 1 < int p")
        case True
        have a: "int p - 1 < int (length arr1)" using pb prems(2) len by linarith
        have b: "length arr1 < 2 ^ 30" using len prems(3) by simp
        have c: "k - 1 \<le> int p - 1" using True by simp
        have d: "split_at ps arr1 (nat (int p - 1 + 1))" using s(3) by simp
        from "1.IH"(1)[OF False g refl e[symmetric] ne True prems(1) a b prems(4) c s(1) d]
        obtain arr' where "select_loop ps arr1 k left (int p - 1) = Some arr'"
          "mset arr' = mset arr1" "split_at ps arr' (nat k)" by auto
        then show ?thesis using unf ne True ms by simp
      next
        case gt: False
        have a: "0 \<le> int p + 1" by simp
        have a2: "right < int (length arr1)" using len prems(2) by simp
        have b: "length arr1 < 2 ^ 30" using len prems(3) by simp
        have c: "int p + 1 \<le> k - 1" using gt ne by simp
        have d: "split_at ps arr1 (nat (int p + 1))" using s(4) by (simp add: nat_add_distrib)
        have d2: "split_at ps arr1 (nat (right + 1))"
          using s(2) prems(1) lt by (simp add: nat_add_distrib)
        from "1.IH"(2)[OF False g refl e[symmetric] ne gt a a2 b c prems(5) d d2]
        obtain arr' where "select_loop ps arr1 k (int p + 1) right = Some arr'"
          "mset arr' = mset arr1" "split_at ps arr' (nat k)" by auto
        then show ?thesis using unf ne gt ms by simp
      qed
    qed
  qed
qed

lemma dist2_d2tmp [simp]: "dist2 (p\<lparr>d2tmp := v\<rparr>) wp = dist2 p wp"
  by (simp add: dist2_def)

lemma length_annotate [simp]: "length (annotate ps arr wp) = length ps"
  unfolding annotate_def by (induction arr arbitrary: ps) auto

lemma annotate_nth:
  "r < length ps \<Longrightarrow>
   annotate ps arr wp ! r =
     (if r \<in> set arr then (ps ! r)\<lparr>d2tmp := dist2 (ps ! r) wp\<rparr> else ps ! r)"
proof (induction arr arbitrary: ps)
  case Nil
  then show ?case by (simp add: annotate_def)
next
  case (Cons x xs)
  define ps1 where "ps1 = ps[x := (ps ! x)\<lparr>d2tmp := dist2 (ps ! x) wp\<rparr>]"
  have e: "annotate ps (x # xs) wp = annotate ps1 xs wp"
    unfolding annotate_def ps1_def by simp
  have l: "r < length ps1" using Cons.prems by (simp add: ps1_def)
  have n: "ps1 ! r = (if r = x then (ps ! r)\<lparr>d2tmp := dist2 (ps ! r) wp\<rparr> else ps ! r)"
    unfolding ps1_def using Cons.prems by (simp add: nth_list_update)
  show ?case unfolding e Cons.IH[OF l] n by auto
qed

lemma split_sorted_take:
  fixes xs :: "rat list"
  assumes "\<forall>a \<in> set (take n xs). \<forall>b \<in> set (drop n xs). a \<le> b"
  shows "mset (take n xs) = mset (take n (sort xs))"
proof -
  have "sort (take n xs @ drop n xs) = sort (take n xs) @ sort (drop n xs)"
    by (rule sort_append) (use assms in blast)
  then have "sort xs = sort (take n xs) @ sort (drop n xs)" by simp
  then have "take n (sort xs)
      = sort (take n xs) @ take (n - length (take n xs)) (sort (drop n xs))"
    by simp
  moreover have "mset (sort (take n xs) @ take (n - length (take n xs)) (sort (drop n xs)))
      = mset (take n xs)"
    by (cases "n \<le> length xs") (auto simp: min_def)
  ultimately show ?thesis by simp
qed

lemma split_at_take_drop:
  assumes "split_at ps arr n"
  shows "\<forall>a \<in> set (take n arr). \<forall>b \<in> set (drop n arr). d2tmp (ps ! a) \<le> d2tmp (ps ! b)"
proof (intro ballI)
  fix a b assume a: "a \<in> set (take n arr)" and b: "b \<in> set (drop n arr)"
  from a obtain i where i: "i < length (take n arr)" "take n arr ! i = a"
    by (metis in_set_conv_nth)
  from b obtain j where j: "j < length (drop n arr)" "drop n arr ! j = b"
    by (metis in_set_conv_nth)
  have "i < n" "i < length arr" "arr ! i = a" using i by auto
  moreover have "n + j < length arr" "arr ! (n + j) = b" using j by auto
  ultimately show "d2tmp (ps ! a) \<le> d2tmp (ps ! b)"
    using assms unfolding split_at_def by (metis le_add1)
qed

lemma image_mset_inj_on_eq:
  assumes "inj_on f S" and "set_mset A \<subseteq> S" and "set_mset B \<subseteq> S"
    and "image_mset f A = image_mset f B"
  shows "A = B"
proof -
  have "image_mset (the_inv_into S f) (image_mset f A) = A"
    unfolding multiset.map_comp
    by (rule trans[OF image_mset_cong[of A _ id]])
      (use assms(1,2) in \<open>auto simp: the_inv_into_f_f\<close>)
  moreover have "image_mset (the_inv_into S f) (image_mset f B) = B"
    unfolding multiset.map_comp
    by (rule trans[OF image_mset_cong[of B _ id]])
      (use assms(1,3) in \<open>auto simp: the_inv_into_f_f\<close>)
  ultimately show ?thesis using assms(4) by metis
qed

text \<open>
  Claim C2.  For an array of \<open>N\<close> probes and \<open>0 \<le> K \<le> N\<close>, the selection returns a
  permutation of the array whose first \<open>K\<close> entries are \<open>K\<close> probes of smallest wrapped
  squared distance: none of them is farther than any of the others, and their distances
  are, as a multiset, the first \<open>K\<close> distances of the fully sorted list.  When the
  distances are pairwise distinct the first \<open>K\<close> probes are, as a multiset, the first \<open>K\<close>
  of the array sorted by distance.
\<close>

theorem selectKClosest_correct:
  assumes "length arr < 2 ^ 30" and "0 \<le> k" and "k \<le> int (length arr)"
    and "\<forall>r \<in> set arr. r < length ps"
  shows "\<exists>ps' arr'. selectKClosestInPlace ps arr k wp = Some (ps', arr')
     \<and> mset arr' = mset arr
     \<and> (\<forall>a \<in> set (take (nat k) arr'). \<forall>b \<in> set (drop (nat k) arr').
           dist2 (ps ! a) wp \<le> dist2 (ps ! b) wp)
     \<and> mset (map (\<lambda>r. dist2 (ps ! r) wp) (take (nat k) arr'))
         = mset (take (nat k) (sort (map (\<lambda>r. dist2 (ps ! r) wp) arr)))
     \<and> (inj_on (\<lambda>r. dist2 (ps ! r) wp) (set arr) \<longrightarrow>
           mset (take (nat k) arr')
             = mset (take (nat k) (sort_key (\<lambda>r. dist2 (ps ! r) wp) arr)))"
proof -
  define ps' where "ps' = annotate ps arr wp"
  define d where "d = (\<lambda>r. dist2 (ps ! r) wp)"
  have key: "d2tmp (ps' ! r) = d r" if "r \<in> set arr" for r
    unfolding ps'_def d_def using annotate_nth[of r ps arr wp] assms(4) that by simp
  have "\<exists>arr'. select_loop ps' arr k 0 (int (length arr) - 1) = Some arr'
          \<and> mset arr' = mset arr \<and> split_at ps' arr' (nat k)"
  proof (cases "k = 0")
    case True
    from select_loop_returns[of 0 "int (length arr) - 1" arr ps' k] assms(1)
    obtain arr' where "select_loop ps' arr k 0 (int (length arr) - 1) = Some arr'"
      "mset arr' = mset arr" by auto
    moreover have "split_at ps' arr' (nat k)" using True by (simp add: split_at_def)
    ultimately show ?thesis by blast
  next
    case False
    have a: "split_at ps' arr (nat 0)" by (simp add: split_at_def)
    have b: "split_at ps' arr (nat (int (length arr) - 1 + 1))" by (simp add: split_at_def)
    show ?thesis
      by (rule select_loop_spec[OF _ _ assms(1) _ _ a b]) (use assms(2,3) False in auto)
  qed
  then obtain arr' where sl: "select_loop ps' arr k 0 (int (length arr) - 1) = Some arr'"
    and ms: "mset arr' = mset arr" and sp: "split_at ps' arr' (nat k)" by blast
  have res: "selectKClosestInPlace ps arr k wp = Some (ps', arr')"
    unfolding selectKClosestInPlace_def Let_def ps'_def[symmetric] using sl by simp
  have se: "set arr' = set arr" using ms by (rule mset_eq_setD)
  have sub: "set (take (nat k) arr') \<subseteq> set arr" "set (drop (nat k) arr') \<subseteq> set arr"
    using se set_take_subset[of "nat k" arr'] set_drop_subset[of "nat k" arr'] by auto
  have le: "\<forall>a \<in> set (take (nat k) arr'). \<forall>b \<in> set (drop (nat k) arr'). d a \<le> d b"
    using split_at_take_drop[OF sp] key sub by (metis subsetD)
  have "\<forall>a \<in> set (take (nat k) (map d arr')). \<forall>b \<in> set (drop (nat k) (map d arr')). a \<le> b"
    using le by (auto simp: take_map drop_map)
  from split_sorted_take[OF this]
  have "mset (take (nat k) (map d arr')) = mset (take (nat k) (sort (map d arr')))" .
  moreover have "sort (map d arr') = sort (map d arr)"
  proof (rule properties_for_sort)
    have "image_mset d (mset arr) = image_mset d (mset arr')" using ms by simp
    then show "mset (sort (map d arr)) = mset (map d arr')" by simp
    show "sorted (sort (map d arr))" by simp
  qed
  ultimately have tk: "mset (map d (take (nat k) arr')) = mset (take (nat k) (sort (map d arr)))"
    by (simp add: take_map)
  have inj: "mset (take (nat k) arr') = mset (take (nat k) (sort_key d arr))"
    if "inj_on d (set arr)"
  proof -
    have "sort (map d arr) = map d (sort_key d arr)"
      by (rule properties_for_sort) (auto simp: sorted_sort_key)
    then have "take (nat k) (sort (map d arr)) = map d (take (nat k) (sort_key d arr))"
      by (simp only: take_map)
    then have "mset (map d (take (nat k) (sort_key d arr)))
        = mset (take (nat k) (sort (map d arr)))"
      by simp
    then have "image_mset d (mset (take (nat k) arr'))
        = image_mset d (mset (take (nat k) (sort_key d arr)))"
      using tk by simp
    moreover have "set (take (nat k) (sort_key d arr)) \<subseteq> set arr"
      using set_take_subset[of "nat k" "sort_key d arr"] by auto
    ultimately show ?thesis
      using image_mset_inj_on_eq[OF that, of "mset (take (nat k) arr')"
          "mset (take (nat k) (sort_key d arr))"] sub(1) by simp
  qed
  show ?thesis using res ms le tk inj unfolding d_def by blast
qed

theorem selectKClosest_correct_witness:
  "length ex_arr < 2 ^ 30 \<and> (0::int) \<le> 3 \<and> 3 \<le> int (length ex_arr)
   \<and> list_all (\<lambda>r. r < length ex_probes) ex_arr
   \<and> inj_on (\<lambda>r. dist2 (ex_probes ! r) (0, 0)) (set ex_arr)
   \<and> map_option snd (selectKClosestInPlace ex_probes ex_arr 3 (0, 0)) = Some [3, 5, 1, 0, 4, 6, 2]
   \<and> take 3 (sort_key (\<lambda>r. dist2 (ex_probes ! r) (0, 0)) ex_arr) = [3, 5, 1]
   \<and> (\<exists>ps' arr'. selectKClosestInPlace ex_probes ex_arr 3 (0, 0) = Some (ps', arr')
        \<and> mset arr' = mset ex_arr
        \<and> (\<forall>a \<in> set (take (nat 3) arr'). \<forall>b \<in> set (drop (nat 3) arr').
              dist2 (ex_probes ! a) (0, 0) \<le> dist2 (ex_probes ! b) (0, 0))
        \<and> mset (map (\<lambda>r. dist2 (ex_probes ! r) (0, 0)) (take (nat 3) arr'))
            = mset (take (nat 3) (sort (map (\<lambda>r. dist2 (ex_probes ! r) (0, 0)) ex_arr)))
        \<and> mset (take (nat 3) arr')
            = mset (take (nat 3) (sort_key (\<lambda>r. dist2 (ex_probes ! r) (0, 0)) ex_arr)))"
proof -
  have h1: "length ex_arr < 2 ^ 30" by (simp add: ex_arr_def)
  have h2: "(0::int) \<le> 3" by simp
  have h3: "3 \<le> int (length ex_arr)" by (simp add: ex_arr_def)
  have h4: "\<forall>r \<in> set ex_arr. r < length ex_probes" by (simp add: ex_arr_def ex_probes_def)
  have "distinct (map (\<lambda>r. dist2 (ex_probes ! r) (0, 0)) ex_arr)" by code_simp
  then have h5: "inj_on (\<lambda>r. dist2 (ex_probes ! r) (0, 0)) (set ex_arr)"
    by (simp add: distinct_map)
  have v: "map_option snd (selectKClosestInPlace ex_probes ex_arr 3 (0, 0)) = Some [3, 5, 1, 0, 4, 6, 2]"
    by code_simp
  have w: "take 3 (sort_key (\<lambda>r. dist2 (ex_probes ! r) (0, 0)) ex_arr) = [3, 5, 1]"
    by code_simp
  have h4': "list_all (\<lambda>r. r < length ex_probes) ex_arr"
    using h4 by (simp add: list_all_iff)
  show ?thesis
    using h1 h2 h3 h4' h5 v w selectKClosest_correct[OF h1 h2 h3 h4, of "(0, 0)"] by blast
qed

text \<open>
  Claim C10.  \<open>partitionByD2\<close> returns an index inside \<open>[left, right]\<close>, so both ranges
  the loop may continue with, \<open>[left, p - 1]\<close> and \<open>[p + 1, right]\<close>, are strictly shorter
  than \<open>[left, right]\<close>: this is the measure that makes \<open>select_loop\<close> a total function.
  On every array (of fewer than \<open>2^30\<close> entries, where \<open>>> 1\<close> halves) the selection
  returns normally, for every \<open>k\<close>.
\<close>

theorem selectKClosest_terminates:
  "(left \<le> right \<longrightarrow>
      left \<le> snd (partitionByD2 ps arr left right pivotIndex)
      \<and> snd (partitionByD2 ps arr left right pivotIndex) \<le> right
      \<and> snd (partitionByD2 ps arr left right pivotIndex) - 1 - left < right + 1 - left
      \<and> right - (snd (partitionByD2 ps arr left right pivotIndex) + 1) < right + 1 - left)
   \<and> (length arr < 2 ^ 30 \<longrightarrow> (\<exists>res. selectKClosestInPlace ps arr k wp = Some res))"
proof -
  have a: "left \<le> snd (partitionByD2 ps arr left right pivotIndex)
      \<and> snd (partitionByD2 ps arr left right pivotIndex) \<le> right
      \<and> snd (partitionByD2 ps arr left right pivotIndex) - 1 - left < right + 1 - left
      \<and> right - (snd (partitionByD2 ps arr left right pivotIndex) + 1) < right + 1 - left"
    if "left \<le> right"
    using partitionByD2_index[OF that, of ps arr pivotIndex] by linarith
  have b: "\<exists>res. selectKClosestInPlace ps arr k wp = Some res" if "length arr < 2 ^ 30"
  proof -
    from select_loop_returns[of 0 "int (length arr) - 1" arr "annotate ps arr wp" k] that
    obtain arr' where "select_loop (annotate ps arr wp) arr k 0 (int (length arr) - 1) = Some arr'"
      by auto
    then show ?thesis by (simp add: selectKClosestInPlace_def Let_def)
  qed
  show ?thesis using a b by blast
qed

theorem selectKClosest_terminates_witness:
  "(0::nat) \<le> 6 \<and> length ex_arr < 2 ^ 30
   \<and> snd (partitionByD2 (annotate ex_probes ex_arr (0, 0)) ex_arr 0 6 3) = 0
   \<and> (\<exists>res. selectKClosestInPlace ex_probes ex_arr 3 (0, 0) = Some res)"
proof -
  have h1: "length ex_arr < 2 ^ 30" by (simp add: ex_arr_def)
  have v: "snd (partitionByD2 (annotate ex_probes ex_arr (0, 0)) ex_arr 0 6 3) = 0"
    by code_simp
  show ?thesis
    using h1 v selectKClosest_terminates[where left = 0 and right = 6
        and ps = ex_probes and arr = ex_arr and pivotIndex = 3 and k = 3 and wp = "(0, 0)"]
    by simp
qed

section \<open>Properties of the spatial grid and the resource pool\<close>

lemma trunc_cell_bounds:
  assumes "0 \<le> x" "x < 24000"
  shows "0 \<le> trunc (x / RES_CELL)" "trunc (x / RES_CELL) < 35"
proof -
  have q: "0 \<le> x / RES_CELL" "x / RES_CELL < 35"
    using assms by (auto simp: RES_CELL_def)
  show "0 \<le> trunc (x / RES_CELL)" using q(1) by (simp add: trunc_def)
  have "\<lfloor>x / RES_CELL\<rfloor> < 35" using q(2) by (simp add: floor_less_iff)
  then show "trunc (x / RES_CELL) < 35" using q(1) by (simp add: trunc_def)
qed

lemma toInt32_small: "0 \<le> n \<Longrightarrow> n < 35 \<Longrightarrow> toInt32 n = n"
  unfolding toInt32_def by (simp add: mod_pos_pos_trivial)

lemma cellIndexForPos_range:
  assumes "0 < resGridW s" "0 < resGridH s" "0 \<le> x" "x < WORLD_w" "0 \<le> y" "y < WORLD_h"
  shows "0 \<le> cellIndexForPos s x y \<and> cellIndexForPos s x y < resGridW s * resGridH s"
proof -
  define cx0 where "cx0 = toInt32 (trunc (x / RES_CELL))"
  define cy0 where "cy0 = toInt32 (trunc (y / RES_CELL))"
  define cx where "cx = (if cx0 \<ge> resGridW s then resGridW s - 1 else cx0)"
  define cy where "cy = (if cy0 \<ge> resGridH s then resGridH s - 1 else cy0)"
  have e: "cellIndexForPos s x y = cx + cy * resGridW s"
    unfolding cellIndexForPos_def Let_def cx_def cy_def cx0_def cy0_def by simp
  have "0 \<le> cx0" "0 \<le> cy0"
    unfolding cx0_def cy0_def
    using trunc_cell_bounds[of x] trunc_cell_bounds[of y] assms toInt32_small
    by (auto simp: WORLD_w_def WORLD_h_def)
  then have b: "0 \<le> cx" "cx < resGridW s" "0 \<le> cy" "cy \<le> resGridH s - 1"
    unfolding cx_def cy_def using assms(1,2) by auto
  have "cy * resGridW s \<le> (resGridH s - 1) * resGridW s"
    using b(4) assms(1) by (simp add: mult_right_mono)
  then have "cx + cy * resGridW s < resGridW s * resGridH s"
    using b(2) by (simp add: algebra_simps)
  moreover have "0 \<le> cx + cy * resGridW s" using b assms(1) by simp
  ultimately show ?thesis unfolding e by simp
qed

lemma cellIndexForPos_frame:
  "resGridW s' = resGridW s \<Longrightarrow> resGridH s' = resGridH s \<Longrightarrow>
   cellIndexForPos s' x y = cellIndexForPos s x y"
  by (simp add: cellIndexForPos_def Let_def)

lemma gridAddResource_consistent:
  assumes gc: "grid_consistent s" and il: "idx < length (resources s)"
    and ng: "gridCell (resources s ! idx) < 0" and iw: "in_world (resources s ! idx)"
  shows "\<exists>s'. gridAddResource idx s = Some s' \<and> grid_consistent s'
           \<and> resourceActive s' = resourceActive s
           \<and> length (resources s') = length (resources s)
           \<and> (\<forall>j < length (resources s). j \<noteq> idx \<longrightarrow> resources s' ! j = resources s ! j)
           \<and> 0 \<le> gridCell (resources s' ! idx)
           \<and> active (resources s' ! idx) = active (resources s ! idx)
           \<and> activeIndex (resources s' ! idx) = activeIndex (resources s ! idx)"
proof -
  define res where "res = resources s"
  define grid where "grid = resGrid s"
  define r where "r = res ! idx"
  define ci where "ci = cellIndexForPos s (rx r) (ry r)"
  define c where "c = nat ci"
  define cell where "cell = grid ! c"
  define r' where "r' = r\<lparr>gridCell := ci, gridIndex := int (length cell)\<rparr>"
  define res' where "res' = res[idx := r']"
  define grid' where "grid' = grid[c := cell @ [idx]]"
  define s' where "s' = s\<lparr>resources := res', resGrid := grid'\<rparr>"
  from gc have dims: "0 < resGridW s" "0 < resGridH s"
    "int (length grid) = resGridW s * resGridH s"
    and slots: "\<And>a g. a < length grid \<Longrightarrow> g < length (grid ! a) \<Longrightarrow>
        grid ! a ! g < length res \<and> gridCell (res ! (grid ! a ! g)) = int a
        \<and> gridIndex (res ! (grid ! a ! g)) = int g"
    and refs: "\<And>j. j < length res \<Longrightarrow> 0 \<le> gridCell (res ! j) \<Longrightarrow>
        cellIndexForPos s (rx (res ! j)) (ry (res ! j)) = gridCell (res ! j)
        \<and> gridCell (res ! j) < int (length grid)
        \<and> 0 \<le> gridIndex (res ! j)
        \<and> gridIndex (res ! j) < int (length (grid ! nat (gridCell (res ! j))))
        \<and> grid ! nat (gridCell (res ! j)) ! nat (gridIndex (res ! j)) = j"
    unfolding grid_consistent_def res_def grid_def by auto
  have cr: "0 \<le> ci" "ci < int (length grid)"
    using cellIndexForPos_range[OF dims(1,2), of "rx r" "ry r"] iw dims(3)
    unfolding ci_def r_def res_def in_world_def by auto
  then have cl: "c < length grid" "int c = ci" unfolding c_def by auto
  have e: "gridAddResource idx s = Some s'"
    unfolding gridAddResource_def Let_def s'_def res'_def grid'_def r'_def cell_def c_def
      ci_def r_def res_def grid_def
    using il cr unfolding ci_def r_def res_def grid_def by simp
  have sel: "resources s' = res'" "resGrid s' = grid'" "resGridW s' = resGridW s"
    "resGridH s' = resGridH s" "resourceActive s' = resourceActive s"
    unfolding s'_def by simp_all
  have il': "idx < length res" using il res_def by simp
  have len: "length res' = length res" "length grid' = length grid"
    unfolding res'_def grid'_def by simp_all
  have n_idx: "res' ! idx = r'" unfolding res'_def using il' by simp
  have n_other: "res' ! j = res ! j" if "j \<noteq> idx" for j
    unfolding res'_def using that by simp
  have g_c: "grid' ! c = cell @ [idx]" unfolding grid'_def using cl by simp
  have g_other: "grid' ! a = grid ! a" if "a \<noteq> c" for a
    unfolding grid'_def using that by simp
  have keep: "g < length (grid' ! a) \<and> grid' ! a ! g = grid ! a ! g"
    if "a < length grid" "g < length (grid ! a)" for a g
  proof (cases "a = c")
    case True
    then show ?thesis using that g_c unfolding cell_def by (simp add: nth_append)
  next
    case False
    then show ?thesis using that g_other[of a] by simp
  qed
  have old_ne: "grid ! a ! g \<noteq> idx" if "a < length grid" "g < length (grid ! a)" for a g
    using slots[OF that] ng unfolding res_def by auto
  have cf: "cellIndexForPos s' x y = cellIndexForPos s x y" for x y
    by (rule cellIndexForPos_frame) (simp_all add: sel)
  have A: "grid' ! a ! g < length res' \<and> gridCell (res' ! (grid' ! a ! g)) = int a
        \<and> gridIndex (res' ! (grid' ! a ! g)) = int g"
    if ag: "a < length grid'" "g < length (grid' ! a)" for a g
  proof (cases "a = c \<and> g = length cell")
    case True
    then have "grid' ! a ! g = idx" using g_c by simp
    then show ?thesis using True n_idx il' len cl unfolding r'_def by simp
  next
    case False
    have al: "a < length grid" using ag len by simp
    have "g < length (grid ! a) \<and> grid' ! a ! g = grid ! a ! g"
    proof (cases "a = c")
      case True
      then have "g < length cell" using ag(2) False g_c by simp
      then show ?thesis
        using True g_c unfolding cell_def by (simp add: nth_append)
    next
      case False
      then show ?thesis
        using ag(2) g_other[of a] by simp
    qed
    with al have old: "a < length grid" "g < length (grid ! a)" "grid' ! a ! g = grid ! a ! g"
      by simp_all
    show ?thesis
      using slots[OF old(1,2)] old_ne[OF old(1,2)] n_other[of "grid ! a ! g"] old(3) len
      by simp
  qed
  have B: "cellIndexForPos s' (rx (res' ! j)) (ry (res' ! j)) = gridCell (res' ! j)
        \<and> gridCell (res' ! j) < int (length grid')
        \<and> 0 \<le> gridIndex (res' ! j)
        \<and> gridIndex (res' ! j) < int (length (grid' ! nat (gridCell (res' ! j))))
        \<and> grid' ! nat (gridCell (res' ! j)) ! nat (gridIndex (res' ! j)) = j"
    if j: "j < length res'" "0 \<le> gridCell (res' ! j)" for j
  proof (cases "j = idx")
    case True
    have f: "gridCell r' = ci" "gridIndex r' = int (length cell)" "rx r' = rx r" "ry r' = ry r"
      unfolding r'_def by simp_all
    have "nat ci = c" using cl by simp
    then show ?thesis
      unfolding True n_idx cf f using cr len g_c by (simp add: ci_def)
  next
    case False
    have jl: "j < length res" "0 \<le> gridCell (res ! j)"
      using j len n_other[OF False] by auto
    note rj = refs[OF jl]
    define a where "a = nat (gridCell (res ! j))"
    define g where "g = nat (gridIndex (res ! j))"
    have ag: "a < length grid" "g < length (grid ! a)" "grid ! a ! g = j"
      using rj jl unfolding a_def g_def by auto
    have "g < length (grid' ! a)" "grid' ! a ! g = j"
      using keep[OF ag(1,2)] ag(3) by simp_all
    then show ?thesis
      unfolding n_other[OF False] cf using rj len a_def g_def by simp
  qed
  have "grid_consistent s'"
    unfolding grid_consistent_def sel using dims len A B by simp
  moreover have "\<forall>j < length (resources s). j \<noteq> idx \<longrightarrow> resources s' ! j = resources s ! j"
    unfolding sel using n_other res_def by simp
  moreover have "0 \<le> gridCell (resources s' ! idx)"
    "active (resources s' ! idx) = active (resources s ! idx)"
    "activeIndex (resources s' ! idx) = activeIndex (resources s ! idx)"
    unfolding sel n_idx r'_def using cr by (simp_all add: r_def res_def)
  ultimately show ?thesis using e sel len res_def by auto
qed

lemma same_but_grid_refl [simp]: "same_but_grid r r"
  by (simp add: same_but_grid_def)

lemma same_but_grid_upd [simp]: "same_but_grid r (r\<lparr>gridCell := a, gridIndex := b\<rparr>)"
  "same_but_grid r (r\<lparr>gridIndex := b\<rparr>)"
  by (simp_all add: same_but_grid_def)

lemma same_but_grid_fields:
  assumes "same_but_grid r r'"
  shows "active r' = active r" "activeIndex r' = activeIndex r" "rx r' = rx r" "ry r' = ry r"
    "amt r' = amt r" "maxAmt r' = maxAmt r" "radius r' = radius r"
proof -
  have e: "r' = r\<lparr>gridCell := gridCell r', gridIndex := gridIndex r'\<rparr>"
    using assms by (simp add: same_but_grid_def)
  show "active r' = active r" by (subst e) simp
  show "activeIndex r' = activeIndex r" by (subst e) simp
  show "rx r' = rx r" by (subst e) simp
  show "ry r' = ry r" by (subst e) simp
  show "amt r' = amt r" by (subst e) simp
  show "maxAmt r' = maxAmt r" by (subst e) simp
  show "radius r' = radius r" by (subst e) simp
qed

lemma gridRemoveResource_consistent:
  assumes gc: "grid_consistent s" and il: "idx < length (resources s)"
  shows "\<exists>s'. gridRemoveResource idx s = Some s' \<and> grid_consistent s'
           \<and> s' = s\<lparr>resources := resources s', resGrid := resGrid s'\<rparr>
           \<and> length (resources s') = length (resources s)
           \<and> (\<forall>j < length (resources s). same_but_grid (resources s ! j) (resources s' ! j))
           \<and> (\<forall>j < length (resources s). j \<noteq> idx \<longrightarrow>
                 gridCell (resources s' ! j) = gridCell (resources s ! j))
           \<and> gridCell (resources s' ! idx) < 0"
proof -
  define res where "res = resources s"
  define grid where "grid = resGrid s"
  define r where "r = res ! idx"
  from gc have dims: "0 < resGridW s" "0 < resGridH s"
    "int (length grid) = resGridW s * resGridH s"
    and slots: "\<And>a g. a < length grid \<Longrightarrow> g < length (grid ! a) \<Longrightarrow>
        grid ! a ! g < length res \<and> gridCell (res ! (grid ! a ! g)) = int a
        \<and> gridIndex (res ! (grid ! a ! g)) = int g"
    and refs: "\<And>j. j < length res \<Longrightarrow> 0 \<le> gridCell (res ! j) \<Longrightarrow>
        cellIndexForPos s (rx (res ! j)) (ry (res ! j)) = gridCell (res ! j)
        \<and> gridCell (res ! j) < int (length grid)
        \<and> 0 \<le> gridIndex (res ! j)
        \<and> gridIndex (res ! j) < int (length (grid ! nat (gridCell (res ! j))))
        \<and> grid ! nat (gridCell (res ! j)) ! nat (gridIndex (res ! j)) = j"
    unfolding grid_consistent_def res_def grid_def by auto
  have il': "idx < length res" using il res_def by simp
  show ?thesis
  proof (cases "gridCell r < 0")
    case True
    then have "gridRemoveResource idx s = Some s"
      unfolding gridRemoveResource_def Let_def using il r_def res_def by simp
    then show ?thesis using gc True r_def res_def by simp
  next
    case False
    then have nn: "0 \<le> gridCell r" by simp
    note ri = refs[OF il', folded r_def, OF nn]
    define c where "c = nat (gridCell r)"
    define g where "g = nat (gridIndex r)"
    define cell where "cell = grid ! c"
    define last where "last = length cell - 1"
    define lastIdx where "lastIdx = cell ! last"
    define cell' where "cell' = butlast (cell[g := lastIdx])"
    define res1 where "res1 = res[lastIdx := (res ! lastIdx)\<lparr>gridIndex := gridIndex r\<rparr>]"
    define res2 where "res2 = res1[idx := (res1 ! idx)\<lparr>gridCell := - 1, gridIndex := - 1\<rparr>]"
    define grid' where "grid' = grid[c := cell']"
    define s' where "s' = s\<lparr>resources := res2, resGrid := grid'\<rparr>"
    have cl: "c < length grid" "int c = gridCell r" using ri nn unfolding c_def by auto
    have gl: "g < length cell" "int g = gridIndex r" "cell ! g = idx"
      using ri unfolding g_def cell_def c_def by auto
    then have ne: "cell \<noteq> []" "last < length cell" "g \<le> last" unfolding last_def by auto
    have li: "lastIdx < length res" "gridCell (res ! lastIdx) = int c"
      "gridIndex (res ! lastIdx) = int last"
      using slots[OF cl(1), of last] ne unfolding cell_def lastIdx_def by auto
    have g1: "\<not> length res \<le> idx" using il' by simp
    have g2: "\<not> (gridCell r < 0 \<or> gridIndex r < 0)" using nn ri by simp
    have g3: "\<not> int (length grid) \<le> gridCell r" using ri by simp
    have g4: "\<not> (cell = [] \<or> int (length cell) \<le> gridIndex r)"
      using ne(1) gl(1,2) by simp
    have g5: "\<not> length res \<le> lastIdx" using li(1) by simp
    have e: "gridRemoveResource idx s = Some s'"
      unfolding gridRemoveResource_def Let_def
      using g1 g2 g3 g4 g5
      unfolding s'_def grid'_def res2_def res1_def cell'_def lastIdx_def last_def cell_def
        c_def g_def r_def res_def grid_def
      by (simp only: if_False)
    have sel: "resources s' = res2" "resGrid s' = grid'" "resGridW s' = resGridW s"
      "resGridH s' = resGridH s"
      unfolding s'_def by simp_all
    have len: "length res2 = length res" "length grid' = length grid" "length cell' = last"
      unfolding res2_def res1_def grid'_def cell'_def last_def by simp_all
    have g_c: "grid' ! c = cell'" unfolding grid'_def using cl by simp
    have g_other: "grid' ! a = grid ! a" if "a \<noteq> c" for a
      unfolding grid'_def using that by simp
    have c_nth: "cell' ! k = (if k = g then lastIdx else cell ! k)" if "k < last" for k
      unfolding cell'_def using that ne gl(1) unfolding last_def
      by (simp add: nth_butlast nth_list_update)
    have n_idx: "res2 ! idx = (res1 ! idx)\<lparr>gridCell := - 1, gridIndex := - 1\<rparr>"
      unfolding res2_def using il' by (simp add: res1_def)
    have n_last: "res2 ! lastIdx = (res ! lastIdx)\<lparr>gridIndex := gridIndex r\<rparr>"
      if "lastIdx \<noteq> idx"
      unfolding res2_def res1_def using that li(1) by simp
    have n_other: "res2 ! j = res ! j" if "j \<noteq> idx" "j \<noteq> lastIdx" for j
      unfolding res2_def res1_def using that by simp
    have is_idx: "grid ! a ! k = idx \<longleftrightarrow> a = c \<and> k = g"
      if "a < length grid" "k < length (grid ! a)" for a k
    proof
      assume h: "grid ! a ! k = idx"
      from slots[OF that] have "gridCell (res ! idx) = int a" "gridIndex (res ! idx) = int k"
        unfolding h by simp_all
      then show "a = c \<and> k = g" using cl(2) gl(2) unfolding r_def by simp
    next
      assume "a = c \<and> k = g"
      then show "grid ! a ! k = idx" using gl(3) unfolding cell_def by simp
    qed
    have is_last: "grid ! a ! k = lastIdx \<longleftrightarrow> a = c \<and> k = last"
      if "a < length grid" "k < length (grid ! a)" for a k
    proof
      assume h: "grid ! a ! k = lastIdx"
      from slots[OF that] have "gridCell (res ! lastIdx) = int a"
        "gridIndex (res ! lastIdx) = int k"
        unfolding h by simp_all
      then show "a = c \<and> k = last" using li(2,3) by simp
    next
      assume "a = c \<and> k = last"
      then show "grid ! a ! k = lastIdx" unfolding lastIdx_def cell_def by simp
    qed
    have lg: "lastIdx = idx \<longleftrightarrow> g = last"
    proof -
      have "last < length (grid ! c)" using ne(2) unfolding cell_def by simp
      from is_idx[OF cl(1) this] show ?thesis unfolding lastIdx_def cell_def by auto
    qed
    have cf: "cellIndexForPos s' x y = cellIndexForPos s x y" for x y
      by (rule cellIndexForPos_frame) (simp_all add: sel)
    have sbg: "same_but_grid (res ! j) (res2 ! j)" if "j < length res" for j
    proof (cases "j = idx")
      case True
      have "res1 ! idx = res ! idx \<or> res1 ! idx = (res ! idx)\<lparr>gridIndex := gridIndex r\<rparr>"
        unfolding res1_def using il' by (cases "lastIdx = idx") simp_all
      then show ?thesis unfolding True n_idx by (auto simp: same_but_grid_def)
    next
      case False
      then show ?thesis using n_last n_other[of j] by (cases "j = lastIdx") auto
    qed
    have gcell: "gridCell (res2 ! j) = gridCell (res ! j)" if "j \<noteq> idx" for j
      using n_last n_other[of j] that by (cases "j = lastIdx") auto
    have A: "grid' ! a ! k < length res2 \<and> gridCell (res2 ! (grid' ! a ! k)) = int a
          \<and> gridIndex (res2 ! (grid' ! a ! k)) = int k"
      if ak: "a < length grid'" "k < length (grid' ! a)" for a k
    proof (cases "a = c")
      case True
      have kl: "k < last" using ak True g_c len by simp
      show ?thesis
      proof (cases "k = g")
        case kg: True
        have "lastIdx \<noteq> idx" using lg kl kg by simp
        then show ?thesis
          using True kg c_nth[OF kl] g_c n_last li len gl(2) by simp
      next
        case kg: False
        have x: "grid' ! a ! k = cell ! k" using True g_c c_nth[OF kl] kg by simp
        have kc: "k < length (grid ! c)" using kl ne unfolding cell_def last_def by simp
        have "cell ! k \<noteq> idx" "cell ! k \<noteq> lastIdx"
          using is_idx[OF cl(1) kc] is_last[OF cl(1) kc] kg kl unfolding cell_def by auto
        then show ?thesis
          unfolding x using n_other[of "cell ! k"] slots[OF cl(1) kc] True len
          unfolding cell_def by simp
      qed
    next
      case False
      have al: "a < length grid" "k < length (grid ! a)" "grid' ! a ! k = grid ! a ! k"
        using ak len g_other[OF False] by simp_all
      have "grid ! a ! k \<noteq> idx" "grid ! a ! k \<noteq> lastIdx"
        using is_idx[OF al(1,2)] is_last[OF al(1,2)] False by auto
      then show ?thesis
        unfolding al(3) using n_other[of "grid ! a ! k"] slots[OF al(1,2)] len by simp
    qed
    have B: "cellIndexForPos s' (rx (res2 ! j)) (ry (res2 ! j)) = gridCell (res2 ! j)
          \<and> gridCell (res2 ! j) < int (length grid')
          \<and> 0 \<le> gridIndex (res2 ! j)
          \<and> gridIndex (res2 ! j) < int (length (grid' ! nat (gridCell (res2 ! j))))
          \<and> grid' ! nat (gridCell (res2 ! j)) ! nat (gridIndex (res2 ! j)) = j"
      if j: "j < length res2" "0 \<le> gridCell (res2 ! j)" for j
    proof -
      have ji: "j \<noteq> idx" using j(2) n_idx by auto
      have jl: "j < length res" using j len by simp
      have jn: "0 \<le> gridCell (res ! j)" using j(2) gcell[OF ji] by simp
      note rj = refs[OF jl jn]
      have pos: "rx (res2 ! j) = rx (res ! j)" "ry (res2 ! j) = ry (res ! j)"
        using same_but_grid_fields[OF sbg[OF jl]] by simp_all
      show ?thesis
      proof (cases "j = lastIdx")
        case True
        have gl': "g < last" using lg ji True ne(3) by auto
        have f: "gridCell (res2 ! j) = int c" "gridIndex (res2 ! j) = int g"
          using n_last ji True li gl(2) by auto
        have cpos: "cellIndexForPos s (rx (res ! j)) (ry (res ! j)) = int c"
          using rj li(2) True by simp
        have sl: "g < length (grid' ! c)" "grid' ! c ! g = j"
          using g_c len(3) gl' c_nth[OF gl'] True by simp_all
        show ?thesis
          unfolding f pos cf nat_int
        proof (intro conjI)
          show "cellIndexForPos s (rx (res ! j)) (ry (res ! j)) = int c" by (rule cpos)
          show "int c < int (length grid')" using cl(1) len(2) by simp
          show "0 \<le> int g" by simp
          show "int g < int (length (grid' ! c))" using sl(1) by simp
          show "grid' ! c ! g = j" by (rule sl(2))
        qed
      next
        case False
        have same: "res2 ! j = res ! j" using n_other[OF ji False] .
        define a where "a = nat (gridCell (res ! j))"
        define k where "k = nat (gridIndex (res ! j))"
        have ak: "a < length grid" "k < length (grid ! a)" "grid ! a ! k = j"
          using rj jn unfolding a_def k_def by auto
        have "k < length (grid' ! a) \<and> grid' ! a ! k = j"
        proof (cases "a = c")
          case True
          have "k \<noteq> g" "k \<noteq> last"
            using is_idx[OF ak(1,2)] is_last[OF ak(1,2)] ak(3) ji False True by auto
          moreover have "k < length cell" using ak(2) True unfolding cell_def by simp
          ultimately have "k < last" unfolding last_def by simp
          then show ?thesis
            using True g_c c_nth[of k] \<open>k \<noteq> g\<close> len ak(3) unfolding cell_def by simp
        next
          case False
          then show ?thesis using ak g_other[OF False] by simp
        qed
        then have sl: "k < length (grid' ! a)" "grid' ! a ! k = j" by simp_all
        have ia: "gridCell (res ! j) = int a" "gridIndex (res ! j) = int k"
          using rj jn unfolding a_def k_def by simp_all
        show ?thesis
          unfolding same cf
        proof (intro conjI)
          show "cellIndexForPos s (rx (res ! j)) (ry (res ! j)) = gridCell (res ! j)"
            using rj by simp
          show "gridCell (res ! j) < int (length grid')" using rj len(2) by simp
          show "0 \<le> gridIndex (res ! j)" using rj by simp
          show "gridIndex (res ! j) < int (length (grid' ! nat (gridCell (res ! j))))"
            unfolding ia nat_int using sl(1) by simp
          show "grid' ! nat (gridCell (res ! j)) ! nat (gridIndex (res ! j)) = j"
            unfolding ia nat_int by (rule sl(2))
        qed
      qed
    qed
    have "grid_consistent s'"
      unfolding grid_consistent_def sel using dims len A B by simp
    moreover have "s' = s\<lparr>resources := resources s', resGrid := resGrid s'\<rparr>"
      unfolding s'_def by simp
    moreover have "gridCell (resources s' ! idx) < 0" unfolding sel n_idx by simp
    ultimately show ?thesis
      using e sel(1) len(1) sbg gcell unfolding res_def by auto
  qed
qed

lemma grid_consistent_cong:
  assumes gc: "grid_consistent s"
    and g: "resGrid s' = resGrid s" "resGridW s' = resGridW s" "resGridH s' = resGridH s"
    and l: "length (resources s') = length (resources s)"
    and f: "\<forall>j < length (resources s).
           gridCell (resources s' ! j) = gridCell (resources s ! j)
           \<and> gridIndex (resources s' ! j) = gridIndex (resources s ! j)
           \<and> rx (resources s' ! j) = rx (resources s ! j)
           \<and> ry (resources s' ! j) = ry (resources s ! j)"
  shows "grid_consistent s'"
proof -
  have cf: "cellIndexForPos s' x y = cellIndexForPos s x y" for x y
    by (rule cellIndexForPos_frame) (simp_all add: g)
  from gc have dims: "0 < resGridW s" "0 < resGridH s"
    "int (length (resGrid s)) = resGridW s * resGridH s"
    and slots: "\<And>a k. a < length (resGrid s) \<Longrightarrow> k < length (resGrid s ! a) \<Longrightarrow>
        resGrid s ! a ! k < length (resources s)
        \<and> gridCell (resources s ! (resGrid s ! a ! k)) = int a
        \<and> gridIndex (resources s ! (resGrid s ! a ! k)) = int k"
    and refs: "\<And>j. j < length (resources s) \<Longrightarrow> 0 \<le> gridCell (resources s ! j) \<Longrightarrow>
        cellIndexForPos s (rx (resources s ! j)) (ry (resources s ! j))
          = gridCell (resources s ! j)
        \<and> gridCell (resources s ! j) < int (length (resGrid s))
        \<and> 0 \<le> gridIndex (resources s ! j)
        \<and> gridIndex (resources s ! j)
            < int (length (resGrid s ! nat (gridCell (resources s ! j))))
        \<and> resGrid s ! nat (gridCell (resources s ! j)) ! nat (gridIndex (resources s ! j)) = j"
    unfolding grid_consistent_def by auto
  have A: "resGrid s ! a ! k < length (resources s)
        \<and> gridCell (resources s' ! (resGrid s ! a ! k)) = int a
        \<and> gridIndex (resources s' ! (resGrid s ! a ! k)) = int k"
    if "a < length (resGrid s)" "k < length (resGrid s ! a)" for a k
    using slots[OF that] f by simp
  have B: "cellIndexForPos s (rx (resources s' ! j)) (ry (resources s' ! j))
          = gridCell (resources s' ! j)
        \<and> gridCell (resources s' ! j) < int (length (resGrid s))
        \<and> 0 \<le> gridIndex (resources s' ! j)
        \<and> gridIndex (resources s' ! j)
            < int (length (resGrid s ! nat (gridCell (resources s' ! j))))
        \<and> resGrid s ! nat (gridCell (resources s' ! j)) ! nat (gridIndex (resources s' ! j)) = j"
    if "j < length (resources s)" "0 \<le> gridCell (resources s' ! j)" for j
  proof -
    have e: "gridCell (resources s' ! j) = gridCell (resources s ! j)"
      "gridIndex (resources s' ! j) = gridIndex (resources s ! j)"
      "rx (resources s' ! j) = rx (resources s ! j)"
      "ry (resources s' ! j) = ry (resources s ! j)"
      using f that(1) by simp_all
    show ?thesis unfolding e using refs[OF that(1)] that(2) e(1) by simp
  qed
  show ?thesis
    unfolding grid_consistent_def g l cf using dims A B by simp
qed

lemma activateResource_consistent:
  assumes gc: "grid_consistent s" and ac: "active_consistent s"
    and il: "idx < length (resources s)" and na: "\<not> active (resources s ! idx)"
    and iw: "in_world (resources s ! idx)"
  shows "\<exists>s'. activateResource idx s = Some s' \<and> grid_consistent s' \<and> active_consistent s'
           \<and> active (resources s' ! idx)
           \<and> length (resources s') = length (resources s)
           \<and> (\<forall>j < length (resources s). j \<noteq> idx \<longrightarrow> resources s' ! j = resources s ! j)"
proof -
  define res where "res = resources s"
  define ra where "ra = resourceActive s"
  define r0 where "r0 = (res ! idx)\<lparr>active := True, activeIndex := int (length ra)\<rparr>"
  define s0 where "s0 = s\<lparr>resources := res[idx := r0], resourceActive := ra @ [idx]\<rparr>"
  have il': "idx < length res" using il res_def by simp
  from ac have link: "\<And>j. j < length res \<Longrightarrow> active (res ! j) \<longleftrightarrow> 0 \<le> gridCell (res ! j)"
    and lst: "\<And>ai. ai < length ra \<Longrightarrow> ra ! ai < length res \<and> active (res ! (ra ! ai))
        \<and> activeIndex (res ! (ra ! ai)) = int ai"
    and refs: "\<And>j. j < length res \<Longrightarrow> active (res ! j) \<Longrightarrow>
        0 \<le> activeIndex (res ! j) \<and> activeIndex (res ! j) < int (length ra)
        \<and> ra ! nat (activeIndex (res ! j)) = j"
    unfolding active_consistent_def res_def ra_def by auto
  have e0: "activateResource idx s = gridAddResource idx s0"
    unfolding activateResource_def Let_def s0_def r0_def res_def ra_def using il by simp
  have sel0: "resources s0 = res[idx := r0]" "resourceActive s0 = ra @ [idx]"
    "resGrid s0 = resGrid s" "resGridW s0 = resGridW s" "resGridH s0 = resGridH s"
    unfolding s0_def by simp_all
  have n0: "resources s0 ! j = (if j = idx then r0 else res ! j)" if "j < length res" for j
    unfolding sel0 using that by (simp add: nth_list_update)
  have gc0: "grid_consistent s0"
  proof (rule grid_consistent_cong[OF gc])
    show "\<forall>j < length (resources s).
           gridCell (resources s0 ! j) = gridCell (resources s ! j)
           \<and> gridIndex (resources s0 ! j) = gridIndex (resources s ! j)
           \<and> rx (resources s0 ! j) = rx (resources s ! j)
           \<and> ry (resources s0 ! j) = ry (resources s ! j)"
      using n0 unfolding res_def[symmetric] r0_def by simp
  qed (simp_all add: sel0 res_def)
  have p0: "idx < length (resources s0)" "gridCell (resources s0 ! idx) < 0"
    "in_world (resources s0 ! idx)"
    using il' n0[OF il'] link[OF il'] na iw unfolding r0_def res_def[symmetric] in_world_def
    by (simp_all add: sel0)
  from gridAddResource_consistent[OF gc0 p0]
  obtain s' where e: "gridAddResource idx s0 = Some s'" and gc': "grid_consistent s'"
    and ra': "resourceActive s' = resourceActive s0"
    and len': "length (resources s') = length (resources s0)"
    and oth: "\<And>j. j < length (resources s0) \<Longrightarrow> j \<noteq> idx \<Longrightarrow>
        resources s' ! j = resources s0 ! j"
    and gi: "0 \<le> gridCell (resources s' ! idx)"
    and ai: "active (resources s' ! idx) = active (resources s0 ! idx)"
      "activeIndex (resources s' ! idx) = activeIndex (resources s0 ! idx)"
    by blast
  have len: "length (resources s') = length res" using len' sel0 by simp
  have other: "resources s' ! j = res ! j" if "j < length res" "j \<noteq> idx" for j
    using oth[of j] that n0[of j] sel0 by simp
  have act: "active (resources s' ! idx)" "activeIndex (resources s' ! idx) = int (length ra)"
    using ai n0[OF il'] unfolding r0_def by simp_all
  have ne: "ra ! k \<noteq> idx" if "k < length ra" for k
    using lst[OF that] na unfolding res_def by auto
  have L: "active (resources s' ! j) \<longleftrightarrow> 0 \<le> gridCell (resources s' ! j)"
    if "j < length res" for j
    using that act gi other[of j] link[of j] by (cases "j = idx") auto
  have M: "(ra @ [idx]) ! k < length res \<and> active (resources s' ! ((ra @ [idx]) ! k))
        \<and> activeIndex (resources s' ! ((ra @ [idx]) ! k)) = int k"
    if "k < length (ra @ [idx])" for k
  proof (cases "k < length ra")
    case True
    then have "(ra @ [idx]) ! k = ra ! k" by (simp add: nth_append)
    then show ?thesis using lst[OF True] ne[OF True] other[of "ra ! k"] by simp
  next
    case False
    then have "k = length ra" using that by simp
    then show ?thesis using act il' by simp
  qed
  have N: "0 \<le> activeIndex (resources s' ! j)
        \<and> activeIndex (resources s' ! j) < int (length (ra @ [idx]))
        \<and> (ra @ [idx]) ! nat (activeIndex (resources s' ! j)) = j"
    if "j < length res" "active (resources s' ! j)" for j
  proof (cases "j = idx")
    case True
    then show ?thesis using act by simp
  next
    case False
    have "active (res ! j)" using that other[OF that(1) False] by simp
    from refs[OF that(1) this] show ?thesis
      unfolding other[OF that(1) False] by (auto simp: nth_append)
  qed
  have "active_consistent s'"
    unfolding active_consistent_def ra' sel0 len
  proof (intro conjI allI impI)
    fix j assume "j < length res"
    then show "active (resources s' ! j) \<longleftrightarrow> 0 \<le> gridCell (resources s' ! j)" by (rule L)
  next
    fix k assume k: "k < length (ra @ [idx])"
    show "(ra @ [idx]) ! k < length res" using M[OF k] by blast
    show "active (resources s' ! ((ra @ [idx]) ! k))" using M[OF k] by blast
    show "activeIndex (resources s' ! ((ra @ [idx]) ! k)) = int k" using M[OF k] by blast
  next
    fix j assume j: "j < length res" "active (resources s' ! j)"
    show "0 \<le> activeIndex (resources s' ! j)" using N[OF j] by blast
    show "activeIndex (resources s' ! j) < int (length (ra @ [idx]))" using N[OF j] by blast
    show "(ra @ [idx]) ! nat (activeIndex (resources s' ! j)) = j" using N[OF j] by blast
  qed
  then show ?thesis
    using e0 e gc' act(1) len other unfolding res_def by auto
qed

lemma same_payload_refl [simp]: "same_payload r r"
  by (simp add: same_payload_def)

lemma same_but_grid_payload: "same_but_grid r r' \<Longrightarrow> same_payload r r'"
  unfolding same_but_grid_def same_payload_def
  by (metis resource.select_convs(1-7) resource.surjective resource.update_convs(10,11))

lemma deactivateResource_consistent:
  assumes gc: "grid_consistent s" and ac: "active_consistent s"
    and il: "idx < length (resources s)"
  shows "\<exists>s'. deactivateResource idx s = Some s' \<and> grid_consistent s' \<and> active_consistent s'
           \<and> \<not> active (resources s' ! idx)
           \<and> s' = s\<lparr>resources := resources s', resourceActive := resourceActive s',
                     resGrid := resGrid s'\<rparr>
           \<and> length (resources s') = length (resources s)
           \<and> (\<forall>j < length (resources s). same_payload (resources s ! j) (resources s' ! j))
           \<and> (\<forall>j < length (resources s). j \<noteq> idx \<longrightarrow>
                 active (resources s' ! j) = active (resources s ! j))"
proof (cases "active (resources s ! idx)")
  case False
  then have "deactivateResource idx s = Some s"
    unfolding deactivateResource_def using il by simp
  then show ?thesis using gc ac False by simp
next
  case act: True
  define res where "res = resources s"
  define ra where "ra = resourceActive s"
  have il': "idx < length res" using il res_def by simp
  from ac have link: "\<And>j. j < length res \<Longrightarrow> active (res ! j) \<longleftrightarrow> 0 \<le> gridCell (res ! j)"
    and lst: "\<And>k. k < length ra \<Longrightarrow> ra ! k < length res \<and> active (res ! (ra ! k))
        \<and> activeIndex (res ! (ra ! k)) = int k"
    and refs: "\<And>j. j < length res \<Longrightarrow> active (res ! j) \<Longrightarrow>
        0 \<le> activeIndex (res ! j) \<and> activeIndex (res ! j) < int (length ra)
        \<and> ra ! nat (activeIndex (res ! j)) = j"
    unfolding active_consistent_def res_def ra_def by auto
  from gridRemoveResource_consistent[OF gc il]
  obtain s1 where e1: "gridRemoveResource idx s = Some s1" and gc1: "grid_consistent s1"
    and fr1: "s1 = s\<lparr>resources := resources s1, resGrid := resGrid s1\<rparr>"
    and len1: "length (resources s1) = length res"
    and sbg: "\<And>j. j < length res \<Longrightarrow> same_but_grid (res ! j) (resources s1 ! j)"
    and gcell: "\<And>j. j < length res \<Longrightarrow> j \<noteq> idx \<Longrightarrow>
        gridCell (resources s1 ! j) = gridCell (res ! j)"
    and gidx: "gridCell (resources s1 ! idx) < 0"
    unfolding res_def by blast
  define res1 where "res1 = resources s1"
  have ra1: "resourceActive s1 = ra" unfolding ra_def by (subst fr1) simp
  note f1 = same_but_grid_fields[OF sbg, folded res1_def]
  define ai where "ai = activeIndex (res1 ! idx)"
  have ai_eq: "ai = activeIndex (res ! idx)" unfolding ai_def using f1(2)[OF il'] .
  define a where "a = nat ai"
  define last where "last = length ra - 1"
  define lastIdx where "lastIdx = ra ! last"
  define ra' where "ra' = butlast (ra[a := lastIdx])"
  define r3 where "r3 = res1[lastIdx := (res1 ! lastIdx)\<lparr>activeIndex := ai\<rparr>]"
  define r4 where "r4 = r3[idx := (r3 ! idx)\<lparr>active := False, activeIndex := - 1\<rparr>]"
  define s' where "s' = s1\<lparr>resources := r4, resourceActive := ra'\<rparr>"
  have ri: "0 \<le> ai" "ai < int (length ra)" "ra ! a = idx"
    using refs[OF il'] act unfolding ai_eq a_def res_def by auto
  then have al: "a < length ra" "int a = ai" unfolding a_def by auto
  then have ne: "ra \<noteq> []" "last < length ra" "a \<le> last" unfolding last_def by auto
  have li: "lastIdx < length res" "active (res ! lastIdx)"
    "activeIndex (res ! lastIdx) = int last"
    using lst[OF ne(2)] unfolding lastIdx_def by auto
  have g1: "\<not> length (resources s) \<le> idx" using il by simp
  have g2: "\<not> \<not> active (resources s ! idx)" using act by simp
  have g3: "\<not> (resourceActive s1 = [] \<or> activeIndex (resources s1 ! idx) < 0
              \<or> int (length (resourceActive s1)) \<le> activeIndex (resources s1 ! idx))"
    unfolding ra1 res1_def[symmetric] ai_def[symmetric] using ne(1) ri by simp
  have g4: "\<not> length (resources s1) \<le> resourceActive s1 ! (length (resourceActive s1) - 1)"
    unfolding ra1 len1 last_def[symmetric] lastIdx_def[symmetric] using li(1) by simp
  have e: "deactivateResource idx s = Some s'"
    unfolding deactivateResource_def Let_def e1 option.case
    using g1 g2 g3 g4
    unfolding s'_def r4_def r3_def ra'_def lastIdx_def last_def a_def ai_def res1_def ra1
    by (simp only: if_False)
  have sel: "resources s' = r4" "resourceActive s' = ra'" "resGrid s' = resGrid s1"
    "resGridW s' = resGridW s1" "resGridH s' = resGridH s1"
    unfolding s'_def by simp_all
  have len: "length r4 = length res" "length ra' = last"
    unfolding r4_def r3_def ra'_def last_def res1_def using len1 by simp_all
  have l1: "idx < length res1" "lastIdx < length res1"
    using il' li(1) len1 unfolding res1_def by simp_all
  have n_idx: "r4 ! idx = (r3 ! idx)\<lparr>active := False, activeIndex := - 1\<rparr>"
    unfolding r4_def using l1 by (simp add: r3_def)
  have r3_idx: "r3 ! idx = res1 ! idx \<or> r3 ! idx = (res1 ! idx)\<lparr>activeIndex := ai\<rparr>"
    unfolding r3_def using l1 by (cases "lastIdx = idx") simp_all
  have n_last: "r4 ! lastIdx = (res1 ! lastIdx)\<lparr>activeIndex := ai\<rparr>" if "lastIdx \<noteq> idx"
    unfolding r4_def r3_def using that l1 by simp
  have n_other: "r4 ! j = res1 ! j" if "j \<noteq> idx" "j \<noteq> lastIdx" for j
    unfolding r4_def r3_def using that by simp
  have c_nth: "ra' ! k = (if k = a then lastIdx else ra ! k)" if "k < last" for k
    unfolding ra'_def using that ne al(1) unfolding last_def
    by (simp add: nth_butlast nth_list_update)
  have is_idx: "ra ! k = idx \<longleftrightarrow> k = a" if "k < length ra" for k
  proof
    assume h: "ra ! k = idx"
    from lst[OF that] have "activeIndex (res ! idx) = int k" unfolding h by simp
    then show "k = a" using al(2) ai_eq by simp
  next
    assume "k = a" then show "ra ! k = idx" using ri(3) by simp
  qed
  have is_last: "ra ! k = lastIdx \<longleftrightarrow> k = last" if "k < length ra" for k
  proof
    assume h: "ra ! k = lastIdx"
    from lst[OF that] have "activeIndex (res ! lastIdx) = int k" unfolding h by simp
    then show "k = last" using li(3) by simp
  next
    assume "k = last" then show "ra ! k = lastIdx" unfolding lastIdx_def by simp
  qed
  have lg: "lastIdx = idx \<longleftrightarrow> a = last"
    using is_idx[OF ne(2)] unfolding lastIdx_def by auto
  have grid_same: "gridCell (r4 ! j) = gridCell (res1 ! j) \<and> gridIndex (r4 ! j) = gridIndex (res1 ! j)
      \<and> rx (r4 ! j) = rx (res1 ! j) \<and> ry (r4 ! j) = ry (res1 ! j)
      \<and> same_payload (res1 ! j) (r4 ! j)" for j
  proof (cases "j = idx")
    case True
    show ?thesis unfolding True n_idx using r3_idx by (auto simp: same_payload_def)
  next
    case False
    show ?thesis
    proof (cases "j = lastIdx")
      case True
      then show ?thesis using n_last False by (simp add: same_payload_def)
    next
      case l: False
      show ?thesis using n_other[OF False l] by simp
    qed
  qed
  have act_same: "active (r4 ! j) = active (res ! j)"
    "activeIndex (r4 ! j) = (if j = lastIdx then ai else activeIndex (res ! j))"
    if "j < length res" "j \<noteq> idx" for j
  proof -
    show "active (r4 ! j) = active (res ! j)"
      using n_last n_other[of j] that f1(1)[of j] by (cases "j = lastIdx") auto
    show "activeIndex (r4 ! j) = (if j = lastIdx then ai else activeIndex (res ! j))"
      using n_last n_other[of j] that f1(2)[of j] by (cases "j = lastIdx") auto
  qed
  have not_act: "\<not> active (r4 ! idx)" unfolding n_idx by simp
  have gc': "grid_consistent s'"
  proof (rule grid_consistent_cong[OF gc1])
    show "\<forall>j < length (resources s1).
           gridCell (resources s' ! j) = gridCell (resources s1 ! j)
           \<and> gridIndex (resources s' ! j) = gridIndex (resources s1 ! j)
           \<and> rx (resources s' ! j) = rx (resources s1 ! j)
           \<and> ry (resources s' ! j) = ry (resources s1 ! j)"
      unfolding sel res1_def[symmetric] using grid_same by simp
  qed (simp_all add: sel len len1)
  have L: "active (r4 ! j) \<longleftrightarrow> 0 \<le> gridCell (r4 ! j)" if "j < length res" for j
  proof (cases "j = idx")
    case True
    then show ?thesis using not_act grid_same[of idx] gidx unfolding res1_def by simp
  next
    case False
    then show ?thesis
      using act_same(1)[OF that False] link[OF that] gcell[OF that False] grid_same[of j]
      unfolding res1_def by simp
  qed
  have M: "ra' ! k < length res \<and> active (r4 ! (ra' ! k)) \<and> activeIndex (r4 ! (ra' ! k)) = int k"
    if k: "k < last" for k
  proof (cases "k = a")
    case True
    have "lastIdx \<noteq> idx" using lg k True by simp
    then show ?thesis
      using c_nth[OF k] True li act_same[OF li(1)] al(2) by simp
  next
    case False
    have kl: "k < length ra" using k ne unfolding last_def by simp
    have x: "ra' ! k = ra ! k" using c_nth[OF k] False by simp
    have d: "ra ! k \<noteq> idx" "ra ! k \<noteq> lastIdx"
      using is_idx[OF kl] is_last[OF kl] False k by auto
    show ?thesis
      unfolding x using lst[OF kl] act_same[of "ra ! k"] d by simp
  qed
  have N: "0 \<le> activeIndex (r4 ! j) \<and> activeIndex (r4 ! j) < int last
        \<and> ra' ! nat (activeIndex (r4 ! j)) = j"
    if j: "j < length res" "active (r4 ! j)" for j
  proof -
    have ji: "j \<noteq> idx" using j(2) not_act by auto
    have aj: "active (res ! j)" using act_same(1)[OF j(1) ji] j(2) by simp
    show ?thesis
    proof (cases "j = lastIdx")
      case True
      have "a < last" using lg ji True ne(3) by auto
      then show ?thesis
        using act_same(2)[OF j(1) ji] True c_nth[of a] al(2) ri(1) by (simp add: a_def)
    next
      case False
      define k where "k = nat (activeIndex (res ! j))"
      have rk: "0 \<le> activeIndex (res ! j)" "k < length ra" "ra ! k = j"
        using refs[OF j(1) aj] unfolding k_def by auto
      have "k \<noteq> a" "k \<noteq> last" using is_idx[OF rk(2)] is_last[OF rk(2)] rk(3) ji False by auto
      then have "k < last" using rk(2) unfolding last_def by simp
      then have "ra' ! k = j" using c_nth[of k] \<open>k \<noteq> a\<close> rk(3) by simp
      then show ?thesis
        using act_same(2)[OF j(1) ji] False rk(1) \<open>k < last\<close> unfolding k_def by simp
    qed
  qed
  have ac': "active_consistent s'"
    unfolding active_consistent_def sel len
  proof (intro conjI allI impI)
    fix j assume "j < length res"
    then show "active (r4 ! j) \<longleftrightarrow> 0 \<le> gridCell (r4 ! j)" by (rule L)
  next
    fix k assume k: "k < last"
    show "ra' ! k < length res" using M[OF k] by blast
    show "active (r4 ! (ra' ! k))" using M[OF k] by blast
    show "activeIndex (r4 ! (ra' ! k)) = int k" using M[OF k] by blast
  next
    fix j assume j: "j < length res" "active (r4 ! j)"
    show "0 \<le> activeIndex (r4 ! j)" using N[OF j] by blast
    show "activeIndex (r4 ! j) < int last" using N[OF j] by blast
    show "ra' ! nat (activeIndex (r4 ! j)) = j" using N[OF j] by blast
  qed
  have fr: "s' = s\<lparr>resources := resources s', resourceActive := resourceActive s',
                     resGrid := resGrid s'\<rparr>"
    unfolding s'_def by (subst (1 2 3) fr1) simp
  have pay: "same_payload (res ! j) (r4 ! j)" if "j < length res" for j
    using same_but_grid_payload[OF sbg[OF that]] grid_same[of j]
    unfolding res1_def same_payload_def by simp
  show ?thesis
    using e gc' ac' not_act fr len(1) pay act_same(1) unfolding sel res_def by auto
qed

lemma consistent_stored:
  assumes gc: "grid_consistent s" and ac: "active_consistent s"
  shows "stored_where_active s"
proof -
  define res where "res = resources s"
  define grid where "grid = resGrid s"
  from gc have slots: "\<And>a k. a < length grid \<Longrightarrow> k < length (grid ! a) \<Longrightarrow>
        grid ! a ! k < length res \<and> gridCell (res ! (grid ! a ! k)) = int a
        \<and> gridIndex (res ! (grid ! a ! k)) = int k"
    and refs: "\<And>j. j < length res \<Longrightarrow> 0 \<le> gridCell (res ! j) \<Longrightarrow>
        cellIndexForPos s (rx (res ! j)) (ry (res ! j)) = gridCell (res ! j)
        \<and> gridCell (res ! j) < int (length grid)
        \<and> 0 \<le> gridIndex (res ! j)
        \<and> gridIndex (res ! j) < int (length (grid ! nat (gridCell (res ! j))))
        \<and> grid ! nat (gridCell (res ! j)) ! nat (gridIndex (res ! j)) = j"
    unfolding grid_consistent_def res_def grid_def by auto
  from ac have link: "\<And>j. j < length res \<Longrightarrow> active (res ! j) \<longleftrightarrow> 0 \<le> gridCell (res ! j)"
    unfolding active_consistent_def res_def by auto
  have P: "(\<forall>ci < length grid. \<forall>gi < length (grid ! ci).
              grid ! ci ! gi = j \<longleftrightarrow>
                int ci = cellIndexForPos s (rx (res ! j)) (ry (res ! j))
                \<and> int ci = gridCell (res ! j) \<and> int gi = gridIndex (res ! j))
           \<and> (\<exists>ci < length grid. \<exists>gi < length (grid ! ci). grid ! ci ! gi = j)"
    if j: "j < length res" "active (res ! j)" for j
  proof -
    have nn: "0 \<le> gridCell (res ! j)" using link[OF j(1)] j(2) by simp
    note rj = refs[OF j(1) nn]
    define c where "c = nat (gridCell (res ! j))"
    define g where "g = nat (gridIndex (res ! j))"
    have cg: "c < length grid" "g < length (grid ! c)" "grid ! c ! g = j"
      "int c = gridCell (res ! j)" "int g = gridIndex (res ! j)"
      using rj nn unfolding c_def g_def by auto
    have "grid ! ci ! gi = j \<longleftrightarrow>
                int ci = cellIndexForPos s (rx (res ! j)) (ry (res ! j))
                \<and> int ci = gridCell (res ! j) \<and> int gi = gridIndex (res ! j)"
      if "ci < length grid" "gi < length (grid ! ci)" for ci gi
    proof
      assume h: "grid ! ci ! gi = j"
      from slots[OF that] show "int ci = cellIndexForPos s (rx (res ! j)) (ry (res ! j))
                \<and> int ci = gridCell (res ! j) \<and> int gi = gridIndex (res ! j)"
        unfolding h using rj by simp
    next
      assume "int ci = cellIndexForPos s (rx (res ! j)) (ry (res ! j))
                \<and> int ci = gridCell (res ! j) \<and> int gi = gridIndex (res ! j)"
      then have "ci = c" "gi = g" using cg(4,5) by simp_all
      then show "grid ! ci ! gi = j" using cg(3) by simp
    qed
    then show ?thesis using cg(1,2,3) by blast
  qed
  have Q: "\<forall>ci < length grid. j \<notin> set (grid ! ci)"
    if j: "j < length res" "\<not> active (res ! j)" for j
  proof (intro allI impI notI)
    fix ci assume ci: "ci < length grid" and "j \<in> set (grid ! ci)"
    then obtain gi where gi: "gi < length (grid ! ci)" "grid ! ci ! gi = j"
      by (metis in_set_conv_nth)
    from slots[OF ci gi(1)] have "gridCell (res ! j) = int ci" unfolding gi(2) by simp
    then show False using link[OF j(1)] j(2) by simp
  qed
  show ?thesis
    unfolding stored_where_active_def res_def[symmetric] grid_def[symmetric]
    using P Q by blast
qed

lemma ex_pool_cell: "cellIndexForPos ex_pool 100 100 = 0"
  by code_simp

lemma replicate_1225: "replicate 1225 x = x # replicate 1224 x"
proof -
  have "(1225::nat) = Suc 1224" by simp
  then show ?thesis by (simp only: replicate_Suc)
qed

lemma ex_pool_grid:
  "length (resGrid ex_pool) = 1225"
  "ci < 1225 \<Longrightarrow> resGrid ex_pool ! ci = (if ci = 0 then [0] else [])"
  by (simp_all add: ex_pool_def nth_Cons')

lemma ex_pool_sel:
  "resources ex_pool = [ex_resource]" "resourceActive ex_pool = [0]"
  "resGridW ex_pool = 35" "resGridH ex_pool = 35"
  by (simp_all add: ex_pool_def)

lemma ex_pool_consistent: "grid_consistent ex_pool \<and> active_consistent ex_pool"
proof -
  have a: "grid_consistent ex_pool"
    unfolding grid_consistent_def ex_pool_grid(1) ex_pool_sel
    using ex_pool_grid(2) ex_pool_cell by (auto simp: ex_resource_def)
  have b: "active_consistent ex_pool"
    unfolding active_consistent_def ex_pool_sel by (auto simp: ex_resource_def)
  show ?thesis using a b by simp
qed

text \<open>
  Claim C8, as stated, has the two grid helpers preserve the property too.  They do not on
  their own: \<open>gridRemoveResource\<close> on an active resource of a consistent state leaves it
  active and stored in no cell; \<open>deactivateResource\<close> clears the flag only afterwards (and
  \<open>activateResource\<close> sets it before \<open>gridAddResource\<close> stores the resource).
\<close>

theorem grid_helpers_counterexample:
  "grid_consistent ex_pool \<and> active_consistent ex_pool \<and> stored_where_active ex_pool
   \<and> (\<exists>s'. gridRemoveResource 0 ex_pool = Some s' \<and> active (resources s' ! 0)
          \<and> (\<forall>ci < length (resGrid s'). 0 \<notin> set (resGrid s' ! ci))
          \<and> \<not> stored_where_active s')"
proof -
  define s' where "s' = ex_pool\<lparr>resources := [ex_resource\<lparr>gridCell := - 1, gridIndex := - 1\<rparr>],
      resGrid := replicate 1225 []\<rparr>"
  have e: "gridRemoveResource 0 ex_pool = Some s'"
    unfolding gridRemoveResource_def Let_def s'_def
    by (simp add: ex_pool_def ex_resource_def replicate_1225)
  have sel: "resources s' = [ex_resource\<lparr>gridCell := - 1, gridIndex := - 1\<rparr>]"
    "resGrid s' = replicate 1225 []"
    unfolding s'_def by simp_all
  have act: "active (resources s' ! 0)" unfolding sel by (simp add: ex_resource_def)
  have emp: "\<forall>ci < length (resGrid s'). 0 \<notin> set (resGrid s' ! ci)"
    unfolding sel by simp
  have "\<not> stored_where_active s'"
  proof
    assume "stored_where_active s'"
    then have "\<exists>ci < length (resGrid s'). \<exists>gi < length (resGrid s' ! ci). resGrid s' ! ci ! gi = 0"
      unfolding stored_where_active_def using act by (simp add: sel(1))
    then show False unfolding sel by auto
  qed
  with e act emp show ?thesis
    using ex_pool_consistent consistent_stored[of ex_pool] by blast
qed

text \<open>
  Claim C8, amended.  In a consistent state every active resource is stored in exactly the
  cell computed from its position, at the slot its back-references name, and an inactive
  resource is in no cell.  \<open>activateResource\<close> (of an inactive resource inside the world)
  and \<open>deactivateResource\<close> return normally and preserve this; \<open>gridAddResource\<close> (of
  a resource not in the grid) and \<open>gridRemoveResource\<close> return normally and preserve the
  consistency of the grid with the back-references, which is the part of the property
  that does not mention the active flag.
\<close>

theorem grid_consistency:
  assumes "grid_consistent s" and "active_consistent s" and "idx < length (resources s)"
  shows "stored_where_active s
     \<and> (\<not> active (resources s ! idx) \<and> in_world (resources s ! idx) \<longrightarrow>
          (\<exists>s'. activateResource idx s = Some s' \<and> grid_consistent s' \<and> active_consistent s'
                \<and> stored_where_active s' \<and> active (resources s' ! idx)))
     \<and> (\<exists>s'. deactivateResource idx s = Some s' \<and> grid_consistent s' \<and> active_consistent s'
              \<and> stored_where_active s' \<and> \<not> active (resources s' ! idx))
     \<and> (gridCell (resources s ! idx) < 0 \<and> in_world (resources s ! idx) \<longrightarrow>
          (\<exists>s'. gridAddResource idx s = Some s' \<and> grid_consistent s'
                \<and> 0 \<le> gridCell (resources s' ! idx)))
     \<and> (\<exists>s'. gridRemoveResource idx s = Some s' \<and> grid_consistent s'
              \<and> gridCell (resources s' ! idx) < 0)"
proof -
  have a: "stored_where_active s" using consistent_stored[OF assms(1,2)] .
  have b: "\<exists>s'. activateResource idx s = Some s' \<and> grid_consistent s' \<and> active_consistent s'
                \<and> stored_where_active s' \<and> active (resources s' ! idx)"
    if "\<not> active (resources s ! idx)" "in_world (resources s ! idx)"
    using activateResource_consistent[OF assms that] consistent_stored by blast
  have c: "\<exists>s'. deactivateResource idx s = Some s' \<and> grid_consistent s' \<and> active_consistent s'
              \<and> stored_where_active s' \<and> \<not> active (resources s' ! idx)"
    using deactivateResource_consistent[OF assms] consistent_stored by blast
  have d: "\<exists>s'. gridAddResource idx s = Some s' \<and> grid_consistent s'
                \<and> 0 \<le> gridCell (resources s' ! idx)"
    if "gridCell (resources s ! idx) < 0" "in_world (resources s ! idx)"
    using gridAddResource_consistent[OF assms(1,3) that] by blast
  have e: "\<exists>s'. gridRemoveResource idx s = Some s' \<and> grid_consistent s'
              \<and> gridCell (resources s' ! idx) < 0"
    using gridRemoveResource_consistent[OF assms(1,3)] by blast
  show ?thesis using a b c d e by blast
qed

theorem grid_consistency_witness:
  "grid_consistent ex_pool \<and> active_consistent ex_pool \<and> 0 < length (resources ex_pool)
   \<and> stored_where_active ex_pool
   \<and> deactivateResource 0 ex_pool = Some ex_pool_off
   \<and> grid_consistent ex_pool_off \<and> active_consistent ex_pool_off
   \<and> \<not> active (resources ex_pool_off ! 0) \<and> in_world (resources ex_pool_off ! 0)
   \<and> gridCell (resources ex_pool_off ! 0) < 0
   \<and> activateResource 0 ex_pool_off = Some ex_pool
   \<and> (\<exists>s'. gridAddResource 0 ex_pool_off = Some s' \<and> grid_consistent s'
          \<and> 0 \<le> gridCell (resources s' ! 0))
   \<and> (\<exists>s'. gridRemoveResource 0 ex_pool = Some s' \<and> grid_consistent s'
          \<and> gridCell (resources s' ! 0) < 0)"
proof -
  have h: "grid_consistent ex_pool" "active_consistent ex_pool" "0 < length (resources ex_pool)"
    using ex_pool_consistent by (simp_all add: ex_pool_sel)
  note t = grid_consistency[OF h]
  have d: "deactivateResource 0 ex_pool = Some ex_pool_off"
    unfolding deactivateResource_def gridRemoveResource_def Let_def ex_pool_off_def
    by (simp add: ex_pool_def ex_resource_def replicate_1225)
  from t d have h2: "grid_consistent ex_pool_off" "active_consistent ex_pool_off" by auto
  have h3: "0 < length (resources ex_pool_off)" by (simp add: ex_pool_off_def)
  note t2 = grid_consistency[OF h2 h3]
  have p: "\<not> active (resources ex_pool_off ! 0)" "in_world (resources ex_pool_off ! 0)"
    "gridCell (resources ex_pool_off ! 0) < 0"
    by (simp_all add: ex_pool_off_def ex_resource_def in_world_def WORLD_w_def WORLD_h_def)
  have c0: "cellIndexForPos (ex_pool_off\<lparr>resources := rs, resourceActive := ra\<rparr>) 100 100 = 0"
    for rs ra
    using cellIndexForPos_frame[of "ex_pool_off\<lparr>resources := rs, resourceActive := ra\<rparr>"
        ex_pool 100 100] ex_pool_cell
    by (simp add: ex_pool_off_def)
  have a: "activateResource 0 ex_pool_off = Some ex_pool"
  proof -
    have r: "resources ex_pool_off ! 0 = ex_resource\<lparr>active := False, activeIndex := - 1,
        gridCell := - 1, gridIndex := - 1\<rparr>"
      "length (resources ex_pool_off) = 1" "resourceActive ex_pool_off = []"
      by (simp_all add: ex_pool_off_def)
    show ?thesis
      unfolding activateResource_def gridAddResource_def Let_def
      apply (simp add: r c0 ex_resource_def)
      apply (simp add: ex_pool_off_def ex_pool_def ex_resource_def replicate_1225)
      done
  qed
  show ?thesis using h t d h2 p a t2 by blast
qed

section \<open>Properties of harvesting and of the tick\<close>

lemma pool_frame_refl [simp]: "pool_frame s s"
  by (simp add: pool_frame_def)

lemma same_payload_trans:
  "same_payload a b \<Longrightarrow> same_payload b c \<Longrightarrow> same_payload a c"
  by (simp add: same_payload_def)

lemma pool_frame_trans:
  assumes "pool_frame s s1" and "pool_frame s1 s2"
  shows "pool_frame s s2"
proof -
  have a: "s1 = s\<lparr>resources := resources s1, resourceActive := resourceActive s1,
            resGrid := resGrid s1\<rparr>"
    and b: "s2 = s1\<lparr>resources := resources s2, resourceActive := resourceActive s2,
            resGrid := resGrid s2\<rparr>"
    using assms by (simp_all add: pool_frame_def)
  have "s2 = s\<lparr>resources := resources s2, resourceActive := resourceActive s2,
            resGrid := resGrid s2\<rparr>"
    by (subst b, subst a) simp
  moreover have "length (resources s2) = length (resources s)"
    using assms by (simp add: pool_frame_def)
  moreover have "\<forall>j < length (resources s). same_payload (resources s ! j) (resources s2 ! j)"
    using assms same_payload_trans unfolding pool_frame_def by metis
  ultimately show ?thesis by (simp add: pool_frame_def)
qed

lemma same_payload_nth_update:
  assumes "same_payload (rs ! k) r'" 
  shows "j < length rs \<Longrightarrow> same_payload (rs ! j) (rs[k := r'] ! j)"
  using assms by (cases "j = k") simp_all

lemma gridRemoveResource_frame:
  assumes "gridRemoveResource idx s = Some s'"
  shows "pool_frame s s'"
proof (cases "gridRemoveResource idx s = Some s")
  case True
  then show ?thesis using assms by simp
next
  case False
  define res where "res = resources s"
  define lastIdx where "lastIdx = resGrid s ! nat (gridCell (res ! idx))
      ! (length (resGrid s ! nat (gridCell (res ! idx))) - 1)"
  define res1 where "res1 = res[lastIdx := (res ! lastIdx)\<lparr>gridIndex := gridIndex (res ! idx)\<rparr>]"
  define res2 where "res2 = res1[idx := (res1 ! idx)\<lparr>gridCell := - 1, gridIndex := - 1\<rparr>]"
  have e: "s' = s\<lparr>resources := res2, resGrid := resGrid s'\<rparr>"
    using assms False
    unfolding gridRemoveResource_def Let_def res2_def res1_def lastIdx_def res_def
    by (auto split: if_splits)
  have p1: "same_payload (res ! j) (res1 ! j)" if "j < length res" for j
    unfolding res1_def by (rule same_payload_nth_update[OF _ that]) (simp add: same_payload_def)
  have p2: "same_payload (res1 ! j) (res2 ! j)" if "j < length res1" for j
    unfolding res2_def by (rule same_payload_nth_update[OF _ that]) (simp add: same_payload_def)
  have l: "length res1 = length res" "length res2 = length res"
    unfolding res2_def res1_def by simp_all
  have "same_payload (res ! j) (res2 ! j)" if "j < length res" for j
    using same_payload_trans[OF p1[OF that] p2] that l by simp
  moreover have "resources s' = res2" by (subst e) simp
  moreover have "s' = s\<lparr>resources := resources s', resourceActive := resourceActive s',
            resGrid := resGrid s'\<rparr>"
    by (subst (1 2 3) e) simp
  ultimately show ?thesis
    unfolding pool_frame_def using l res_def by simp
qed

lemma deactivateResource_frame:
  assumes "deactivateResource idx s = Some s'"
  shows "pool_frame s s'"
proof (cases "deactivateResource idx s = Some s")
  case True
  then show ?thesis using assms by simp
next
  case False
  then obtain s1 where g: "gridRemoveResource idx s = Some s1"
    using assms unfolding deactivateResource_def by (auto split: if_splits option.splits)
  define res where "res = resources s1"
  define ra where "ra = resourceActive s1"
  define lastIdx where "lastIdx = ra ! (length ra - 1)"
  define r3 where "r3 = res[lastIdx := (res ! lastIdx)\<lparr>activeIndex := activeIndex (res ! idx)\<rparr>]"
  define r4 where "r4 = r3[idx := (r3 ! idx)\<lparr>active := False, activeIndex := - 1\<rparr>]"
  have e: "s' = s1\<lparr>resources := r4, resourceActive := resourceActive s'\<rparr>"
    using assms False g
    unfolding deactivateResource_def Let_def r4_def r3_def lastIdx_def ra_def res_def
    by (auto split: if_splits)
  have p1: "same_payload (res ! j) (r3 ! j)" if "j < length res" for j
    unfolding r3_def by (rule same_payload_nth_update[OF _ that]) (simp add: same_payload_def)
  have p2: "same_payload (r3 ! j) (r4 ! j)" if "j < length r3" for j
    unfolding r4_def by (rule same_payload_nth_update[OF _ that]) (simp add: same_payload_def)
  have l: "length r3 = length res" "length r4 = length res"
    unfolding r4_def r3_def by simp_all
  have "same_payload (res ! j) (r4 ! j)" if "j < length res" for j
    using same_payload_trans[OF p1[OF that] p2] that l by simp
  moreover have "resources s' = r4" by (subst e) simp
  moreover have "s' = s1\<lparr>resources := resources s', resourceActive := resourceActive s',
            resGrid := resGrid s'\<rparr>"
    by (subst (1 2 3) e) simp
  ultimately have "pool_frame s1 s'"
    unfolding pool_frame_def using l res_def by simp
  with gridRemoveResource_frame[OF g] show ?thesis by (rule pool_frame_trans)
qed

lemma gridAddResource_frame:
  assumes "gridAddResource idx s = Some s'"
  shows "pool_frame s s'"
proof -
  define res where "res = resources s"
  define ci where "ci = cellIndexForPos s (rx (res ! idx)) (ry (res ! idx))"
  define r' where "r' = (res ! idx)\<lparr>gridCell := ci,
      gridIndex := int (length (resGrid s ! nat ci))\<rparr>"
  have e: "s' = s\<lparr>resources := res[idx := r'], resGrid := resGrid s'\<rparr>"
    using assms unfolding gridAddResource_def Let_def r'_def ci_def res_def
    by (auto split: if_splits)
  have "same_payload (res ! j) (res[idx := r'] ! j)" if "j < length res" for j
    by (rule same_payload_nth_update[OF _ that]) (simp add: same_payload_def r'_def)
  moreover have "resources s' = res[idx := r']" by (subst e) simp
  moreover have "s' = s\<lparr>resources := resources s', resourceActive := resourceActive s',
            resGrid := resGrid s'\<rparr>"
    by (subst (1 2 3) e) simp
  ultimately show ?thesis unfolding pool_frame_def using res_def by simp
qed

lemma same_but_cargo_refl [simp]: "same_but_cargo p p"
  by (simp add: same_but_cargo_def)

lemma same_but_cargo_trans:
  assumes "same_but_cargo a b" and "same_but_cargo b c"
  shows "same_but_cargo a c"
proof -
  have ab: "b = a\<lparr>carried := carried b, target := target b\<rparr>"
    and bc: "c = b\<lparr>carried := carried c, target := target c\<rparr>"
    using assms by (simp_all add: same_but_cargo_def)
  have "c = (a\<lparr>carried := carried b, target := target b\<rparr>)\<lparr>carried := carried c, target := target c\<rparr>"
    using bc ab by simp
  then have "c = a\<lparr>carried := carried c, target := target c\<rparr>" by simp
  then show ?thesis by (simp add: same_but_cargo_def)
qed

lemma harvest_frame_refl [simp]: "harvest_frame s s"
  by (simp add: harvest_frame_def)

lemma harvest_frame_trans:
  assumes "harvest_frame s s1" and "harvest_frame s1 s2"
  shows "harvest_frame s s2"
proof -
  have "same_but_cargo (probes s ! j) (probes s2 ! j)" if "j < length (probes s)" for j
  proof -
    have "same_but_cargo (probes s ! j) (probes s1 ! j)"
      "same_but_cargo (probes s1 ! j) (probes s2 ! j)"
      using assms that by (simp_all add: harvest_frame_def)
    then show ?thesis by (rule same_but_cargo_trans)
  qed
  then show ?thesis using assms by (simp add: harvest_frame_def)
qed

lemma pool_frame_fields:
  assumes "pool_frame s s'"
  shows "master s' = master s" "probeId s' = probeId s" "resGridW s' = resGridW s"
    "resGridH s' = resGridH s" "harvestCellNeighbors s' = harvestCellNeighbors s"
    "systemIndex s' = systemIndex s" "systemInitialTotal s' = systemInitialTotal s"
    "systemRemainingTotal s' = systemRemainingTotal s" "probes s' = probes s"
    "length (resources s') = length (resources s)"
proof -
  have e: "s' = s\<lparr>resources := resources s', resourceActive := resourceActive s',
            resGrid := resGrid s'\<rparr>"
    using assms by (simp add: pool_frame_def)
  show "master s' = master s" by (subst e) simp
  show "probeId s' = probeId s" by (subst e) simp
  show "resGridW s' = resGridW s" by (subst e) simp
  show "resGridH s' = resGridH s" by (subst e) simp
  show "harvestCellNeighbors s' = harvestCellNeighbors s" by (subst e) simp
  show "systemIndex s' = systemIndex s" by (subst e) simp
  show "systemInitialTotal s' = systemInitialTotal s" by (subst e) simp
  show "systemRemainingTotal s' = systemRemainingTotal s" by (subst e) simp
  show "probes s' = probes s" by (subst e) simp
  show "length (resources s') = length (resources s)" using assms by (simp add: pool_frame_def)
qed

lemma pool_frame_amt:
  assumes "pool_frame s s'"
  shows "map amt (resources s') = map amt (resources s)"
proof (rule nth_equalityI)
  show "length (map amt (resources s')) = length (map amt (resources s))"
    using assms by (simp add: pool_frame_def)
  fix j assume "j < length (map amt (resources s'))"
  then have j: "j < length (resources s)" using assms by (simp add: pool_frame_def)
  then have "same_payload (resources s ! j) (resources s' ! j)"
    using assms by (simp add: pool_frame_def)
  then show "map amt (resources s') ! j = map amt (resources s) ! j"
    using j assms by (simp add: pool_frame_def same_payload_def)
qed

lemma harvestFrom_cases:
  assumes "harvestFrom dt ridx i s = Some s'"
  shows "s' = s \<or>
     (ridx < length (resources s) \<and> 1 / 1000 < amt (resources s ! ridx)
      \<and> harvest_frame s s'
      \<and> systemRemainingTotal s' = max 0 (systemRemainingTotal s
            - min (amt (resources s ! ridx)) (harvestRate (genes (probes s ! i)) * dt))
      \<and> map amt (resources s') = (map amt (resources s))
            [ridx := snap (amt (resources s ! ridx)
               - min (amt (resources s ! ridx)) (harvestRate (genes (probes s ! i)) * dt))])"
proof (cases "ridx < length (resources s) \<and> 1 / 1000 < amt (resources s ! ridx)")
  case False
  have "harvestFrom dt ridx i s = Some s"
  proof (cases "length (resources s) \<le> ridx")
    case True
    then show ?thesis unfolding harvestFrom_def by (simp only: if_True)
  next
    case g1: False
    then have g2: "amt (resources s ! ridx) \<le> 1 / 1000" using False by simp
    show ?thesis unfolding harvestFrom_def Let_def by (simp only: g1 g2 if_True if_False)
  qed
  then show ?thesis using assms by simp
next
  case True
  define r where "r = resources s ! ridx"
  define this where "this = probes s ! i"
  define take where "take = min (amt r) (harvestRate (genes this) * dt)"
  define r1 where "r1 = r\<lparr>amt := amt r - take\<rparr>"
  define s1 where "s1 = s\<lparr>resources := (resources s)[ridx := r1],
      probes := (probes s)[i := this\<lparr>carried := carried this + take\<rparr>],
      systemRemainingTotal := max 0 (systemRemainingTotal s - take)\<rparr>"
  define s1z where "s1z = s1\<lparr>resources := (resources s1)[ridx := r1\<lparr>amt := 0\<rparr>]\<rparr>"
  have unf: "harvestFrom dt ridx i s =
      (if amt r1 \<le> 1 / 1000
       then (case deactivateResource ridx s1z of
               None \<Rightarrow> None
             | Some s2 \<Rightarrow>
                 Some (if target (probes s2 ! i) = int ridx
                       then s2\<lparr>probes := (probes s2)[i := (probes s2 ! i)\<lparr>target := - 1\<rparr>]\<rparr>
                       else s2))
       else Some s1)"
  proof -
    have g1: "\<not> length (resources s) \<le> ridx" using True by simp
    have g2: "\<not> amt (resources s ! ridx) \<le> 1 / 1000" using True by simp
    show ?thesis
      unfolding harvestFrom_def Let_def s1z_def s1_def r1_def take_def this_def r_def
      by (simp only: g1 g2 if_False)
  qed
  have cargo1: "same_but_cargo (probes s ! j) (probes s1 ! j)" if "j < length (probes s)" for j
    unfolding s1_def using that
    by (cases "j = i") (simp_all add: same_but_cargo_def this_def)
  have hf1: "harvest_frame s s1"
    unfolding harvest_frame_def using cargo1 by (simp add: s1_def)
  have rem1: "systemRemainingTotal s1 = max 0 (systemRemainingTotal s - take)"
    by (simp add: s1_def)
  have amt1: "map amt (resources s1) = (map amt (resources s))[ridx := amt r - take]"
    by (simp add: s1_def map_update r1_def)
  show ?thesis
  proof (cases "amt r1 \<le> 1 / 1000")
    case False
    have "harvestFrom dt ridx i s = Some s1" by (simp only: unf False if_False)
    then have e: "s' = s1" using assms by simp
    have sn: "snap (amt r - take) = amt r - take"
      using False by (simp add: snap_def r1_def)
    have "ridx < length (resources s) \<and> 1 / 1000 < amt (resources s ! ridx)
      \<and> harvest_frame s s'
      \<and> systemRemainingTotal s' = max 0 (systemRemainingTotal s - take)
      \<and> map amt (resources s') = (map amt (resources s))[ridx := snap (amt r - take)]"
      unfolding e sn using True hf1 rem1 amt1 by blast
    then show ?thesis unfolding take_def r_def this_def by blast
  next
    case snapc: True
    have unf2: "harvestFrom dt ridx i s =
        (case deactivateResource ridx s1z of
               None \<Rightarrow> None
             | Some s2 \<Rightarrow>
                 Some (if target (probes s2 ! i) = int ridx
                       then s2\<lparr>probes := (probes s2)[i := (probes s2 ! i)\<lparr>target := - 1\<rparr>]\<rparr>
                       else s2))"
      by (simp only: unf snapc if_True)
    obtain s2 where d: "deactivateResource ridx s1z = Some s2"
      using assms unfolding unf2 by (cases "deactivateResource ridx s1z") simp_all
    have e: "s' = (if target (probes s2 ! i) = int ridx
                       then s2\<lparr>probes := (probes s2)[i := (probes s2 ! i)\<lparr>target := - 1\<rparr>]\<rparr>
                       else s2)"
      using assms unfolding unf2 d by simp
    note pf = deactivateResource_frame[OF d]
    note f = pool_frame_fields[OF pf]
    have z: "master s1z = master s1" "probeId s1z = probeId s1" "resGridW s1z = resGridW s1"
      "resGridH s1z = resGridH s1" "harvestCellNeighbors s1z = harvestCellNeighbors s1"
      "systemIndex s1z = systemIndex s1" "systemInitialTotal s1z = systemInitialTotal s1"
      "systemRemainingTotal s1z = systemRemainingTotal s1" "probes s1z = probes s1"
      "length (resources s1z) = length (resources s1)"
      by (simp_all add: s1z_def)
    have amtz: "map amt (resources s1z) = (map amt (resources s))[ridx := 0]"
      by (simp add: s1z_def s1_def map_update)
    have hf2: "harvest_frame s1 s2"
      unfolding harvest_frame_def using f z by simp
    have cargo3: "same_but_cargo (probes s2 ! j) (probes s' ! j)" if "j < length (probes s2)" for j
      unfolding e using that by (cases "j = i") (simp_all add: same_but_cargo_def)
    have hf3: "harvest_frame s2 s'"
      unfolding harvest_frame_def using cargo3 by (simp add: e)
    have hf: "harvest_frame s s'"
      using harvest_frame_trans[OF hf1 harvest_frame_trans[OF hf2 hf3]] .
    have rem: "systemRemainingTotal s' = max 0 (systemRemainingTotal s - take)"
      using rem1 f(8) z(8) by (simp add: e)
    have "map amt (resources s') = map amt (resources s2)" by (simp add: e)
    also have "\<dots> = map amt (resources s1z)" by (rule pool_frame_amt[OF pf])
    also have "\<dots> = (map amt (resources s))[ridx := snap (amt r - take)]"
      using amtz snapc by (simp add: snap_def r1_def)
    finally have am: "map amt (resources s')
        = (map amt (resources s))[ridx := snap (amt r - take)]" .
    have "ridx < length (resources s) \<and> 1 / 1000 < amt (resources s ! ridx)
      \<and> harvest_frame s s'
      \<and> systemRemainingTotal s' = max 0 (systemRemainingTotal s - take)
      \<and> map amt (resources s') = (map amt (resources s))[ridx := snap (amt r - take)]"
      using True hf rem am by blast
    then show ?thesis unfolding take_def r_def this_def by blast
  qed
qed

lemma sum_list_upd_rat:
  fixes xs :: "rat list"
  shows "k < length xs \<Longrightarrow> sum_list (xs[k := x]) = sum_list xs - xs ! k + x"
  by (induction xs arbitrary: k) (auto split: nat.splits)

lemma count_upd:
  "k < length xs \<Longrightarrow>
    length (filter P (xs[k := x])) + (if P (xs ! k) then 1 else 0)
      = length (filter P xs) + (if P x then 1 else 0)"
proof (induction xs arbitrary: k)
  case Nil
  then show ?case by simp
next
  case (Cons a xs)
  show ?case
  proof (cases k)
    case 0
    then show ?thesis by simp
  next
    case (Suc n)
    then have "n < length xs" using Cons.prems by simp
    from Cons.IH[OF this] show ?thesis unfolding Suc by simp
  qed
qed

lemma zeros_upd:
  fixes xs :: "rat list"
  assumes "k < length xs"
  shows "rat_of_nat (length (filter (\<lambda>a. a = 0) (xs[k := x])))
      = rat_of_nat (length (filter (\<lambda>a. a = 0) xs))
        - (if xs ! k = 0 then 1 else 0) + (if x = 0 then 1 else 0)"
proof -
  have "rat_of_nat (length (filter (\<lambda>a. a = 0) (xs[k := x])) + (if xs ! k = 0 then 1 else 0))
      = rat_of_nat (length (filter (\<lambda>a. a = 0) xs) + (if x = 0 then 1 else 0))"
    using count_upd[OF assms, of "\<lambda>a. a = 0" x] by simp
  then show ?thesis by (simp split: if_splits)
qed

lemma nth_le_sum_list_rat:
  fixes xs :: "rat list"
  shows "\<forall>a \<in> set xs. 0 \<le> a \<Longrightarrow> k < length xs \<Longrightarrow> xs ! k \<le> sum_list xs"
proof (induction xs arbitrary: k)
  case Nil
  then show ?case by simp
next
  case (Cons a xs)
  have s0: "0 \<le> sum_list xs" using Cons.prems(1) by (simp add: sum_list_nonneg)
  have a0: "0 \<le> a" using Cons.prems(1) by simp
  show ?case
  proof (cases k)
    case 0
    then show ?thesis using s0 by simp
  next
    case (Suc n)
    then have "n < length xs" using Cons.prems by simp
    then have "xs ! n \<le> sum_list xs" using Cons.IH Cons.prems(1) by simp
    then show ?thesis unfolding Suc using a0 by simp
  qed
qed

lemma amounts_step:
  fixes xs :: "rat list" and h rem :: rat
  assumes nn: "\<forall>a \<in> set xs. 0 \<le> a"
    and lo: "sum_list xs \<le> rem"
    and hi: "rem \<le> sum_list xs + (1 / 1000) * rat_of_nat (length (filter (\<lambda>a. a = 0) xs))"
    and k: "k < length xs" and big: "1 / 1000 < xs ! k"
  defines "amount \<equiv> min (xs ! k) h"
  defines "xs' \<equiv> xs[k := snap (xs ! k - amount)]"
  defines "rem' \<equiv> max 0 (rem - amount)"
  shows "(\<forall>a \<in> set xs'. 0 \<le> a) \<and> sum_list xs' \<le> rem'
    \<and> rem' \<le> sum_list xs' + (1 / 1000) * rat_of_nat (length (filter (\<lambda>a. a = 0) xs'))"
proof -
  define a' where "a' = xs ! k - amount"
  have tle: "amount \<le> xs ! k" unfolding amount_def by simp
  then have a0: "0 \<le> a'" unfolding a'_def by simp
  have sn: "0 \<le> snap a'" using a0 by (simp add: snap_def)
  have s': "sum_list xs' = sum_list xs - xs ! k + snap a'"
    unfolding xs'_def a'_def using sum_list_upd_rat[OF k] by simp
  define Z where "Z = rat_of_nat (length (filter (\<lambda>a. a = 0) xs))"
  define Z' where "Z' = rat_of_nat (length (filter (\<lambda>a. a = 0) xs'))"
  have z': "Z' = Z + (if snap a' = 0 then 1 else 0)"
    unfolding Z'_def Z_def xs'_def a'_def using zeros_upd[OF k] big by simp
  have hi': "rem \<le> sum_list xs + (1 / 1000) * Z" using hi unfolding Z_def .
  have kle: "xs ! k \<le> sum_list xs" using nth_le_sum_list_rat[OF nn k] .
  have nn': "\<forall>a \<in> set xs'. 0 \<le> a"
  proof
    fix a assume "a \<in> set xs'"
    then have "a = snap a' \<or> a \<in> set xs"
      unfolding xs'_def a'_def using set_update_subset_insert[of xs k] by auto
    then show "0 \<le> a" using sn nn by auto
  qed
  have r0: "0 \<le> rem - amount" using lo kle tle by linarith
  then have r': "rem' = rem - amount" unfolding rem'_def by simp
  show ?thesis
  proof (cases "a' \<le> 1 / 1000")
    case True
    then have e: "snap a' = 0" by (simp add: snap_def)
    have "sum_list xs' \<le> rem'" unfolding s' e r' using lo tle by linarith
    moreover have "rem' \<le> sum_list xs' + (1 / 1000) * Z'"
    proof -
      have t: "xs ! k - amount \<le> 1 / 1000" using True unfolding a'_def .
      have "Z' = Z + 1" using z' e by simp
      then have "(1 / 1000) * Z' = (1 / 1000) * Z + 1 / 1000" by (simp add: algebra_simps)
      then show ?thesis unfolding s' e r' using hi' t by linarith
    qed
    ultimately show ?thesis using nn' unfolding Z'_def by simp
  next
    case False
    then have e: "snap a' = a'" "snap a' \<noteq> 0" by (simp_all add: snap_def)
    have "sum_list xs' \<le> rem'" unfolding s' e(1) r' unfolding a'_def using lo by linarith
    moreover have "rem' \<le> sum_list xs' + (1 / 1000) * Z'"
    proof -
      have "Z' = Z" using z' e by simp
      then show ?thesis unfolding s' e(1) r' unfolding a'_def using hi' by linarith
    qed
    ultimately show ?thesis using nn' unfolding Z'_def by simp
  qed
qed

lemma pool_total_amounts:
  "pool_total s \<longleftrightarrow>
     (\<forall>a \<in> set (map amt (resources s)). 0 \<le> a)
     \<and> sum_list (map amt (resources s)) \<le> systemRemainingTotal s
     \<and> systemRemainingTotal s
          \<le> sum_list (map amt (resources s))
            + (1 / 1000) * rat_of_nat (length (filter (\<lambda>a. a = 0) (map amt (resources s))))"
proof -
  have "filter (\<lambda>a. a = 0) (map amt (resources s))
      = map amt (filter (\<lambda>r. amt r = 0) (resources s))"
    by (simp add: filter_map comp_def)
  then have "length (filter (\<lambda>a. a = 0) (map amt (resources s)))
      = length (filter (\<lambda>r. amt r = 0) (resources s))"
    by simp
  then show ?thesis unfolding pool_total_def by (simp add: list_all_iff)
qed

lemma harvestFrom_pool_total:
  assumes "harvestFrom dt ridx i s = Some s'" and "pool_total s"
  shows "pool_total s'"
proof -
  from harvestFrom_cases[OF assms(1)]
  consider "s' = s"
    | "ridx < length (resources s)" "1 / 1000 < amt (resources s ! ridx)"
      "systemRemainingTotal s' = max 0 (systemRemainingTotal s
            - min (amt (resources s ! ridx)) (harvestRate (genes (probes s ! i)) * dt))"
      "map amt (resources s') = (map amt (resources s))
            [ridx := snap (amt (resources s ! ridx)
               - min (amt (resources s ! ridx)) (harvestRate (genes (probes s ! i)) * dt))]"
    by blast
  then show ?thesis
  proof cases
    case 1
    then show ?thesis using assms(2) by simp
  next
    case 2
    define xs where "xs = map amt (resources s)"
    have k: "ridx < length xs" "xs ! ridx = amt (resources s ! ridx)"
      using 2(1) unfolding xs_def by simp_all
    have p: "\<forall>a \<in> set xs. 0 \<le> a" "sum_list xs \<le> systemRemainingTotal s"
      "systemRemainingTotal s
          \<le> sum_list xs + (1 / 1000) * rat_of_nat (length (filter (\<lambda>a. a = 0) xs))"
      using assms(2) unfolding pool_total_amounts xs_def by simp_all
    have b: "1 / 1000 < xs ! ridx" using 2(2) k(2) by simp
    from amounts_step[OF p k(1) b, of "harvestRate (genes (probes s ! i)) * dt"]
    show ?thesis
      unfolding pool_total_amounts[of s'] 2(3,4) xs_def[symmetric] k(2)[symmetric]
      by simp
  qed
qed

lemma harvestFrom_frame:
  assumes "harvestFrom dt ridx i s = Some s'"
  shows "harvest_frame s s'"
  using harvestFrom_cases[OF assms] by auto

lemma harvest_cases:
  assumes "harvest dt i s = Some s'"
  shows "\<exists>s1. harvest_frame s s1 \<and> resources s1 = resources s
           \<and> systemRemainingTotal s1 = systemRemainingTotal s
           \<and> (s' = s1 \<or> (\<exists>ridx. harvestFrom dt ridx i s1 = Some s'))"
proof -
  define this where "this = probes s ! i"
  define live where "live \<longleftrightarrow> 0 \<le> target this \<and> nat (target this) < length (resources s)
      \<and> amt (resources s ! nat (target this)) > 1 / 1000"
  define s1 where "s1 = (if 0 \<le> target this \<and> \<not> live
      then s\<lparr>probes := (probes s)[i := this\<lparr>target := - 1\<rparr>]\<rparr> else s)"
  define ci where "ci = cellIndexForPos s1 (px this) (py this)"
  have unf: "harvest dt i s =
     (if dead this \<or> dt \<le> 0 then Some s
      else if resourceActive s = [] then Some s
      else if live \<and> touches this (resources s ! nat (target this))
      then harvestFrom dt (nat (target this)) i s
      else if ci < 0 \<or> ci \<ge> int (length (harvestCellNeighbors s1)) then None
      else (case scan_neigh s1 this (harvestCellNeighbors s1 ! nat ci) of
              None \<Rightarrow> None
            | Some (best, bestD2) \<Rightarrow>
                if 0 \<le> best then harvestFrom dt (nat best) i s1 else Some s1))"
    unfolding harvest_def Let_def ci_def s1_def live_def this_def by simp
  have c1: "same_but_cargo (probes s ! j) (probes s1 ! j)" if "j < length (probes s)" for j
    unfolding s1_def using that
    by (cases "j = i") (simp_all add: same_but_cargo_def this_def)
  have f1: "harvest_frame s s1"
    unfolding harvest_frame_def using c1 by (simp add: s1_def)
  have r1: "resources s1 = resources s" "systemRemainingTotal s1 = systemRemainingTotal s"
    by (simp_all add: s1_def)
  show ?thesis
  proof (cases "dead this \<or> dt \<le> 0 \<or> resourceActive s = []")
    case True
    then have "harvest dt i s = Some s" unfolding unf by (simp only: if_True split: if_splits) auto
    then have "s' = s" using assms by simp
    then show ?thesis by (intro exI[of _ s]) simp
  next
    case g: False
    show ?thesis
    proof (cases "live \<and> touches this (resources s ! nat (target this))")
      case True
      then have "harvest dt i s = harvestFrom dt (nat (target this)) i s"
        unfolding unf using g by simp
      then have "harvestFrom dt (nat (target this)) i s = Some s'" using assms by simp
      then show ?thesis by (intro exI[of _ s]) auto
    next
      case False
      have u2: "harvest dt i s =
          (if ci < 0 \<or> ci \<ge> int (length (harvestCellNeighbors s1)) then None
           else (case scan_neigh s1 this (harvestCellNeighbors s1 ! nat ci) of
              None \<Rightarrow> None
            | Some (best, bestD2) \<Rightarrow>
                if 0 \<le> best then harvestFrom dt (nat best) i s1 else Some s1))"
      proof -
        have g1: "\<not> (dead this \<or> dt \<le> 0)" and g2: "\<not> resourceActive s = []"
          using g by simp_all
        show ?thesis unfolding unf by (simp only: g1 g2 False if_False)
      qed
      then obtain best bestD2 where
        "harvest dt i s = (if 0 \<le> best then harvestFrom dt (nat best) i s1 else Some s1)"
        using assms by (auto split: if_splits option.splits)
      then have "s' = s1 \<or> harvestFrom dt (nat best) i s1 = Some s'"
        using assms by (auto split: if_splits)
      then show ?thesis using f1 r1 by (intro exI[of _ s1]) auto
    qed
  qed
qed

lemma pool_total_cong:
  "resources s1 = resources s \<Longrightarrow> systemRemainingTotal s1 = systemRemainingTotal s \<Longrightarrow>
   pool_total s1 = pool_total s"
  by (simp add: pool_total_def)

lemma harvest_frame':
  assumes "harvest dt i s = Some s'"
  shows "harvest_frame s s'"
proof -
  from harvest_cases[OF assms] obtain s1 where
    f: "harvest_frame s s1" and c: "s' = s1 \<or> (\<exists>ridx. harvestFrom dt ridx i s1 = Some s')"
    by blast
  from c have "harvest_frame s1 s'" using harvestFrom_frame by auto
  with f show ?thesis by (rule harvest_frame_trans)
qed

lemma harvest_pool_total:
  assumes "harvest dt i s = Some s'" and "pool_total s"
  shows "pool_total s'"
proof -
  from harvest_cases[OF assms(1)] obtain s1 where
    r: "resources s1 = resources s" "systemRemainingTotal s1 = systemRemainingTotal s"
    and c: "s' = s1 \<or> (\<exists>ridx. harvestFrom dt ridx i s1 = Some s')"
    by blast
  have "pool_total s1" using pool_total_cong[OF r] assms(2) by simp
  then show ?thesis using c harvestFrom_pool_total by auto
qed

termination harvest_loop
proof (relation "measure (\<lambda>(dt, i, s). length (probes s) - i)")
  show "wf (measure (\<lambda>(dt, i, s). length (probes s) - i))" by simp
next
  fix dt :: rat and i :: nat and s x2 :: sim
  assume a: "i < length (probes s)" "harvest dt i s = Some x2"
  have "length (probes x2) = length (probes s)"
    using harvest_frame'[OF a(2)] by (simp add: harvest_frame_def)
  then show "((dt, i + 1, x2), dt, i, s) \<in> measure (\<lambda>(dt, i, s). length (probes s) - i)"
    using a(1) by simp
qed

declare harvest_loop.simps [simp del]

lemma tryAutoReplicate_length:
  "length (probes (tryAutoReplicate dt env i s)) = length (probes s)
   \<or> (length (probes s) < HARD_PROBE_CAP
       \<and> length (probes (tryAutoReplicate dt env i s)) = length (probes s) + 1)"
proof (cases "tryAutoReplicate dt env i s = s")
  case True
  then show ?thesis by simp
next
  case False
  with tryAutoReplicate_cases[of dt env i s]
  have n: "replicateP replicateCost env i s \<noteq> s"
    and e: "tryAutoReplicate dt env i s =
      (replicateP replicateCost env i s)\<lparr>probes :=
         (probes (replicateP replicateCost env i s))
           [i := (probes (replicateP replicateCost env i s) ! i)\<lparr>replCooldown := cooldown env\<rparr>]\<rparr>"
    by blast+
  from replicateP_cases[of replicateCost env i s] n
  have "length (probes s) < HARD_PROBE_CAP"
    "length (probes (replicateP replicateCost env i s)) = length (probes s) + 1"
    by auto
  then show ?thesis by (subst (2) e) simp
qed

termination replicate_loop
proof (relation "measure (\<lambda>(dt, env, i, s).
    2 * (HARD_PROBE_CAP - length (probes s)) + (length (probes s) - i))")
  show "wf (measure (\<lambda>(dt, env, i, s).
    2 * (HARD_PROBE_CAP - length (probes s)) + (length (probes s) - i)))" by simp
next
  fix dt :: rat and env :: "nat \<Rightarrow> repl_env" and i :: nat and s :: sim
  assume a: "i < length (probes s)"
  show "((dt, env, i + 1, tryAutoReplicate dt (env i) i s), dt, env, i, s)
      \<in> measure (\<lambda>(dt, env, i, s).
          2 * (HARD_PROBE_CAP - length (probes s)) + (length (probes s) - i))"
    using tryAutoReplicate_length[of dt "env i" i s] a by auto
qed

declare replicate_loop.simps [simp del]

section \<open>Properties of the master state machine\<close>

lemma harvest_loop_frame:
  "harvest_loop dt i s = Some s' \<Longrightarrow> harvest_frame s s'"
proof (induction dt i s rule: harvest_loop.induct)
  case (1 dt i s)
  show ?case
  proof (cases "i < length (probes s)")
    case False
    then have "s' = s" using "1.prems" by (subst (asm) harvest_loop.simps) simp
    then show ?thesis by simp
  next
    case True
    then obtain s1 where h: "harvest dt i s = Some s1"
      and l: "harvest_loop dt (i + 1) s1 = Some s'"
      using "1.prems" by (subst (asm) harvest_loop.simps) (auto split: option.splits)
    from harvest_frame'[OF h] "1.IH"[OF True h l] show ?thesis
      by (rule harvest_frame_trans)
  qed
qed

lemma harvest_loop_pool_total:
  "harvest_loop dt i s = Some s' \<Longrightarrow> pool_total s \<Longrightarrow> pool_total s'"
proof (induction dt i s rule: harvest_loop.induct)
  case (1 dt i s)
  show ?case
  proof (cases "i < length (probes s)")
    case False
    then have "s' = s" using "1.prems"(1) by (subst (asm) harvest_loop.simps) simp
    then show ?thesis using "1.prems"(2) by simp
  next
    case True
    then obtain s1 where h: "harvest dt i s = Some s1"
      and l: "harvest_loop dt (i + 1) s1 = Some s'"
      using "1.prems"(1) by (subst (asm) harvest_loop.simps) (auto split: option.splits)
    from "1.IH"[OF True h l harvest_pool_total[OF h "1.prems"(2)]] show ?thesis .
  qed
qed

lemma tryAutoReplicate_frame: "repl_frame s (tryAutoReplicate dt env i s)"
proof (cases "tryAutoReplicate dt env i s = s")
  case True
  then show ?thesis by (simp add: repl_frame_def)
next
  case False
  with tryAutoReplicate_cases[of dt env i s]
  have n: "replicateP replicateCost env i s \<noteq> s"
    and e: "tryAutoReplicate dt env i s =
      (replicateP replicateCost env i s)\<lparr>probes :=
         (probes (replicateP replicateCost env i s))
           [i := (probes (replicateP replicateCost env i s) ! i)\<lparr>replCooldown := cooldown env\<rparr>]\<rparr>"
    by blast+
  from replicateP_cases[of replicateCost env i s] n
  obtain ps where "replicateP replicateCost env i s = s\<lparr>probes := ps, probeId := probeId s + 1\<rparr>"
    by blast
  then show ?thesis by (subst e) (simp add: repl_frame_def)
qed

lemma replicate_loop_frame: "repl_frame s (replicate_loop dt env i s)"
proof (induction dt env i s rule: replicate_loop.induct)
  case (1 dt env i s)
  show ?case
  proof (cases "i < length (probes s)")
    case False
    then show ?thesis by (subst replicate_loop.simps) (simp add: repl_frame_def)
  next
    case True
    have "repl_frame s (tryAutoReplicate dt (env i) i s)" by (rule tryAutoReplicate_frame)
    moreover have "repl_frame (tryAutoReplicate dt (env i) i s)
        (replicate_loop dt env (i + 1) (tryAutoReplicate dt (env i) i s))"
      by (rule "1.IH"[OF True])
    ultimately have "repl_frame s (replicate_loop dt env (i + 1) (tryAutoReplicate dt (env i) i s))"
      by (simp add: repl_frame_def)
    then show ?thesis using True by (subst replicate_loop.simps) simp
  qed
qed

lemma before_master_master:
  assumes "before_master dt env s = Some s3"
  shows "master s3 = master s"
proof -
  define s1 where "s1 = s\<lparr>probes := map (\<lambda>i. update dt (damp env) (kin env i) (master s)
      (probes s ! i)) [0 ..< length (probes s)]\<rparr>"
  obtain s2 where h: "harvest_loop dt 0 s1 = Some s2"
    and e: "s3 = (if mstate (master s2) = NORMAL then replicate_loop dt (repl env) 0 s2 else s2)"
    using assms unfolding before_master_def Let_def s1_def[symmetric]
    by (auto split: option.splits)
  have "master s2 = master s1" using harvest_loop_frame[OF h] by (simp add: harvest_frame_def)
  moreover have "master s1 = master s" by (simp add: s1_def)
  moreover have "master s3 = master s2"
    unfolding e using replicate_loop_frame[of s2 dt "repl env" 0] by (simp add: repl_frame_def)
  ultimately show ?thesis by simp
qed

lemma before_master_pool_total:
  assumes "before_master dt env s = Some s3" and "pool_total s"
  shows "pool_total s3"
proof -
  define s1 where "s1 = s\<lparr>probes := map (\<lambda>i. update dt (damp env) (kin env i) (master s)
      (probes s ! i)) [0 ..< length (probes s)]\<rparr>"
  obtain s2 where h: "harvest_loop dt 0 s1 = Some s2"
    and e: "s3 = (if mstate (master s2) = NORMAL then replicate_loop dt (repl env) 0 s2 else s2)"
    using assms(1) unfolding before_master_def Let_def s1_def[symmetric]
    by (auto split: option.splits)
  have "pool_total s1" using assms(2) pool_total_cong[of s1 s] by (simp add: s1_def)
  then have "pool_total s2" using harvest_loop_pool_total[OF h] by simp
  moreover have "resources s3 = resources s2" "systemRemainingTotal s3 = systemRemainingTotal s2"
    unfolding e using replicate_loop_frame[of s2 dt "repl env" 0] by (simp_all add: repl_frame_def)
  ultimately show ?thesis using pool_total_cong[of s3 s2] by simp
qed

lemma mstate_startRally: "mstate (master (startRally env s)) = RALLY"
  by (simp add: startRally_def Let_def)

lemma mstate_purgeSacrificed: "mstate (master (purgeSacrificed s)) = mstate (master s)"
  by (simp add: purgeSacrificed_def Let_def)

lemma masterUpdate_normal:
  assumes "mstate (master s) = NORMAL" and "0 < dt"
  shows "masterUpdate dt env s =
    Some (if depletion_reached s \<and> 1 \<le> length (probes s) then startRally env s else s)"
  using assms unfolding masterUpdate_def depletion_reached_def Let_def by auto

lemma simStep_normal:
  assumes n: "mstate (master s) = NORMAL" and dt: "0 < dt"
    and st: "simStep dt env s = Some s'"
  shows "\<exists>s3. before_master dt env s = Some s3 \<and> mstate (master s3) = NORMAL
      \<and> mstate (master s') = (if depletion_reached s3 \<and> 1 \<le> length (probes s3)
                                then RALLY else NORMAL)"
proof -
  obtain s3 s4 where b: "before_master dt env s = Some s3"
    and m: "masterUpdate dt env s3 = Some s4" and p: "s' = purgeSacrificed s4"
    using st unfolding simStep_def by (auto split: option.splits)
  have n3: "mstate (master s3) = NORMAL" using before_master_master[OF b] n by simp
  have "s4 = (if depletion_reached s3 \<and> 1 \<le> length (probes s3) then startRally env s3 else s3)"
    using m masterUpdate_normal[OF n3 dt, of env] by simp
  then have "mstate (master s4) = (if depletion_reached s3 \<and> 1 \<le> length (probes s3)
                                then RALLY else NORMAL)"
    using n3 mstate_startRally by simp
  then show ?thesis using b n3 p mstate_purgeSacrificed by simp
qed

lemma run_stays_normal:
  assumes "mstate (master s) = NORMAL" and "0 < dt"
    and "run dt envs n s = Some sn" and "\<forall>k < n. \<not> triggered dt envs k s"
  shows "mstate (master sn) = NORMAL"
  using assms(3,4)
proof (induction n arbitrary: sn)
  case 0
  then show ?case using assms(1) by simp
next
  case (Suc n)
  from Suc.prems(1) obtain sm where r: "run dt envs n s = Some sm"
    and st: "simStep dt (envs n) sm = Some sn"
    by (auto split: option.splits)
  have nm: "mstate (master sm) = NORMAL" using Suc.IH[OF r] Suc.prems(2) by simp
  from simStep_normal[OF nm assms(2) st] obtain s3 where
    b: "before_master dt (envs n) sm = Some s3"
    and e: "mstate (master sn) = (if depletion_reached s3 \<and> 1 \<le> length (probes s3)
                                then RALLY else NORMAL)"
    by blast
  have "\<not> triggered dt envs n s" using Suc.prems(2) by simp
  then have "\<not> (depletion_reached s3 \<and> 1 \<le> length (probes s3))"
    unfolding triggered_def using r b by simp
  then show ?case using e by simp
qed

section \<open>The depletion trigger\<close>

lemma round_even_eqI:
  assumes "of_int k - 1 / 2 < x" and "x < of_int k + 1 / 2"
  shows "round_even x = k"
proof (cases "x < of_int k")
  case True
  then have f: "\<lfloor>x\<rfloor> = k - 1" using assms by (simp add: floor_eq_iff)
  have "1 / 2 < x - of_int (k - 1)" using assms by simp
  then show ?thesis unfolding round_even_def Let_def f by simp
next
  case False
  then have f: "\<lfloor>x\<rfloor> = k" using assms by (simp add: floor_eq_iff)
  have "x - of_int k < 1 / 2" using assms by simp
  then show ?thesis unfolding round_even_def Let_def f by simp
qed

lemma exponent_of_examples:
  "exponent_of (9 / 10) = - 1" "exponent_of (1 / 10) = - 4" "exponent_of (19 / 200) = - 4"
  "exponent_of (900719925474099 / 9007199254740992) = - 4"
  by (simp_all add: exponent_of.simps)

lemma round_even_examples:
  "round_even ((9 / 10) / pow2 (- 53)) = 8106479329266893"
  "round_even ((1 / 10) / pow2 (- 56)) = 7205759403792794"
  "round_even ((19 / 200) / pow2 (- 56)) = 6845471433603154"
  "round_even ((900719925474099 / 9007199254740992) / pow2 (- 56)) = 7205759403792792"
  by (rule round_even_eqI; simp add: pow2_def)+

text \<open>
  The literal \<open>0.90\<close> is the double \<open>8106479329266893 / 2^53\<close>, so \<open>1 - 0.90\<close> is
  \<open>900719925474099 / 2^53\<close> (the subtraction is exact), which is less than one tenth; the
  quotient \<open>10 / 100\<close> is the double nearest to one tenth, which is greater.
\<close>

lemma MASTER_TRIGGER_DEPLETION_value:
  "MASTER_TRIGGER_DEPLETION = 8106479329266893 / 9007199254740992"
  unfolding MASTER_TRIGGER_DEPLETION_def
  using round_even_examples
  by (simp add: round_double_def exponent_of_examples Let_def) (simp add: pow2_def)

lemma depletion_threshold:
  "round_double (1 - MASTER_TRIGGER_DEPLETION) = 900719925474099 / 9007199254740992"
  "round_double (1 - MASTER_TRIGGER_DEPLETION) < 1 / 10"
proof -
  show "round_double (1 - MASTER_TRIGGER_DEPLETION) = 900719925474099 / 9007199254740992"
    unfolding MASTER_TRIGGER_DEPLETION_value
    using round_even_examples
    by (simp add: round_double_def exponent_of_examples Let_def) (simp add: pow2_def)
  then show "round_double (1 - MASTER_TRIGGER_DEPLETION) < 1 / 10" by simp
qed

lemma round_double_examples:
  "round_double (10 / 100) = 3602879701896397 / 36028797018963968"
  "round_double (95 / 10 / 100) = 3422735716801577 / 36028797018963968"
  using round_even_examples
  by (simp_all add: round_double_def exponent_of_examples Let_def) (simp_all add: pow2_def)

text \<open>
  In \<open>NORMAL\<close> with a positive time step, \<open>masterUpdate\<close> calls \<open>startRally\<close> exactly when
  its test is true, and harvesting and replication leave the master state alone: if the
  test was false (or no probe existed) in each of the ticks \<open>0, ..., n - 1\<close>, the master is
  still \<open>NORMAL\<close> after them, and tick \<open>n\<close> ends in \<open>RALLY\<close> exactly when the test is true
  in it.
\<close>

lemma rally_on_first_tick_of_test:
  assumes "mstate (master s) = NORMAL" and "0 < dt"
    and "run dt envs (Suc n) s = Some s'" and "\<forall>k < n. \<not> triggered dt envs k s"
  shows "(\<exists>sn. run dt envs n s = Some sn \<and> mstate (master sn) = NORMAL)
     \<and> (triggered dt envs n s \<longrightarrow> mstate (master s') = RALLY)
     \<and> (\<not> triggered dt envs n s \<longrightarrow> mstate (master s') = NORMAL)"
proof -
  from assms(3) obtain sn where r: "run dt envs n s = Some sn"
    and st: "simStep dt (envs n) sn = Some s'"
    by (auto split: option.splits)
  have nm: "mstate (master sn) = NORMAL" using run_stays_normal[OF assms(1,2) r assms(4)] .
  from simStep_normal[OF nm assms(2) st] obtain s3 where
    b: "before_master dt (envs n) sn = Some s3"
    and e: "mstate (master s') = (if depletion_reached s3 \<and> 1 \<le> length (probes s3)
                                then RALLY else NORMAL)"
    by blast
  have t: "triggered dt envs n s \<longleftrightarrow> depletion_reached s3 \<and> 1 \<le> length (probes s3)"
    unfolding triggered_def using r b by simp
  show ?thesis using r nm e t by simp
qed

lemma before_master_single:
  assumes l: "length (probes s) = 1"
    and h: "harvest dt 0 (s\<lparr>probes := [update dt (damp env) (kin env 0) (master s)
                (probes s ! 0)]\<rparr>) = Some s2"
    and r: "mstate (master s2) = NORMAL \<longrightarrow> tryAutoReplicate dt (repl env 0) 0 s2 = s2"
  shows "before_master dt env s = Some s2"
proof -
  define s1 where "s1 = s\<lparr>probes := [update dt (damp env) (kin env 0) (master s)
                (probes s ! 0)]\<rparr>"
  have m: "s\<lparr>probes := map (\<lambda>i. update dt (damp env) (kin env i) (master s) (probes s ! i))
                              [0 ..< length (probes s)]\<rparr> = s1"
    unfolding s1_def l by simp
  have l1: "length (probes s1) = 1" by (simp add: s1_def)
  have l2: "length (probes s2) = 1"
    using harvest_frame'[OF h[folded s1_def]] l1 by (simp add: harvest_frame_def)
  have hl: "harvest_loop dt 0 s1 = Some s2"
    using h[folded s1_def] l1 l2
    by (subst harvest_loop.simps, simp, subst harvest_loop.simps, simp)
  have rl: "mstate (master s2) = NORMAL \<Longrightarrow> replicate_loop dt (repl env) 0 s2 = s2"
    using r l2 by (subst replicate_loop.simps, simp, subst replicate_loop.simps, simp)
  show ?thesis
    unfolding before_master_def Let_def m hl using rl by simp
qed

lemmas ex_tick_defs = ex_ten_def ex_ten1_def ex_ten2_def ex_tick_env_def ex_control_def
  ex_probe_def ex_resource_def ex_master_def ex_dna_def ex_env_def

lemma ex_ten_before: "before_master (1 / 50) ex_tick_env ex_ten = Some ex_ten1"
proof (rule before_master_single)
  show "length (probes ex_ten) = 1" by (simp add: ex_ten_def)
  show "harvest (1 / 50) 0 (ex_ten\<lparr>probes := [update (1 / 50) (damp ex_tick_env)
      (kin ex_tick_env 0) (master ex_ten) (probes ex_ten ! 0)]\<rparr>) = Some ex_ten1"
    by (simp add: ex_tick_defs update_def aiControl_def steer_def wrap01Fast_def Let_def
        WORLD_w_def WORLD_h_def harvest_def touches_def d2_to_def wrapDeltaFast_def
        PROBE_RADIUS_def TOUCH_PAD_def harvestFrom_def)
  show "mstate (master ex_ten1) = NORMAL \<longrightarrow>
      tryAutoReplicate (1 / 50) (repl ex_tick_env 0) 0 ex_ten1 = ex_ten1"
    by (simp add: ex_tick_defs tryAutoReplicate_def replicateCost_def HARD_PROBE_CAP_def)
qed

lemma ex_ten1_before: "before_master (1 / 50) ex_tick_env ex_ten1 = Some ex_ten2"
proof (rule before_master_single)
  show "length (probes ex_ten1) = 1" by (simp add: ex_ten1_def)
  show "harvest (1 / 50) 0 (ex_ten1\<lparr>probes := [update (1 / 50) (damp ex_tick_env)
      (kin ex_tick_env 0) (master ex_ten1) (probes ex_ten1 ! 0)]\<rparr>) = Some ex_ten2"
    by (simp add: ex_tick_defs update_def aiControl_def steer_def wrap01Fast_def Let_def
        WORLD_w_def WORLD_h_def harvest_def touches_def d2_to_def wrapDeltaFast_def
        PROBE_RADIUS_def TOUCH_PAD_def harvestFrom_def)
  show "mstate (master ex_ten2) = NORMAL \<longrightarrow>
      tryAutoReplicate (1 / 50) (repl ex_tick_env 0) 0 ex_ten2 = ex_ten2"
    by (simp add: ex_tick_defs tryAutoReplicate_def replicateCost_def HARD_PROBE_CAP_def)
qed

lemma ex_ten_totals:
  "systemRemainingTotal ex_ten1 = 10" "systemInitialTotal ex_ten1 = 100"
  "systemRemainingTotal ex_ten2 = 95 / 10" "systemInitialTotal ex_ten2 = 100"
  "length (probes ex_ten1) = 1" "length (probes ex_ten2) = 1"
  "mstate (master ex_ten) = NORMAL" "mstate (master ex_ten1) = NORMAL"
  "mstate (master ex_ten2) = NORMAL" "purgeSacrificed ex_ten1 = ex_ten1"
  by (simp_all add: ex_tick_defs purgeSacrificed_def)

lemma ex_ten_test: "\<not> depletion_reached ex_ten1" "depletion_reached ex_ten2"
  unfolding depletion_reached_def ex_ten_totals round_double_examples depletion_threshold(1)
  by simp_all

lemma ex_ten_step: "simStep (1 / 50) ex_tick_env ex_ten = Some ex_ten1"
  unfolding simStep_def ex_ten_before
  using masterUpdate_normal[of ex_ten1 "1 / 50" ex_tick_env] ex_ten_totals ex_ten_test
  by simp

lemma ex_ten1_step:
  "simStep (1 / 50) ex_tick_env ex_ten1
     = Some (purgeSacrificed (startRally ex_tick_env ex_ten2))"
  unfolding simStep_def ex_ten1_before
  using masterUpdate_normal[of ex_ten2 "1 / 50" ex_tick_env] ex_ten_totals ex_ten_test
  by simp

text \<open>
  Claim C4 fails in the code when the remaining total is exactly one tenth of the initial
  total.  In the first tick of \<open>ex_ten\<close> harvesting brings the remaining total to 10 of
  100, so the system is 90 percent depleted and one probe exists when \<open>masterUpdate\<close>
  runs; the test compares the double \<open>10 / 100\<close> with the double \<open>1 - 0.90\<close>, which is
  smaller, and the master stays in \<open>NORMAL\<close>.  The transition to \<open>RALLY\<close> occurs one tick
  later, at 9.5 of 100.
\<close>

theorem rally_late_at_ten_percent:
  "mstate (master ex_ten) = NORMAL
   \<and> before_master (1 / 50) ex_tick_env ex_ten = Some ex_ten1
   \<and> systemRemainingTotal ex_ten1 / systemInitialTotal ex_ten1 = 1 - 90 / 100
   \<and> length (probes ex_ten1) = 1
   \<and> masterUpdate (1 / 50) ex_tick_env ex_ten1 = Some ex_ten1
   \<and> simStep (1 / 50) ex_tick_env ex_ten = Some ex_ten1
   \<and> mstate (master ex_ten1) = NORMAL
   \<and> simStep (1 / 50) ex_tick_env ex_ten1
       = Some (purgeSacrificed (startRally ex_tick_env ex_ten2))
   \<and> mstate (master (purgeSacrificed (startRally ex_tick_env ex_ten2))) = RALLY"
proof -
  have m: "masterUpdate (1 / 50) ex_tick_env ex_ten1 = Some ex_ten1"
    using masterUpdate_normal[of ex_ten1 "1 / 50" ex_tick_env] ex_ten_totals ex_ten_test
    by simp
  have q: "systemRemainingTotal ex_ten1 / systemInitialTotal ex_ten1 = 1 - 90 / 100"
    unfolding ex_ten_totals by simp
  have r: "mstate (master (purgeSacrificed (startRally ex_tick_env ex_ten2))) = RALLY"
    by (simp add: mstate_purgeSacrificed mstate_startRally)
  show ?thesis
    using ex_ten_totals(5,7,8) ex_ten_before q m ex_ten_step ex_ten1_step r by simp
qed

section \<open>Properties of the resource totals\<close>

lemma activateResource_frame:
  assumes "activateResource idx s = Some s'"
  shows "pool_frame s s'"
proof -
  define s0 where "s0 = s\<lparr>resources := (resources s)[idx := (resources s ! idx)
      \<lparr>active := True, activeIndex := int (length (resourceActive s))\<rparr>],
      resourceActive := resourceActive s @ [idx]\<rparr>"
  have g: "gridAddResource idx s0 = Some s'"
    using assms unfolding activateResource_def Let_def s0_def by (auto split: if_splits)
  have "same_payload (resources s ! j) (resources s0 ! j)" if "j < length (resources s)" for j
    unfolding s0_def using that
    by (cases "j = idx") (simp_all add: same_payload_def)
  then have "pool_frame s s0" unfolding pool_frame_def by (simp add: s0_def)
  with gridAddResource_frame[OF g] show ?thesis by (rule pool_frame_trans[rotated])
qed

lemma makeResource_fields:
  "amt (makeResource n k e) = maxAmt (makeResource n k e)"
  "\<not> active (makeResource n k e)" "gridCell (makeResource n k e) = - 1"
  by (simp_all add: makeResource_def Let_def)

lemma makeResource_amt: "0 \<le> u_amt e \<Longrightarrow> 0 \<le> amt (makeResource n k e)"
  by (simp add: makeResource_def Let_def rand_def)

lemma makeResource_in_world:
  assumes "res_env_ok e"
  shows "in_world (makeResource n k e)"
proof -
  have w: "0 < WORLD_w" "0 < WORLD_h" by (simp_all add: WORLD_w_def WORLD_h_def)
  have x: "0 \<le> rx (makeResource n k e) \<and> rx (makeResource n k e) < WORLD_w"
  proof (cases "use_cluster e")
    case True
    then show ?thesis using wrap01Fast_range[OF w(1)] by (simp add: makeResource_def Let_def)
  next
    case False
    have "0 \<le> WORLD_w * u_x e" "WORLD_w * u_x e < WORLD_w * 1"
      using assms w(1) unfolding res_env_ok_def by (simp_all del: mult_1_right)
    then show ?thesis using False by (simp add: makeResource_def Let_def rand_def)
  qed
  have y: "0 \<le> ry (makeResource n k e) \<and> ry (makeResource n k e) < WORLD_h"
  proof (cases "use_cluster e")
    case True
    then show ?thesis using wrap01Fast_range[OF w(2)] by (simp add: makeResource_def Let_def)
  next
    case False
    have "0 \<le> WORLD_h * u_y e" "WORLD_h * u_y e < WORLD_h * 1"
      using assms w(2) unfolding res_env_ok_def by (simp_all del: mult_1_right)
    then show ?thesis using False by (simp add: makeResource_def Let_def rand_def)
  qed
  show ?thesis using x y by (simp add: in_world_def)
qed

lemma spawn_one_frame:
  assumes "spawn_one n k e s = Some s'"
  shows "spawn_frame s s'"
    and "map amt (resources s') = map amt (resources s) @ [amt (makeResource n k e)]"
proof -
  define r where "r = makeResource n k e"
  define sa where "sa = s\<lparr>resources := resources s @ [r]\<rparr>"
  obtain s1 where a: "activateResource (length (resources s)) sa = Some s1"
    and e: "s' = s1\<lparr>systemInitialTotal := systemInitialTotal s1 + maxAmt r\<rparr>"
    using assms unfolding spawn_one_def Let_def r_def[symmetric] sa_def[symmetric]
    by (auto split: option.splits)
  note pf = activateResource_frame[OF a]
  note f = pool_frame_fields[OF pf]
  have am: "map amt (resources s1) = map amt (resources s) @ [amt r]"
    using pool_frame_amt[OF pf] by (simp add: sa_def)
  then show "map amt (resources s') = map amt (resources s) @ [amt (makeResource n k e)]"
    by (simp add: e r_def)
  have "amt r = maxAmt r" unfolding r_def by (rule makeResource_fields)
  then show "spawn_frame s s'"
    unfolding spawn_frame_def using f am by (simp add: e sa_def)
qed

lemma spawn_loop_frame:
  "spawn_loop k env ns s = Some s' \<Longrightarrow> spawn_frame s s'"
proof (induction ns arbitrary: s)
  case Nil
  then show ?case by (simp add: spawn_frame_def)
next
  case (Cons n ns)
  then obtain s1 where a: "spawn_one n k (env n) s = Some s1"
    and b: "spawn_loop k env ns s1 = Some s'"
    by (auto split: option.splits)
  from spawn_one_frame(1)[OF a] Cons.IH[OF b] show ?case
    by (simp add: spawn_frame_def)
qed

lemma spawn_loop_nonneg:
  "spawn_loop k env ns s = Some s' \<Longrightarrow> \<forall>n \<in> set ns. 0 \<le> u_amt (env n) \<Longrightarrow>
   \<forall>a \<in> set (map amt (resources s)). 0 \<le> a \<Longrightarrow>
   \<forall>a \<in> set (map amt (resources s')). 0 \<le> a"
proof (induction ns arbitrary: s)
  case Nil
  then show ?case by simp
next
  case (Cons n ns)
  then obtain s1 where a: "spawn_one n k (env n) s = Some s1"
    and b: "spawn_loop k env ns s1 = Some s'"
    by (auto split: option.splits)
  have "\<forall>a \<in> set (map amt (resources s1)). 0 \<le> a"
    unfolding spawn_one_frame(2)[OF a] using Cons.prems(2,3) makeResource_amt by auto
  from Cons.IH[OF b _ this] Cons.prems(2) show ?case by simp
qed

lemma grid_consistent_append:
  assumes gc: "grid_consistent s" and r: "gridCell r = - 1"
  shows "grid_consistent (s\<lparr>resources := resources s @ [r]\<rparr>)"
proof -
  let ?s = "s\<lparr>resources := resources s @ [r]\<rparr>"
  have c: "cellIndexForPos ?s x y = cellIndexForPos s x y" for x y
    by (rule cellIndexForPos_frame) simp_all
  have n: "resources ?s ! j = (if j < length (resources s) then resources s ! j else r)"
    if "j < length (resources ?s)" for j
    using that by (auto simp add: nth_append less_Suc_eq)
  have a: "0 < resGridW ?s \<and> 0 < resGridH ?s
           \<and> int (length (resGrid ?s)) = resGridW ?s * resGridH ?s"
    using gc unfolding grid_consistent_def by simp
  have b: "\<forall>ci < length (resGrid ?s). \<forall>gi < length (resGrid ?s ! ci).
          resGrid ?s ! ci ! gi < length (resources ?s)
          \<and> gridCell (resources ?s ! (resGrid ?s ! ci ! gi)) = int ci
          \<and> gridIndex (resources ?s ! (resGrid ?s ! ci ! gi)) = int gi"
  proof (intro allI impI)
    fix ci gi assume h: "ci < length (resGrid ?s)" "gi < length (resGrid ?s ! ci)"
    then have "resGrid s ! ci ! gi < length (resources s)
          \<and> gridCell (resources s ! (resGrid s ! ci ! gi)) = int ci
          \<and> gridIndex (resources s ! (resGrid s ! ci ! gi)) = int gi"
      using gc unfolding grid_consistent_def by simp
    then show "resGrid ?s ! ci ! gi < length (resources ?s)
          \<and> gridCell (resources ?s ! (resGrid ?s ! ci ! gi)) = int ci
          \<and> gridIndex (resources ?s ! (resGrid ?s ! ci ! gi)) = int gi"
      by (simp add: nth_append)
  qed
  have d: "\<forall>idx < length (resources ?s). 0 \<le> gridCell (resources ?s ! idx) \<longrightarrow>
          cellIndexForPos ?s (rx (resources ?s ! idx)) (ry (resources ?s ! idx))
            = gridCell (resources ?s ! idx)
          \<and> gridCell (resources ?s ! idx) < int (length (resGrid ?s))
          \<and> 0 \<le> gridIndex (resources ?s ! idx)
          \<and> gridIndex (resources ?s ! idx)
              < int (length (resGrid ?s ! nat (gridCell (resources ?s ! idx))))
          \<and> resGrid ?s ! nat (gridCell (resources ?s ! idx))
               ! nat (gridIndex (resources ?s ! idx)) = idx"
  proof (intro allI impI)
    fix idx assume h: "idx < length (resources ?s)" "0 \<le> gridCell (resources ?s ! idx)"
    have lt: "idx < length (resources s)"
    proof (rule ccontr)
      assume "\<not> idx < length (resources s)"
      then have "resources ?s ! idx = r" using n[OF h(1)] by simp
      with h(2) r show False by simp
    qed
    then have e: "resources ?s ! idx = resources s ! idx" by (simp add: nth_append)
    have "cellIndexForPos s (rx (resources s ! idx)) (ry (resources s ! idx))
            = gridCell (resources s ! idx)
          \<and> gridCell (resources s ! idx) < int (length (resGrid s))
          \<and> 0 \<le> gridIndex (resources s ! idx)
          \<and> gridIndex (resources s ! idx)
              < int (length (resGrid s ! nat (gridCell (resources s ! idx))))
          \<and> resGrid s ! nat (gridCell (resources s ! idx))
               ! nat (gridIndex (resources s ! idx)) = idx"
      using gc lt h(2) unfolding grid_consistent_def e by blast
    then show "cellIndexForPos ?s (rx (resources ?s ! idx)) (ry (resources ?s ! idx))
            = gridCell (resources ?s ! idx)
          \<and> gridCell (resources ?s ! idx) < int (length (resGrid ?s))
          \<and> 0 \<le> gridIndex (resources ?s ! idx)
          \<and> gridIndex (resources ?s ! idx)
              < int (length (resGrid ?s ! nat (gridCell (resources ?s ! idx))))
          \<and> resGrid ?s ! nat (gridCell (resources ?s ! idx))
               ! nat (gridIndex (resources ?s ! idx)) = idx"
      unfolding e c by simp
  qed
  show ?thesis unfolding grid_consistent_def using a b d by blast
qed

lemma active_consistent_append:
  assumes ac: "active_consistent s" and r: "gridCell r = - 1" "\<not> active r"
  shows "active_consistent (s\<lparr>resources := resources s @ [r]\<rparr>)"
proof -
  let ?s = "s\<lparr>resources := resources s @ [r]\<rparr>"
  have a: "\<forall>idx < length (resources ?s).
        active (resources ?s ! idx) \<longleftrightarrow> 0 \<le> gridCell (resources ?s ! idx)"
  proof (intro allI impI)
    fix idx assume h: "idx < length (resources ?s)"
    show "active (resources ?s ! idx) \<longleftrightarrow> 0 \<le> gridCell (resources ?s ! idx)"
    proof (cases "idx < length (resources s)")
      case True
      then show ?thesis using ac unfolding active_consistent_def by (simp add: nth_append)
    next
      case False
      then show ?thesis using h r by (simp add: nth_append)
    qed
  qed
  have b: "\<forall>ai < length (resourceActive ?s).
          resourceActive ?s ! ai < length (resources ?s)
          \<and> active (resources ?s ! (resourceActive ?s ! ai))
          \<and> activeIndex (resources ?s ! (resourceActive ?s ! ai)) = int ai"
  proof (intro allI impI)
    fix ai assume "ai < length (resourceActive ?s)"
    then have "ai < length (resourceActive s)" by simp
    then have "resourceActive s ! ai < length (resources s)
          \<and> active (resources s ! (resourceActive s ! ai))
          \<and> activeIndex (resources s ! (resourceActive s ! ai)) = int ai"
      using ac unfolding active_consistent_def by blast
    then show "resourceActive ?s ! ai < length (resources ?s)
          \<and> active (resources ?s ! (resourceActive ?s ! ai))
          \<and> activeIndex (resources ?s ! (resourceActive ?s ! ai)) = int ai"
      by (simp add: nth_append)
  qed
  have d: "\<forall>idx < length (resources ?s). active (resources ?s ! idx) \<longrightarrow>
          0 \<le> activeIndex (resources ?s ! idx)
          \<and> activeIndex (resources ?s ! idx) < int (length (resourceActive ?s))
          \<and> resourceActive ?s ! nat (activeIndex (resources ?s ! idx)) = idx"
  proof (intro allI impI)
    fix idx assume h: "idx < length (resources ?s)" "active (resources ?s ! idx)"
    have lt: "idx < length (resources s)"
    proof (rule ccontr)
      assume "\<not> idx < length (resources s)"
      then have "resources ?s ! idx = r" using h(1) by (simp add: nth_append)
      with h(2) r show False by simp
    qed
    then have e: "resources ?s ! idx = resources s ! idx" by (simp add: nth_append)
    have "0 \<le> activeIndex (resources s ! idx)
          \<and> activeIndex (resources s ! idx) < int (length (resourceActive s))
          \<and> resourceActive s ! nat (activeIndex (resources s ! idx)) = idx"
      using ac lt h(2) unfolding active_consistent_def e by blast
    then show "0 \<le> activeIndex (resources ?s ! idx)
          \<and> activeIndex (resources ?s ! idx) < int (length (resourceActive ?s))
          \<and> resourceActive ?s ! nat (activeIndex (resources ?s ! idx)) = idx"
      unfolding e by simp
  qed
  show ?thesis unfolding active_consistent_def using a b d by blast
qed

lemma active_consistent_cong:
  assumes "active_consistent s" "resources s' = resources s"
    "resourceActive s' = resourceActive s"
  shows "active_consistent s'"
  using assms(1) unfolding active_consistent_def assms(2,3) .

lemma grid_consistent_cong':
  assumes "grid_consistent s" "resources s' = resources s" "resGrid s' = resGrid s"
    "resGridW s' = resGridW s" "resGridH s' = resGridH s"
  shows "grid_consistent s'"
  using assms(1) by (rule grid_consistent_cong) (simp_all add: assms(2-))

lemma spawn_one_ok:
  assumes gc: "grid_consistent s" and ac: "active_consistent s" and e: "res_env_ok e"
  shows "\<exists>s'. spawn_one n k e s = Some s' \<and> grid_consistent s' \<and> active_consistent s'
           \<and> length (resources s') = Suc (length (resources s))"
proof -
  define r where "r = makeResource n k e"
  define sa where "sa = s\<lparr>resources := resources s @ [r]\<rparr>"
  have rf: "gridCell r = - 1" "\<not> active r" "in_world r"
    unfolding r_def by (simp_all add: makeResource_fields makeResource_in_world[OF e])
  have gca: "grid_consistent sa" unfolding sa_def by (rule grid_consistent_append[OF gc rf(1)])
  have aca: "active_consistent sa"
    unfolding sa_def by (rule active_consistent_append[OF ac rf(1,2)])
  have il: "length (resources s) < length (resources sa)" by (simp add: sa_def)
  have nth: "resources sa ! length (resources s) = r" by (simp add: sa_def)
  from activateResource_consistent[OF gca aca il] rf(2,3) nth
  obtain s1 where a: "activateResource (length (resources s)) sa = Some s1"
    and c: "grid_consistent s1" "active_consistent s1"
    and l: "length (resources s1) = length (resources sa)"
    by auto
  let ?s' = "s1\<lparr>systemInitialTotal := systemInitialTotal s1 + maxAmt r\<rparr>"
  have "spawn_one n k e s = Some ?s'"
    unfolding spawn_one_def Let_def r_def[symmetric] sa_def[symmetric] by (simp add: a)
  moreover have "grid_consistent ?s'" by (rule grid_consistent_cong'[OF c(1)]) simp_all
  moreover have "active_consistent ?s'" by (rule active_consistent_cong[OF c(2)]) simp_all
  moreover have "length (resources ?s') = Suc (length (resources s))"
    using l by (simp add: sa_def)
  ultimately show ?thesis by blast
qed

lemma spawn_loop_ok:
  "grid_consistent s \<Longrightarrow> active_consistent s \<Longrightarrow> \<forall>n \<in> set ns. res_env_ok (env n) \<Longrightarrow>
   \<exists>s'. spawn_loop k env ns s = Some s' \<and> grid_consistent s' \<and> active_consistent s'
        \<and> length (resources s') = length (resources s) + length ns"
proof (induction ns arbitrary: s)
  case Nil
  then show ?case by simp
next
  case (Cons n ns)
  from spawn_one_ok[OF Cons.prems(1,2), of "env n" n k] Cons.prems(3)
  obtain s1 where a: "spawn_one n k (env n) s = Some s1"
    and c: "grid_consistent s1" "active_consistent s1"
    and l: "length (resources s1) = Suc (length (resources s))"
    by auto
  from Cons.IH[OF c] Cons.prems(3)
  obtain s' where b: "spawn_loop k env ns s1 = Some s'"
    and c': "grid_consistent s'" "active_consistent s'"
    and l': "length (resources s') = length (resources s1) + length ns"
    by auto
  show ?case using a b c' l l' by simp
qed

lemma initResGrid_consistent:
  assumes "resources s = []" "resourceActive s = []"
  shows "grid_consistent (initResGrid s)" "active_consistent (initResGrid s)"
proof -
  have w: "\<lceil>WORLD_w / RES_CELL\<rceil> = 35" "\<lceil>WORLD_h / RES_CELL\<rceil> = 35"
    by (simp_all add: WORLD_w_def WORLD_h_def RES_CELL_def ceiling_eq_iff)
  show "grid_consistent (initResGrid s)"
    unfolding grid_consistent_def initResGrid_def Let_def w using assms by simp
  show "active_consistent (initResGrid s)"
    unfolding active_consistent_def initResGrid_def Let_def using assms by simp
qed

lemma initResGrid_fields:
  "resources (initResGrid s) = resources s" "resourceActive (initResGrid s) = resourceActive s"
  "systemInitialTotal (initResGrid s) = systemInitialTotal s"
  "systemRemainingTotal (initResGrid s) = systemRemainingTotal s"
  "master (initResGrid s) = master s" "probes (initResGrid s) = probes s"
  "probeId (initResGrid s) = probeId s" "systemIndex (initResGrid s) = systemIndex s"
  by (simp_all add: initResGrid_def Let_def)

lemma buildNeighborLists_fields:
  "resources (buildNeighborLists s) = resources s"
  "resourceActive (buildNeighborLists s) = resourceActive s"
  "resGrid (buildNeighborLists s) = resGrid s"
  "resGridW (buildNeighborLists s) = resGridW s" "resGridH (buildNeighborLists s) = resGridH s"
  "systemInitialTotal (buildNeighborLists s) = systemInitialTotal s"
  "systemRemainingTotal (buildNeighborLists s) = systemRemainingTotal s"
  "master (buildNeighborLists s) = master s" "probes (buildNeighborLists s) = probes s"
  "probeId (buildNeighborLists s) = probeId s" "systemIndex (buildNeighborLists s) = systemIndex s"
  by (simp_all add: buildNeighborLists_def)

text \<open>
  \<open>spawnSystem\<close> sets both totals to the sum of the amounts it created, and leaves the
  probes, the master and the system index alone.
\<close>

lemma spawnSystem_total:
  assumes "spawnSystem env s = Some s'"
  shows "systemRemainingTotal s' = sum_list (map amt (resources s'))"
    and "systemInitialTotal s' = systemRemainingTotal s'"
    and "probes s' = probes s" and "master s' = master s" and "systemIndex s' = systemIndex s"
    and "(\<forall>n < NUM_RES_COMMON + NUM_RES_RICH. 0 \<le> u_amt (env n)) \<Longrightarrow> pool_total s'"
proof -
  define s0 where "s0 = initResGrid (s\<lparr>resources := [], resourceActive := [],
                               systemInitialTotal := 0, systemRemainingTotal := 0\<rparr>)"
  obtain s1 s2 where l1: "spawn_loop 0 env [0 ..< NUM_RES_COMMON] s0 = Some s1"
    and l2: "spawn_loop 1 env [NUM_RES_COMMON ..< NUM_RES_COMMON + NUM_RES_RICH] s1 = Some s2"
    and e: "s' = buildNeighborLists (s2\<lparr>systemRemainingTotal := systemInitialTotal s2\<rparr>)"
    using assms unfolding spawnSystem_def Let_def s0_def[symmetric]
    by (auto split: option.splits)
  note f1 = spawn_loop_frame[OF l1] and f2 = spawn_loop_frame[OF l2]
  have z: "systemInitialTotal s0 = 0" "resources s0 = []" "master s0 = master s"
    "probes s0 = probes s" "systemIndex s0 = systemIndex s"
    unfolding s0_def initResGrid_fields by simp_all
  have d: "systemInitialTotal s2 = sum_list (map amt (resources s2))"
    using f1 f2 z unfolding spawn_frame_def by simp
  show r: "systemRemainingTotal s' = sum_list (map amt (resources s'))"
    unfolding e buildNeighborLists_fields using d by simp
  show "systemInitialTotal s' = systemRemainingTotal s'"
    unfolding e buildNeighborLists_fields by simp
  show "probes s' = probes s" "master s' = master s" "systemIndex s' = systemIndex s"
    unfolding e buildNeighborLists_fields using f1 f2 z unfolding spawn_frame_def by simp_all
  assume u: "\<forall>n < NUM_RES_COMMON + NUM_RES_RICH. 0 \<le> u_amt (env n)"
  have n1: "\<forall>a \<in> set (map amt (resources s1)). 0 \<le> a"
    by (rule spawn_loop_nonneg[OF l1]) (use u z in simp_all)
  have n2: "\<forall>a \<in> set (map amt (resources s2)). 0 \<le> a"
    by (rule spawn_loop_nonneg[OF l2 _ n1]) (use u in simp)
  have rs: "resources s' = resources s2" unfolding e buildNeighborLists_fields by simp
  have "0 \<le> (1 / 1000) * rat_of_nat (length (filter (\<lambda>a. a = 0) (map amt (resources s'))))"
    by simp
  then show "pool_total s'"
    unfolding pool_total_amounts using n2 r rs by simp
qed

text \<open>With draws in \<open>[0, 1)\<close>, \<open>spawnSystem\<close> returns, with a consistent pool.\<close>

lemma spawnSystem_returns:
  assumes "\<forall>n < NUM_RES_COMMON + NUM_RES_RICH. res_env_ok (env n)"
  shows "\<exists>s'. spawnSystem env s = Some s' \<and> grid_consistent s' \<and> active_consistent s'
           \<and> length (resources s') = NUM_RES_COMMON + NUM_RES_RICH"
proof -
  define s0 where "s0 = initResGrid (s\<lparr>resources := [], resourceActive := [],
                               systemInitialTotal := 0, systemRemainingTotal := 0\<rparr>)"
  have c0: "grid_consistent s0" "active_consistent s0"
    unfolding s0_def by (rule initResGrid_consistent; simp)+
  have l0: "length (resources s0) = 0" unfolding s0_def initResGrid_fields by simp
  have e1: "\<forall>n \<in> set [0 ..< NUM_RES_COMMON]. res_env_ok (env n)" using assms by simp
  have e2: "\<forall>n \<in> set [NUM_RES_COMMON ..< NUM_RES_COMMON + NUM_RES_RICH]. res_env_ok (env n)"
    using assms by simp
  from spawn_loop_ok[OF c0 e1, of 0] obtain s1 where
    l1: "spawn_loop 0 env [0 ..< NUM_RES_COMMON] s0 = Some s1"
    and c1: "grid_consistent s1" "active_consistent s1"
    and n1: "length (resources s1) = length (resources s0) + length [0 ..< NUM_RES_COMMON]"
    by blast
  from spawn_loop_ok[OF c1 e2, of 1] obtain s2 where
    l2: "spawn_loop 1 env [NUM_RES_COMMON ..< NUM_RES_COMMON + NUM_RES_RICH] s1 = Some s2"
    and c2: "grid_consistent s2" "active_consistent s2"
    and n2: "length (resources s2) = length (resources s1)
               + length [NUM_RES_COMMON ..< NUM_RES_COMMON + NUM_RES_RICH]"
    by blast
  let ?s' = "buildNeighborLists (s2\<lparr>systemRemainingTotal := systemInitialTotal s2\<rparr>)"
  have "spawnSystem env s = Some ?s'"
    using l1 l2 unfolding spawnSystem_def Let_def s0_def[symmetric] by simp
  moreover have "grid_consistent ?s'"
    by (rule grid_consistent_cong'[OF c2(1)]) (simp_all add: buildNeighborLists_fields)
  moreover have "active_consistent ?s'"
    by (rule active_consistent_cong[OF c2(2)]) (simp_all add: buildNeighborLists_fields)
  moreover have "length (resources ?s') = NUM_RES_COMMON + NUM_RES_RICH"
    unfolding buildNeighborLists_fields using n1 n2 l0 by simp
  ultimately show ?thesis by blast
qed

lemma startRally_amounts:
  "resources (startRally env s) = resources s"
  "systemRemainingTotal (startRally env s) = systemRemainingTotal s"
  "systemIndex (startRally env s) = systemIndex s"
  by (simp_all add: startRally_def Let_def)

lemma startCharge_amounts:
  "resources (startCharge s) = resources s"
  "systemRemainingTotal (startCharge s) = systemRemainingTotal s"
  "systemIndex (startCharge s) = systemIndex s"
  by (simp_all add: startCharge_def)

lemma startBuild_amounts:
  assumes "startBuild env s = Some s'"
  shows "resources s' = resources s" "systemRemainingTotal s' = systemRemainingTotal s"
    "systemIndex s' = systemIndex s"
  using assms unfolding startBuild_def Let_def
  by (auto split: if_splits option.splits)

lemma purgeSacrificed_amounts:
  "resources (purgeSacrificed s) = resources s"
  "systemRemainingTotal (purgeSacrificed s) = systemRemainingTotal s"
  "systemIndex (purgeSacrificed s) = systemIndex s"
  by (simp_all add: purgeSacrificed_def Let_def)

lemma performWarp_total:
  assumes "performWarp env s = Some s'"
  shows "systemRemainingTotal s' = sum_list (map amt (resources s'))"
    and "systemIndex s' = systemIndex s + 1"
    and "(\<forall>n < NUM_RES_COMMON + NUM_RES_RICH. 0 \<le> u_amt (spawn_env env n)) \<Longrightarrow> pool_total s'"
proof -
  define s1 where "s1 = s\<lparr>master := (master s)\<lparr>mstate := WARP, mt := 0\<rparr>,
                 systemIndex := systemIndex s + 1\<rparr>"
  obtain s2 where sp: "spawnSystem (spawn_env env) s1 = Some s2"
    and e: "s' = s2\<lparr>probes := map (\<lambda>i. warpProbe (place env i) (probes s2 ! i))
                                   [0 ..< length (probes s2)],
                      master := (master s2)\<lparr>mwaypoint := None, warpMachine := None,
                                            mstate := NORMAL, mt := 0\<rparr>\<rparr>"
    using assms unfolding performWarp_def Let_def s1_def[symmetric]
    by (auto split: option.splits)
  note t = spawnSystem_total[OF sp]
  show "systemRemainingTotal s' = sum_list (map amt (resources s'))"
    using t(1) by (simp add: e)
  show "systemIndex s' = systemIndex s + 1" using t(5) by (simp add: e s1_def)
  assume "\<forall>n < NUM_RES_COMMON + NUM_RES_RICH. 0 \<le> u_amt (spawn_env env n)"
  from t(6)[OF this] show "pool_total s'"
    using pool_total_cong[of s' s2] by (simp add: e)
qed

text \<open>
  \<open>masterUpdate\<close> either performs the warp (and then the system index grows by one and
  the totals are those of the new system) or leaves the resources and the remaining total
  as they are.
\<close>

lemma masterUpdate_amounts:
  assumes "masterUpdate dt env s = Some s'"
  shows "(resources s' = resources s \<and> systemRemainingTotal s' = systemRemainingTotal s
          \<and> systemIndex s' = systemIndex s)
       \<or> (mstate (master s) = CHARGE
          \<and> performWarp env (s\<lparr>master := (master s)\<lparr>mt := mt (master s) + dt\<rparr>\<rparr>) = Some s')"
proof -
  define s1 where "s1 = s\<lparr>master := (master s)\<lparr>mt := mt (master s) + dt\<rparr>\<rparr>"
  have f1: "resources s1 = resources s" "systemRemainingTotal s1 = systemRemainingTotal s"
    "systemIndex s1 = systemIndex s" "mstate (master s1) = mstate (master s)"
    by (simp_all add: s1_def)
  show ?thesis
  proof (cases "dt \<le> 0")
    case True
    then have "s' = s" using assms unfolding masterUpdate_def by simp
    then show ?thesis by simp
  next
    case dt: False
    show ?thesis
    proof (cases "mstate (master s)")
      case NORMAL
      then have "s' = s \<or> s' = startRally env s"
        using assms dt unfolding masterUpdate_def Let_def by (simp split: if_splits)
      then show ?thesis by (auto simp add: startRally_amounts)
    next
      case RALLY
      then have "s' = s1 \<or> startBuild env s1 = Some s'"
        using assms dt unfolding masterUpdate_def Let_def s1_def[symmetric] f1
        by (simp split: if_splits)
      then show ?thesis using startBuild_amounts[of env s1 s'] f1 by auto
    next
      case BUILD
      then have "s' = s1 \<or> s' = startCharge s1"
        using assms dt unfolding masterUpdate_def Let_def s1_def[symmetric] f1
        by (simp split: if_splits)
      then show ?thesis using f1 by (auto simp add: startCharge_amounts)
    next
      case CHARGE
      then have "s' = s1 \<or> performWarp env s1 = Some s'"
        using assms dt unfolding masterUpdate_def Let_def s1_def[symmetric] f1
        by (simp split: if_splits)
      then show ?thesis using f1 CHARGE unfolding s1_def by auto
    next
      case WARP
      then have "s' = s1"
        using assms dt unfolding masterUpdate_def Let_def s1_def[symmetric] f1 by simp
      then show ?thesis using f1 by simp
    qed
  qed
qed

lemma masterUpdate_pool_total:
  assumes m: "masterUpdate dt env s = Some s'" and p: "pool_total s"
    and u: "\<forall>n < NUM_RES_COMMON + NUM_RES_RICH. 0 \<le> u_amt (spawn_env env n)"
  shows "pool_total s'"
  using masterUpdate_amounts[OF m]
proof
  assume "resources s' = resources s \<and> systemRemainingTotal s' = systemRemainingTotal s
          \<and> systemIndex s' = systemIndex s"
  then show ?thesis using pool_total_cong[of s' s] p by simp
next
  assume "mstate (master s) = CHARGE
          \<and> performWarp env (s\<lparr>master := (master s)\<lparr>mt := mt (master s) + dt\<rparr>\<rparr>) = Some s'"
  then show ?thesis using performWarp_total(3)[OF _ u] by blast
qed

lemma simStep_pool_total:
  assumes st: "simStep dt env s = Some s'" and p: "pool_total s"
    and u: "\<forall>n < NUM_RES_COMMON + NUM_RES_RICH. 0 \<le> u_amt (spawn_env env n)"
  shows "pool_total s'"
proof -
  obtain s3 s4 where b: "before_master dt env s = Some s3"
    and m: "masterUpdate dt env s3 = Some s4" and e: "s' = purgeSacrificed s4"
    using st unfolding simStep_def by (auto split: option.splits)
  have "pool_total s4"
    using masterUpdate_pool_total[OF m before_master_pool_total[OF b p] u] .
  then show ?thesis unfolding e using pool_total_cong[of "purgeSacrificed s4" s4]
    by (simp add: purgeSacrificed_amounts)
qed

lemma run_pool_total:
  "run dt envs n s = Some sn \<Longrightarrow> pool_total s \<Longrightarrow>
   \<forall>k j. j < NUM_RES_COMMON + NUM_RES_RICH \<longrightarrow> 0 \<le> u_amt (spawn_env (envs k) j) \<Longrightarrow>
   pool_total sn"
proof (induction n arbitrary: sn)
  case 0
  then show ?case by simp
next
  case (Suc n)
  from Suc.prems(1) obtain sm where r: "run dt envs n s = Some sm"
    and st: "simStep dt (envs n) sm = Some sn"
    by (auto split: option.splits)
  have "pool_total sm" using Suc.IH[OF r Suc.prems(2,3)] .
  then show ?case using simStep_pool_total[OF st] Suc.prems(3) by simp
qed

lemmas ex_snap_defs = ex_snap_def ex_snap1_def ex_tick_env_def ex_control_def
  ex_probe_def ex_resource_def ex_master_def ex_dna_def ex_env_def

lemma ex_snap_before:
  "before_master (1 / 50) ex_tick_env ex_snap
     = Some (ex_snap1\<lparr>master := master ex_snap\<rparr>)"
proof (rule before_master_single)
  show "length (probes ex_snap) = 1" by (simp add: ex_snap_def)
  show "harvest (1 / 50) 0 (ex_snap\<lparr>probes := [update (1 / 50) (damp ex_tick_env)
      (kin ex_tick_env 0) (master ex_snap) (probes ex_snap ! 0)]\<rparr>)
      = Some (ex_snap1\<lparr>master := master ex_snap\<rparr>)"
    by (simp add: ex_snap_defs update_def aiControl_def steer_def wrap01Fast_def Let_def
        WORLD_w_def WORLD_h_def harvest_def touches_def d2_to_def wrapDeltaFast_def
        PROBE_RADIUS_def TOUCH_PAD_def harvestFrom_def deactivateResource_def
        gridRemoveResource_def)
  show "mstate (master (ex_snap1\<lparr>master := master ex_snap\<rparr>)) = NORMAL \<longrightarrow>
      tryAutoReplicate (1 / 50) (repl ex_tick_env 0) 0 (ex_snap1\<lparr>master := master ex_snap\<rparr>)
        = ex_snap1\<lparr>master := master ex_snap\<rparr>"
    by (simp add: ex_snap_defs)
qed

lemma ex_snap_master:
  "masterUpdate (1 / 50) ex_tick_env (ex_snap1\<lparr>master := master ex_snap\<rparr>) = Some ex_snap1"
proof -
  have f: "\<lfloor>(13 :: rat) / 20\<rfloor> = 0" by (simp add: floor_eq_iff)
  show ?thesis
    by (simp add: ex_snap_defs masterUpdate_def countArrivedAtWaypointSq_def Let_def
        wrapDeltaFast_def WORLD_w_def WORLD_h_def RALLY_RADIUS2_def RALLY_FRACTION_def
        RALLY_TIMEOUT_def f)
qed

lemma ex_snap_step: "simStep (1 / 50) ex_tick_env ex_snap = Some ex_snap1"
proof -
  have "purgeSacrificed ex_snap1 = ex_snap1"
    by (simp add: ex_snap_defs purgeSacrificed_def)
  then show ?thesis by (simp add: simStep_def ex_snap_before ex_snap_master)
qed

text \<open>
  Claim C1 as stated fails: before the tick the remaining total equals the sum of the
  amounts (0.4405); the tick harvests 0.44 and snaps the residue 0.0005 to zero, so after
  it the remaining total is 0.0005 and the sum of the amounts is 0.
\<close>

theorem remaining_total_counterexample:
  "systemRemainingTotal ex_snap = sum_list (map amt (resources ex_snap))
   \<and> simStep (1 / 50) ex_tick_env ex_snap = Some ex_snap1
   \<and> systemRemainingTotal ex_snap1 = 1 / 2000
   \<and> sum_list (map amt (resources ex_snap1)) = 0
   \<and> systemRemainingTotal ex_snap1 \<noteq> sum_list (map amt (resources ex_snap1))"
  using ex_snap_step by (simp add: ex_snap_defs)

lemma amounts_kept_refl: "amounts_kept s s"
  by (simp add: amounts_kept_def)

text \<open>
  Claim C1, amended.  With the draws of \<open>Math.random()\<close> in \<open>[0, 1)\<close>: \<open>spawnSystem\<close> returns
  and sets the remaining total to exactly the sum of the amounts; from a state in which
  the remaining total is at least the sum of the amounts and exceeds it by at most one
  thousandth per depleted resource, every number of ticks leads to such a state; one
  call of \<open>_harvestFrom\<close> either changes nothing or subtracts the amount taken from the
  remaining total (clamped at 0) and from the resource, whose amount is then set to 0 when
  at most one thousandth is left; replication and the compaction pass leave the total
  and the amounts alone, and so does \<open>masterUpdate\<close> unless it performs the warp, which
  starts the next system with the total equal to the sum again.
\<close>

theorem remaining_total_bounds:
  assumes e: "\<forall>k j. j < NUM_RES_COMMON + NUM_RES_RICH \<longrightarrow> res_env_ok (spawn_env (envs k) j)"
  shows "(\<exists>s0. spawnSystem (spawn_env (envs k)) s = Some s0
              \<and> systemRemainingTotal s0 = sum_list (map amt (resources s0)) \<and> pool_total s0)
    \<and> (pool_total s \<and> run dt envs n s = Some sn \<longrightarrow> pool_total sn)
    \<and> (harvestFrom dt ridx i s = Some sh \<longrightarrow>
         amounts_kept s sh
         \<or> (ridx < length (resources s)
            \<and> systemRemainingTotal sh
                = max 0 (systemRemainingTotal s
                    - min (amt (resources s ! ridx)) (harvestRate (genes (probes s ! i)) * dt))
            \<and> map amt (resources sh)
                = (map amt (resources s))
                    [ridx := snap (amt (resources s ! ridx)
                       - min (amt (resources s ! ridx))
                           (harvestRate (genes (probes s ! i)) * dt))]))
    \<and> amounts_kept s (tryAutoReplicate dt (repl (envs k) i) i s)
    \<and> amounts_kept s (purgeSacrificed s)
    \<and> (masterUpdate dt (envs k) s = Some sm \<longrightarrow>
         amounts_kept s sm
         \<or> (systemIndex sm = systemIndex s + 1
            \<and> systemRemainingTotal sm = sum_list (map amt (resources sm))))"
proof -
  have u: "\<forall>k j. j < NUM_RES_COMMON + NUM_RES_RICH \<longrightarrow> 0 \<le> u_amt (spawn_env (envs k) j)"
    using e unfolding res_env_ok_def by blast
  have a: "\<exists>s0. spawnSystem (spawn_env (envs k)) s = Some s0
              \<and> systemRemainingTotal s0 = sum_list (map amt (resources s0)) \<and> pool_total s0"
  proof -
    have "\<forall>j < NUM_RES_COMMON + NUM_RES_RICH. res_env_ok (spawn_env (envs k) j)"
      using e by blast
    from spawnSystem_returns[OF this, of s] obtain s0 where
      sp: "spawnSystem (spawn_env (envs k)) s = Some s0" by blast
    have "pool_total s0" by (rule spawnSystem_total(6)[OF sp]) (use u in blast)
    then show ?thesis using sp spawnSystem_total(1)[OF sp] by blast
  qed
  have b: "pool_total s \<and> run dt envs n s = Some sn \<longrightarrow> pool_total sn"
    using run_pool_total[of dt envs n s sn] u by blast
  have c: "harvestFrom dt ridx i s = Some sh \<longrightarrow>
         amounts_kept s sh
         \<or> (ridx < length (resources s)
            \<and> systemRemainingTotal sh
                = max 0 (systemRemainingTotal s
                    - min (amt (resources s ! ridx)) (harvestRate (genes (probes s ! i)) * dt))
            \<and> map amt (resources sh)
                = (map amt (resources s))
                    [ridx := snap (amt (resources s ! ridx)
                       - min (amt (resources s ! ridx))
                           (harvestRate (genes (probes s ! i)) * dt))])"
  proof
    assume "harvestFrom dt ridx i s = Some sh"
    from harvestFrom_cases[OF this] show "amounts_kept s sh
         \<or> (ridx < length (resources s)
            \<and> systemRemainingTotal sh
                = max 0 (systemRemainingTotal s
                    - min (amt (resources s ! ridx)) (harvestRate (genes (probes s ! i)) * dt))
            \<and> map amt (resources sh)
                = (map amt (resources s))
                    [ridx := snap (amt (resources s ! ridx)
                       - min (amt (resources s ! ridx))
                           (harvestRate (genes (probes s ! i)) * dt))])"
      using amounts_kept_refl by blast
  qed
  have d: "amounts_kept s (tryAutoReplicate dt (repl (envs k) i) i s)"
    using tryAutoReplicate_frame[of s dt "repl (envs k) i" i]
    by (simp add: repl_frame_def amounts_kept_def)
  have f: "amounts_kept s (purgeSacrificed s)"
    by (simp add: amounts_kept_def purgeSacrificed_amounts)
  have g: "masterUpdate dt (envs k) s = Some sm \<longrightarrow>
         amounts_kept s sm
         \<or> (systemIndex sm = systemIndex s + 1
            \<and> systemRemainingTotal sm = sum_list (map amt (resources sm)))"
  proof
    assume m: "masterUpdate dt (envs k) s = Some sm"
    from masterUpdate_amounts[OF m] show "amounts_kept s sm
         \<or> (systemIndex sm = systemIndex s + 1
            \<and> systemRemainingTotal sm = sum_list (map amt (resources sm)))"
    proof
      assume "resources sm = resources s \<and> systemRemainingTotal sm = systemRemainingTotal s
          \<and> systemIndex sm = systemIndex s"
      then show ?thesis by (simp add: amounts_kept_def)
    next
      assume w: "mstate (master s) = CHARGE
          \<and> performWarp (envs k) (s\<lparr>master := (master s)\<lparr>mt := mt (master s) + dt\<rparr>\<rparr>) = Some sm"
      then have p: "performWarp (envs k) (s\<lparr>master := (master s)\<lparr>mt := mt (master s) + dt\<rparr>\<rparr>)
          = Some sm" by blast
      show ?thesis using performWarp_total(1,2)[OF p] by simp
    qed
  qed
  show ?thesis using a b c d f g by blast
qed

lemma ex_snap_harvestFrom:
  "harvestFrom (1 / 50) 0 0 ex_snap = Some (ex_snap1\<lparr>master := master ex_snap\<rparr>)"
  by (simp add: ex_snap_defs harvestFrom_def Let_def deactivateResource_def
      gridRemoveResource_def)

lemma ex_res_env_ok: "res_env_ok ex_res_env"
  by (simp add: res_env_ok_def ex_res_env_def)

theorem remaining_total_bounds_witness:
  "res_env_ok ex_res_env \<and> pool_total ex_snap
   \<and> run (1 / 50) (\<lambda>k. ex_tick_env) 1 ex_snap = Some ex_snap1
   \<and> pool_total ex_snap1
   \<and> (\<exists>s0. spawnSystem (spawn_env ex_tick_env) ex_snap = Some s0
          \<and> systemRemainingTotal s0 = sum_list (map amt (resources s0)) \<and> pool_total s0)
   \<and> harvestFrom (1 / 50) 0 0 ex_snap = Some (ex_snap1\<lparr>master := master ex_snap\<rparr>)
   \<and> \<not> amounts_kept ex_snap (ex_snap1\<lparr>master := master ex_snap\<rparr>)
   \<and> systemRemainingTotal (ex_snap1\<lparr>master := master ex_snap\<rparr>) = 1 / 2000
   \<and> map amt (resources (ex_snap1\<lparr>master := master ex_snap\<rparr>)) = [0]
   \<and> masterUpdate (1 / 50) ex_tick_env (ex_snap1\<lparr>master := master ex_snap\<rparr>) = Some ex_snap1
   \<and> amounts_kept (ex_snap1\<lparr>master := master ex_snap\<rparr>) ex_snap1"
proof -
  have h: "\<forall>k j. j < NUM_RES_COMMON + NUM_RES_RICH
             \<longrightarrow> res_env_ok (spawn_env ((\<lambda>k. ex_tick_env) k) j)"
    using ex_res_env_ok by (simp add: ex_tick_env_def)
  have p: "pool_total ex_snap" by (simp add: pool_total_def ex_snap_defs)
  have r: "run (1 / 50) (\<lambda>k. ex_tick_env) 1 ex_snap = Some ex_snap1"
    using ex_snap_step by simp
  note t = remaining_total_bounds[OF h, where s = ex_snap and dt = "1 / 50"
      and n = 1 and sn = ex_snap1 and ridx = 0 and i = 0
      and sh = "ex_snap1\<lparr>master := master ex_snap\<rparr>" and sm = ex_snap1]
  have p1: "pool_total ex_snap1" using t p r by blast
  have sp: "\<exists>s0. spawnSystem (spawn_env ex_tick_env) ex_snap = Some s0
          \<and> systemRemainingTotal s0 = sum_list (map amt (resources s0)) \<and> pool_total s0"
    using t by blast
  have k: "\<not> amounts_kept ex_snap (ex_snap1\<lparr>master := master ex_snap\<rparr>)"
    "systemRemainingTotal (ex_snap1\<lparr>master := master ex_snap\<rparr>) = 1 / 2000"
    "map amt (resources (ex_snap1\<lparr>master := master ex_snap\<rparr>)) = [0]"
    "amounts_kept (ex_snap1\<lparr>master := master ex_snap\<rparr>) ex_snap1"
    by (simp_all add: amounts_kept_def ex_snap_defs)
  show ?thesis
    using ex_res_env_ok p r p1 sp ex_snap_harvestFrom k ex_snap_master by blast
qed

section \<open>Properties of the sacrifice accounting\<close>

lemma sacrificing_flags: "sacrificing p = fst (snd (flags p))"
  by (simp add: flags_def)

lemma sacrifice_ok_flags:
  "sacrifice_ok p \<longleftrightarrow> (snd (snd (flags p)) \<longrightarrow> fst (snd (flags p)))
     \<and> (fst (flags p) \<longrightarrow> \<not> fst (snd (flags p)))"
  by (simp add: flags_def sacrifice_ok_def)

lemma filter_sacrificing_flags:
  "length (filter sacrificing ps) = length (filter (\<lambda>f. fst (snd f)) (map flags ps))"
  by (simp add: filter_map o_def flags_def)

lemma list_all_ok_flags:
  "list_all sacrifice_ok ps
     \<longleftrightarrow> list_all (\<lambda>f. (snd (snd f) \<longrightarrow> fst (snd f)) \<and> (fst f \<longrightarrow> \<not> fst (snd f)))
           (map flags ps)"
  by (simp add: list_all_iff sacrifice_ok_flags)

lemma flags_cong:
  assumes "map flags ps' = map flags ps"
  shows "length (filter sacrificing ps') = length (filter sacrificing ps)"
    and "list_all sacrifice_ok ps' = list_all sacrifice_ok ps"
  unfolding filter_sacrificing_flags list_all_ok_flags assms by simp_all

lemma flags_append_clean:
  assumes "map flags ps' = map flags ps @ replicate k (False, False, False)"
  shows "length (filter sacrificing ps') = length (filter sacrificing ps)"
    and "list_all sacrifice_ok ps' = list_all sacrifice_ok ps"
  unfolding filter_sacrificing_flags list_all_ok_flags assms
  by (auto simp add: list_all_iff)

lemma flags_update:
  assumes "flags q = flags (ps ! i)"
  shows "map flags (ps[i := q]) = map flags ps"
proof -
  have "map flags (ps[i := ps ! i]) = map flags ps" by simp
  then show ?thesis unfolding map_update assms .
qed

lemma update_flags:
  "isPlayer (update dt d k m p) = isPlayer p"
  "sacrificing (update dt d k m p) = sacrificing p"
  "dead (update dt d k m p) \<longrightarrow> dead p \<or> sacrificing p"
  by (simp_all add: update_def sacrificeBehavior_def aiControl_def playerControl_def
      steer_def Let_def)

lemma update_ok: "sacrifice_ok p \<Longrightarrow> sacrifice_ok (update dt d k m p)"
  using update_flags[of dt d k m p] unfolding sacrifice_ok_def by blast

lemma update_all:
  fixes f :: "nat \<Rightarrow> probe \<Rightarrow> probe"
  assumes "\<And>i p. sacrificing (f i p) = sacrificing p"
    and "\<And>i p. sacrifice_ok p \<Longrightarrow> sacrifice_ok (f i p)"
  shows "length (filter sacrificing (map (\<lambda>i. f i (ps ! i)) [0 ..< length ps]))
           = length (filter sacrificing ps)"
    and "list_all sacrifice_ok ps \<Longrightarrow>
           list_all sacrifice_ok (map (\<lambda>i. f i (ps ! i)) [0 ..< length ps])"
proof -
  have "map sacrificing (map (\<lambda>i. f i (ps ! i)) [0 ..< length ps]) = map sacrificing ps"
    by (rule nth_equalityI) (simp_all add: assms(1))
  then have "filter (\<lambda>b. b) (map sacrificing (map (\<lambda>i. f i (ps ! i)) [0 ..< length ps]))
      = filter (\<lambda>b. b) (map sacrificing ps)" by simp
  then have "length (filter (\<lambda>b. b) (map sacrificing (map (\<lambda>i. f i (ps ! i)) [0 ..< length ps])))
      = length (filter (\<lambda>b. b) (map sacrificing ps))" by simp
  then show "length (filter sacrificing (map (\<lambda>i. f i (ps ! i)) [0 ..< length ps]))
           = length (filter sacrificing ps)"
    unfolding filter_map length_map o_def .
  assume "list_all sacrifice_ok ps"
  then show "list_all sacrifice_ok (map (\<lambda>i. f i (ps ! i)) [0 ..< length ps])"
    using assms(2) by (simp add: list_all_iff)
qed

lemma same_but_cargo_flags: "same_but_cargo p p' \<Longrightarrow> flags p' = flags p"
proof -
  assume "same_but_cargo p p'"
  then have "p' = p\<lparr>carried := carried p', target := target p'\<rparr>"
    by (simp add: same_but_cargo_def)
  then have "flags p' = flags (p\<lparr>carried := carried p', target := target p'\<rparr>)" by simp
  then show ?thesis by (simp add: flags_def)
qed

lemma harvest_frame_flags:
  assumes "harvest_frame s s'"
  shows "map flags (probes s') = map flags (probes s)"
proof (rule nth_equalityI)
  show "length (map flags (probes s')) = length (map flags (probes s))"
    using assms by (simp add: harvest_frame_def)
next
  fix j assume "j < length (map flags (probes s'))"
  then have j: "j < length (probes s)" "j < length (probes s')"
    using assms by (simp_all add: harvest_frame_def)
  then have "same_but_cargo (probes s ! j) (probes s' ! j)"
    using assms by (simp add: harvest_frame_def)
  then show "map flags (probes s') ! j = map flags (probes s) ! j"
    using j same_but_cargo_flags by simp
qed

lemma tryAutoReplicate_flags:
  assumes "i < length (probes s)"
  shows "\<exists>k. map flags (probes (tryAutoReplicate dt env i s))
           = map flags (probes s) @ replicate k (False, False, False)"
proof (cases "tryAutoReplicate dt env i s = s")
  case True
  then have "map flags (probes (tryAutoReplicate dt env i s))
           = map flags (probes s) @ replicate 0 (False, False, False)" by simp
  then show ?thesis by blast
next
  case False
  define s1 where "s1 = replicateP replicateCost env i s"
  have e: "tryAutoReplicate dt env i s
      = s1\<lparr>probes := (probes s1)[i := (probes s1 ! i)\<lparr>replCooldown := cooldown env\<rparr>]\<rparr>"
    using False unfolding tryAutoReplicate_def Let_def s1_def by (simp split: if_splits)
  have u: "map flags ((probes s1)[i := (probes s1 ! i)\<lparr>replCooldown := cooldown env\<rparr>])
      = map flags (probes s1)"
    by (rule flags_update) (simp add: flags_def)
  from replicateP_cases[of replicateCost env i s]
  have "\<exists>k. map flags (probes s1) = map flags (probes s) @ replicate k (False, False, False)"
  proof
    assume "replicateP replicateCost env i s = s"
    then have "map flags (probes s1) = map flags (probes s) @ replicate 0 (False, False, False)"
      by (simp add: s1_def)
    then show ?thesis by blast
  next
    assume a: "length (probes s) < HARD_PROBE_CAP \<and> replicateCost \<le> carried (probes s ! i)
      \<and> mstate (master s) = NORMAL
      \<and> replicateP replicateCost env i s =
        s\<lparr>probes := (probes s)[i := (probes s ! i)\<lparr>carried := carried (probes s ! i) - replicateCost\<rparr>] @
            [newChild (probeId s) (wrap01Fast (px (probes s ! i) + off_x env) WORLD_w)
              (wrap01Fast (py (probes s ! i) + off_y env) WORLD_h)
              (mutateDNA env (genes (probes s ! i))) env],
          probeId := probeId s + 1\<rparr>"
    have p: "map flags ((probes s)[i := (probes s ! i)\<lparr>carried := carried (probes s ! i) - replicateCost\<rparr>])
        = map flags (probes s)"
      by (rule flags_update) (simp add: flags_def)
    have "map flags (probes s1) = map flags (probes s) @ replicate 1 (False, False, False)"
      using a p unfolding s1_def by (simp add: flags_def newChild_def)
    then show ?thesis by blast
  qed
  then show ?thesis unfolding e using u by simp
qed

lemma replicate_loop_flags:
  "\<exists>k. map flags (probes (replicate_loop dt env i s))
         = map flags (probes s) @ replicate k (False, False, False)"
proof (induction dt env i s rule: replicate_loop.induct)
  case (1 dt env i s)
  show ?case
  proof (cases "i < length (probes s)")
    case False
    then have "replicate_loop dt env i s = s" by (subst replicate_loop.simps) simp
    then have "map flags (probes (replicate_loop dt env i s))
         = map flags (probes s) @ replicate 0 (False, False, False)" by simp
    then show ?thesis by blast
  next
    case True
    define s1 where "s1 = tryAutoReplicate dt (env i) i s"
    have e: "replicate_loop dt env i s = replicate_loop dt env (i + 1) s1"
      using True unfolding s1_def by (subst replicate_loop.simps) simp
    from tryAutoReplicate_flags[OF True, of dt "env i"] obtain k1 where
      k1: "map flags (probes s1) = map flags (probes s) @ replicate k1 (False, False, False)"
      unfolding s1_def by blast
    from "1.IH"[OF True] obtain k2 where
      k2: "map flags (probes (replicate_loop dt env (i + 1) s1))
         = map flags (probes s1) @ replicate k2 (False, False, False)"
      unfolding s1_def by blast
    have "map flags (probes (replicate_loop dt env i s))
         = map flags (probes s) @ replicate (k1 + k2) (False, False, False)"
      unfolding e k2 k1 by (simp add: replicate_add)
    then show ?thesis by blast
  qed
qed

text \<open>
  The first three phases of a tick keep the number of sacrificing probes, the master and
  the relation between the flags.
\<close>

lemma before_master_flags:
  assumes b: "before_master dt env s = Some s3"
  shows "length (filter sacrificing (probes s3)) = length (filter sacrificing (probes s))"
    and "list_all sacrifice_ok (probes s) \<Longrightarrow> list_all sacrifice_ok (probes s3)"
    and "master s3 = master s"
proof -
  define s1 where "s1 = s\<lparr>probes := map (\<lambda>i. update dt (damp env) (kin env i) (master s)
      (probes s ! i)) [0 ..< length (probes s)]\<rparr>"
  obtain s2 where h: "harvest_loop dt 0 s1 = Some s2"
    and e: "s3 = (if mstate (master s2) = NORMAL then replicate_loop dt (repl env) 0 s2 else s2)"
    using b unfolding before_master_def Let_def s1_def[symmetric]
    by (auto split: option.splits)
  have n1: "length (filter sacrificing (probes s1)) = length (filter sacrificing (probes s))"
    unfolding s1_def using update_all(1)[of "\<lambda>i. update dt (damp env) (kin env i) (master s)"
        "probes s"] update_flags(2) update_ok by simp
  have o1: "list_all sacrifice_ok (probes s) \<Longrightarrow> list_all sacrifice_ok (probes s1)"
    unfolding s1_def using update_all(2)[of "\<lambda>i. update dt (damp env) (kin env i) (master s)"
        "probes s"] update_flags(2) update_ok by simp
  note f2 = harvest_frame_flags[OF harvest_loop_frame[OF h]]
  from replicate_loop_flags[of dt "repl env" 0 s2] obtain k where
    k: "map flags (probes (replicate_loop dt (repl env) 0 s2))
         = map flags (probes s2) @ replicate k (False, False, False)" by blast
  have f3: "length (filter sacrificing (probes s3)) = length (filter sacrificing (probes s2))"
    "list_all sacrifice_ok (probes s3) = list_all sacrifice_ok (probes s2)"
    unfolding e using flags_append_clean[OF k] by simp_all
  show "length (filter sacrificing (probes s3)) = length (filter sacrificing (probes s))"
    using f3(1) flags_cong(1)[OF f2] n1 by simp
  show "list_all sacrifice_ok (probes s) \<Longrightarrow> list_all sacrifice_ok (probes s3)"
    using f3(2) flags_cong(2)[OF f2] o1 by simp
  show "master s3 = master s" using before_master_master[OF b] .
qed

lemma sacrifice_loop_nth:
  "distinct rs \<Longrightarrow> \<forall>r \<in> set rs. r < length ps \<Longrightarrow>
   length (sacrifice_loop wp u rs ps) = length ps
   \<and> (\<forall>j < length ps. sacrifice_loop wp u rs ps ! j
         = (if j \<in> set rs then beginSacrifice wp (u j) (ps ! j) else ps ! j))"
proof (induction rs arbitrary: ps)
  case Nil
  then show ?case by simp
next
  case (Cons r rs)
  define ps1 where "ps1 = ps[r := beginSacrifice wp (u r) (ps ! r)]"
  have d: "distinct rs" "r \<notin> set rs" using Cons.prems(1) by simp_all
  have b: "\<forall>x \<in> set rs. x < length ps1" using Cons.prems(2) by (simp add: ps1_def)
  have r: "r < length ps" using Cons.prems(2) by simp
  note ih = Cons.IH[OF d(1) b]
  have e: "sacrifice_loop wp u (r # rs) ps = sacrifice_loop wp u rs ps1"
    by (simp add: ps1_def)
  have l: "length (sacrifice_loop wp u (r # rs) ps) = length ps"
    unfolding e using ih by (simp add: ps1_def)
  have n: "\<forall>j < length ps. sacrifice_loop wp u (r # rs) ps ! j
         = (if j \<in> set (r # rs) then beginSacrifice wp (u j) (ps ! j) else ps ! j)"
  proof (intro allI impI)
    fix j assume j: "j < length ps"
    then have j1: "j < length ps1" by (simp add: ps1_def)
    have "sacrifice_loop wp u rs ps1 ! j
        = (if j \<in> set rs then beginSacrifice wp (u j) (ps1 ! j) else ps1 ! j)"
      using ih j1 by blast
    moreover have "ps1 ! j = (if j = r then beginSacrifice wp (u r) (ps ! r) else ps ! j)"
      unfolding ps1_def using j by (simp add: nth_list_update)
    ultimately show "sacrifice_loop wp u (r # rs) ps ! j
         = (if j \<in> set (r # rs) then beginSacrifice wp (u j) (ps ! j) else ps ! j)"
      unfolding e using d(2) by auto
  qed
  show ?case using l n by blast
qed

lemma annotate_flags:
  assumes "j < length ps"
  shows "flags (annotate ps arr wp ! j) = flags (ps ! j)"
  unfolding annotate_nth[OF assms] by (simp add: flags_def)

lemma length_filter_index:
  "length (filter (\<lambda>i. P (xs ! i)) [0 ..< length xs]) = length (filter P xs)"
proof -
  have "filter P xs = filter P (map (nth xs) [0 ..< length xs])" by (simp add: map_nth)
  also have "\<dots> = map (nth xs) (filter (P \<circ> nth xs) [0 ..< length xs])"
    by (rule filter_map)
  finally have "length (filter P xs) = length (filter (P \<circ> nth xs) [0 ..< length xs])"
    by simp
  then show ?thesis by (simp add: o_def)
qed

lemma floor_tenth: "nat \<lfloor>rat_of_nat m * (10 / 100)\<rfloor> = m div 10"
proof -
  have "rat_of_nat m * (10 / 100) = of_nat m / of_nat 10" by simp
  then have "\<lfloor>rat_of_nat m * (10 / 100)\<rfloor> = \<lfloor>(of_nat m :: rat) / of_nat 10\<rfloor>" by simp
  also have "\<dots> = of_nat (m div 10)" by (rule floor_divide_of_nat_eq)
  finally show ?thesis by simp
qed

text \<open>
  \<open>startBuild\<close> in a state where no probe is sacrificing, on fewer than \<open>2^30\<close> probes:
  it returns; the master is in \<open>BUILD\<close> with nothing counted; \<open>toSacrifice\<close> is the floor
  of a tenth of the number of living non-player probes; exactly that many probes are
  sacrificing afterwards, none of them the player.
\<close>

lemma startBuild_spec:
  assumes ns: "filter sacrificing (probes s) = []" and ok: "list_all sacrifice_ok (probes s)"
    and len: "length (probes s) < 2 ^ 30"
  shows "\<exists>s'. startBuild env s = Some s'
     \<and> mstate (master s') = BUILD \<and> sacrificed (master s') = 0
     \<and> toSacrifice (master s')
         = nat \<lfloor>rat_of_nat (length (filter (\<lambda>p. \<not> isPlayer p \<and> \<not> dead p) (probes s)))
                 * (10 / 100)\<rfloor>
     \<and> toSacrifice (master s')
         = length (filter (\<lambda>p. \<not> isPlayer p \<and> \<not> dead p) (probes s)) div 10
     \<and> length (filter sacrificing (probes s')) = toSacrifice (master s')
     \<and> list_all sacrifice_ok (probes s')
     \<and> length (probes s') = length (probes s)
     \<and> map dead (probes s') = map dead (probes s)"
proof -
  define n where "n = length (probes s)"
  define wp where "wp = (case mwaypoint (master s) of
                  None \<Rightarrow> (WORLD_w * (1 / 2), WORLD_h * (1 / 2)) | Some w \<Rightarrow> w)"
  define ai where "ai = filter (\<lambda>i. \<not> isPlayer (probes s ! i) \<and> \<not> dead (probes s ! i))
                 [0 ..< length (probes s)]"
  define K where "K = nat \<lfloor>rat_of_nat (length ai) * (10 / 100)\<rfloor>"
  define m where "m = (master s)\<lparr>mstate := BUILD, mt := 0, sacrificed := 0, mwaypoint := Some wp,
                          warpMachine := Some \<lparr>wm_x = fst wp, wm_y = snd wp, wm_mode = BUILD\<rparr>,
                          toSacrifice := K\<rparr>"
  have la: "length ai = length (filter (\<lambda>p. \<not> isPlayer p \<and> \<not> dead p) (probes s))"
    unfolding ai_def by (rule length_filter_index)
  have Kd: "K = length ai div 10" unfolding K_def by (rule floor_tenth)
  have mf: "mstate m = BUILD" "sacrificed m = 0" "toSacrifice m = K" by (simp_all add: m_def)
  have sb: "startBuild env s =
      (if K \<le> 0 then Some (s\<lparr>master := m\<rparr>)
       else (case selectKClosestInPlace (probes s) ai (int K) wp of
              None \<Rightarrow> None
            | Some (ps, ai') \<Rightarrow>
                Some (s\<lparr>master := m,
                        probes := sacrifice_loop wp (sac_u env) (take K ai') ps\<rparr>)))"
    unfolding startBuild_def Let_def wp_def[symmetric] ai_def[symmetric] K_def[symmetric]
      m_def[symmetric] by simp
  show ?thesis
  proof (cases "K \<le> 0")
    case True
    then have e: "startBuild env s = Some (s\<lparr>master := m\<rparr>)" using sb by simp
    have "length (filter sacrificing (probes (s\<lparr>master := m\<rparr>))) = K" using ns True by simp
    then show ?thesis using e mf ok K_def Kd la by simp
  next
    case False
    then have Kpos: "0 < K" by simp
    have Kle: "K \<le> length ai" unfolding Kd by simp
    have dai: "distinct ai" unfolding ai_def by simp
    have sai: "\<forall>i \<in> set ai. i < n \<and> \<not> isPlayer (probes s ! i)"
      unfolding ai_def n_def by simp
    have lai: "length ai < 2 ^ 30"
    proof -
      have "length ai \<le> length [0 ..< length (probes s)]"
        unfolding ai_def by (rule length_filter_le)
      then show ?thesis using len by simp
    qed
    define ps where "ps = annotate (probes s) ai wp"
    have lps: "length ps = n" by (simp add: ps_def n_def)
    have r: "int (length ai) - 1 < int (length ai)" by simp
    from select_loop_returns[OF _ r lai, of 0 ps "int K"] obtain ai' where
      sl: "select_loop ps ai (int K) 0 (int (length ai) - 1) = Some ai'"
      and ms: "mset ai' = mset ai" by auto
    have sel: "selectKClosestInPlace (probes s) ai (int K) wp = Some (ps, ai')"
      unfolding selectKClosestInPlace_def Let_def ps_def[symmetric] sl by simp
    define sel where "sel = take K ai'"
    define ps' where "ps' = sacrifice_loop wp (sac_u env) sel ps"
    have e: "startBuild env s = Some (s\<lparr>master := m, probes := ps'\<rparr>)"
      using sb False sel unfolding ps'_def sel_def by simp
    have dai': "distinct ai'" using ms dai by (metis distinct_count_atmost_1 set_mset_mset
          mset_eq_setD count_mset_0_iff)
    have sai': "set ai' = set ai" using ms by (rule mset_eq_setD)
    have lai': "length ai' = length ai" using ms by (rule mset_eq_length)
    have dsel: "distinct sel" unfolding sel_def using dai' by simp
    have ssel: "\<forall>i \<in> set sel. i < n \<and> \<not> isPlayer (probes s ! i)"
      using sai sai' set_take_subset[of K ai'] unfolding sel_def by blast
    have lsel: "length sel = K" unfolding sel_def using Kle lai' by simp
    have b: "\<forall>r \<in> set sel. r < length ps" using ssel lps by simp
    note sn = sacrifice_loop_nth[OF dsel b, of wp "sac_u env", folded ps'_def]
    have lps': "length ps' = n" using sn lps by simp
    have fl: "\<forall>j < n. flags (ps ! j) = flags (probes s ! j)"
      unfolding ps_def n_def using annotate_flags by blast
    have nos: "\<forall>j < n. \<not> sacrificing (probes s ! j)"
    proof (intro allI impI)
      fix j assume "j < n"
      then have "probes s ! j \<in> set (probes s)" unfolding n_def by simp
      moreover have "\<forall>p \<in> set (probes s). \<not> sacrificing p"
        using ns by (simp add: filter_empty_conv)
      ultimately show "\<not> sacrificing (probes s ! j)" by blast
    qed
    have sac: "\<forall>j < n. sacrificing (ps' ! j) \<longleftrightarrow> j \<in> set sel"
    proof (intro allI impI)
      fix j assume j: "j < n"
      show "sacrificing (ps' ! j) \<longleftrightarrow> j \<in> set sel"
      proof (cases "j \<in> set sel")
        case True
        then have "\<not> isPlayer (ps ! j)" using ssel fl j by (simp add: flags_def)
        moreover have "ps' ! j = beginSacrifice wp (sac_u env j) (ps ! j)"
          using sn j lps True by simp
        ultimately show ?thesis using True by (simp add: beginSacrifice_def)
      next
        case False
        then have "ps' ! j = ps ! j" using sn j lps by simp
        moreover have "\<not> sacrificing (ps ! j)" using fl nos j by (simp add: flags_def)
        ultimately show ?thesis using False by simp
      qed
    qed
    have "length (filter sacrificing ps') = card {j. j < length ps' \<and> sacrificing (ps' ! j)}"
      by (rule length_filter_conv_card)
    also have "{j. j < length ps' \<and> sacrificing (ps' ! j)} = set sel"
      using sac ssel lps' by auto
    also have "card (set sel) = K" using distinct_card[OF dsel] lsel by simp
    finally have cnt: "length (filter sacrificing ps') = K" .
    have okp: "list_all sacrifice_ok ps'"
      unfolding list_all_length
    proof (intro allI impI)
      fix j assume "j < length ps'"
      then have j: "j < n" using lps' by simp
      show "sacrifice_ok (ps' ! j)"
      proof (cases "j \<in> set sel")
        case True
        then have "\<not> isPlayer (ps ! j)" using ssel fl j by (simp add: flags_def)
        moreover have "ps' ! j = beginSacrifice wp (sac_u env j) (ps ! j)"
          using sn j lps True by simp
        ultimately show ?thesis by (simp add: beginSacrifice_def sacrifice_ok_def)
      next
        case False
        then have "ps' ! j = ps ! j" using sn j lps by simp
        moreover have "sacrifice_ok (probes s ! j)"
          using ok j unfolding list_all_length n_def by simp
        ultimately show ?thesis
          using fl j unfolding sacrifice_ok_flags by simp
      qed
    qed
    have dd: "map dead ps' = map dead (probes s)"
    proof (rule nth_equalityI)
      show "length (map dead ps') = length (map dead (probes s))"
        using lps' by (simp add: n_def)
    next
      fix j assume "j < length (map dead ps')"
      then have j: "j < n" using lps' by simp
      have "dead (ps' ! j) = dead (ps ! j)"
        using sn j lps by (simp add: beginSacrifice_def)
      moreover have "dead (ps ! j) = dead (probes s ! j)" using fl j by (simp add: flags_def)
      ultimately show "map dead ps' ! j = map dead (probes s) ! j"
        using j lps' by (simp add: n_def)
    qed
    show ?thesis using e mf cnt okp lps' K_def Kd la n_def dd by simp
  qed
qed

lemma sacrifice_inv_alt:
  "sacrifice_inv s \<longleftrightarrow>
     list_all sacrifice_ok (probes s)
     \<and> (mstate (master s) = BUILD \<longrightarrow>
          sacrificed (master s) + length (filter sacrificing (probes s))
            = toSacrifice (master s))
     \<and> (mstate (master s) = CHARGE \<longrightarrow>
          sacrificed (master s) = toSacrifice (master s)
          \<and> length (filter sacrificing (probes s)) = 0)
     \<and> (mstate (master s) \<noteq> BUILD \<and> mstate (master s) \<noteq> CHARGE \<longrightarrow>
          length (filter sacrificing (probes s)) = 0)"
  unfolding sacrifice_inv_def by (cases "mstate (master s)") simp_all

lemma masterUpdate_cases:
  assumes "masterUpdate dt env s = Some s'"
  defines "s1 \<equiv> s\<lparr>master := (master s)\<lparr>mt := mt (master s) + dt\<rparr>\<rparr>"
  shows "s' = s
       \<or> (mstate (master s) = NORMAL \<and> s' = startRally env s)
       \<or> (mstate (master s) \<noteq> NORMAL \<and> s' = s1)
       \<or> (mstate (master s) = RALLY \<and> startBuild env s1 = Some s')
       \<or> (mstate (master s) = BUILD \<and> toSacrifice (master s) \<le> sacrificed (master s)
          \<and> s' = startCharge s1)
       \<or> (mstate (master s) = CHARGE \<and> performWarp env s1 = Some s')"
proof -
  have f1: "mstate (master s1) = mstate (master s)"
    "sacrificed (master s1) = sacrificed (master s)"
    "toSacrifice (master s1) = toSacrifice (master s)"
    by (simp_all add: s1_def)
  show ?thesis
  proof (cases "dt \<le> 0")
    case True
    then have "s' = s" using assms(1) unfolding masterUpdate_def by simp
    then show ?thesis by simp
  next
    case dt: False
    show ?thesis
    proof (cases "mstate (master s)")
      case NORMAL
      then have "s' = s \<or> s' = startRally env s"
        using assms(1) dt unfolding masterUpdate_def Let_def by (simp split: if_splits)
      then show ?thesis using NORMAL by auto
    next
      case RALLY
      then have "s' = s1 \<or> startBuild env s1 = Some s'"
        using assms(1) dt unfolding masterUpdate_def Let_def s1_def[symmetric] f1
        by (simp split: if_splits)
      then show ?thesis using RALLY by auto
    next
      case BUILD
      then have "s' = s1 \<or> (toSacrifice (master s) \<le> sacrificed (master s)
          \<and> s' = startCharge s1)"
        using assms(1) dt unfolding masterUpdate_def Let_def s1_def[symmetric] f1
        by (simp split: if_splits)
      then show ?thesis using BUILD by auto
    next
      case CHARGE
      then have "s' = s1 \<or> performWarp env s1 = Some s'"
        using assms(1) dt unfolding masterUpdate_def Let_def s1_def[symmetric] f1
        by (simp split: if_splits)
      then show ?thesis using CHARGE by auto
    next
      case WARP
      then have "s' = s1"
        using assms(1) dt unfolding masterUpdate_def Let_def s1_def[symmetric] f1 by simp
      then show ?thesis using WARP by simp
    qed
  qed
qed

lemma startRally_flags:
  "map flags (probes (startRally env s)) = map flags (probes s)"
  "mstate (master (startRally env s)) = RALLY"
  by (simp_all add: startRally_def Let_def flags_def)

lemma warpProbe_flags: "flags (warpProbe w p) = flags p"
  by (simp add: warpProbe_def Let_def flags_def)

lemma performWarp_flags:
  assumes "performWarp env s = Some s'"
  shows "map flags (probes s') = map flags (probes s)" and "mstate (master s') = NORMAL"
proof -
  define s1 where "s1 = s\<lparr>master := (master s)\<lparr>mstate := WARP, mt := 0\<rparr>,
                 systemIndex := systemIndex s + 1\<rparr>"
  obtain s2 where sp: "spawnSystem (spawn_env env) s1 = Some s2"
    and e: "s' = s2\<lparr>probes := map (\<lambda>i. warpProbe (place env i) (probes s2 ! i))
                                   [0 ..< length (probes s2)],
                      master := (master s2)\<lparr>mwaypoint := None, warpMachine := None,
                                            mstate := NORMAL, mt := 0\<rparr>\<rparr>"
    using assms unfolding performWarp_def Let_def s1_def[symmetric]
    by (auto split: option.splits)
  have p: "probes s2 = probes s" using spawnSystem_total(3)[OF sp] by (simp add: s1_def)
  show "map flags (probes s') = map flags (probes s)"
    unfolding e p by (rule nth_equalityI) (simp_all add: warpProbe_flags)
  show "mstate (master s') = NORMAL" by (simp add: e)
qed

text \<open>\<open>masterUpdate\<close> keeps the accounting.\<close>

lemma masterUpdate_inv:
  assumes m: "masterUpdate dt env s = Some s'" and inv: "sacrifice_inv s"
    and len: "mstate (master s) = RALLY \<Longrightarrow> length (probes s) < 2 ^ 30"
  shows "sacrifice_inv s'"
proof -
  define s1 where "s1 = s\<lparr>master := (master s)\<lparr>mt := mt (master s) + dt\<rparr>\<rparr>"
  have f1: "mstate (master s1) = mstate (master s)"
    "sacrificed (master s1) = sacrificed (master s)"
    "toSacrifice (master s1) = toSacrifice (master s)" "probes s1 = probes s"
    by (simp_all add: s1_def)
  have inv1: "sacrifice_inv s1" using inv unfolding sacrifice_inv_alt f1 .
  note a = inv[unfolded sacrifice_inv_alt]
  from masterUpdate_cases[OF m, folded s1_def]
  consider (same) "s' = s" | (rally) "mstate (master s) = NORMAL" "s' = startRally env s"
    | (tick) "s' = s1" | (build) "mstate (master s) = RALLY" "startBuild env s1 = Some s'"
    | (charge) "mstate (master s) = BUILD" "toSacrifice (master s) \<le> sacrificed (master s)"
        "s' = startCharge s1"
    | (warp) "mstate (master s) = CHARGE" "performWarp env s1 = Some s'"
    by blast
  then show ?thesis
  proof cases
    case same then show ?thesis using inv by simp
  next
    case rally
    note f = flags_cong[OF startRally_flags(1)[of env s]]
    show ?thesis unfolding sacrifice_inv_alt rally(2) f startRally_flags(2)
      using a rally(1) by simp
  next
    case tick then show ?thesis using inv1 by simp
  next
    case build
    have ns: "filter sacrificing (probes s1) = []" using a build(1) f1 by simp
    have ok: "list_all sacrifice_ok (probes s1)" using a f1 by simp
    have l1: "length (probes s1) < 2 ^ 30" using len[OF build(1)] f1 by simp
    from startBuild_spec[OF ns ok l1, of env] build(2)
    show ?thesis unfolding sacrifice_inv_alt by auto
  next
    case charge
    have g: "probes s' = probes s" "mstate (master s') = CHARGE"
      "sacrificed (master s') = sacrificed (master s)"
      "toSacrifice (master s') = toSacrifice (master s)"
      unfolding charge(3) by (simp_all add: startCharge_def s1_def)
    have "sacrificed (master s) + length (filter sacrificing (probes s))
            = toSacrifice (master s)" using a charge(1) by blast
    then have z: "length (filter sacrificing (probes s)) = 0"
      "sacrificed (master s) = toSacrifice (master s)" using charge(2) by linarith+
    have "list_all sacrifice_ok (probes s)" using a by blast
    then show ?thesis unfolding sacrifice_inv_alt g using z by simp
  next
    case warp
    note f = flags_cong[OF performWarp_flags(1)[OF warp(2)], unfolded f1]
    show ?thesis unfolding sacrifice_inv_alt f performWarp_flags(2)[OF warp(2)]
      using a warp(1) by simp
  qed
qed

lemma purge_count:
  "list_all sacrifice_ok ps \<Longrightarrow>
   length (filter sacrificing (filter (\<lambda>p. \<not> dead p) ps)) + length (filter dead ps)
     = length (filter sacrificing ps)"
  by (induction ps) (auto simp add: sacrifice_ok_def)

lemma purgeSacrificed_master:
  "mstate (master (purgeSacrificed s)) = mstate (master s)"
  "toSacrifice (master (purgeSacrificed s)) = toSacrifice (master s)"
  "sacrificed (master (purgeSacrificed s)) = sacrificed (master s) + length (filter dead (probes s))"
  "probes (purgeSacrificed s) = filter (\<lambda>p. \<not> dead p) (probes s)"
proof -
  have "filter dead (probes s) = [] \<Longrightarrow> filter (\<lambda>p. \<not> dead p) (probes s) = probes s"
    by (simp add: filter_empty_conv)
  then show "probes (purgeSacrificed s) = filter (\<lambda>p. \<not> dead p) (probes s)"
    by (simp add: purgeSacrificed_def Let_def)
qed (simp_all add: purgeSacrificed_def Let_def)

text \<open>The compaction pass keeps the accounting.\<close>

lemma purgeSacrificed_inv:
  assumes inv: "sacrifice_inv s"
  shows "sacrifice_inv (purgeSacrificed s)"
proof -
  note a = inv[unfolded sacrifice_inv_alt]
  have ok: "list_all sacrifice_ok (probes s)" using a by simp
  note c = purge_count[OF ok]
  have ok': "list_all sacrifice_ok (filter (\<lambda>p. \<not> dead p) (probes s))"
    using ok by (simp add: list_all_iff)
  show ?thesis
    unfolding sacrifice_inv_alt purgeSacrificed_master using a c ok' by auto
qed

lemma simStep_inv:
  assumes st: "simStep dt env s = Some s'" and inv: "sacrifice_inv s"
    and len: "length (probes s) < 2 ^ 30"
  shows "sacrifice_inv s'"
proof -
  obtain s3 s4 where b: "before_master dt env s = Some s3"
    and m: "masterUpdate dt env s3 = Some s4" and e: "s' = purgeSacrificed s4"
    using st unfolding simStep_def by (auto split: option.splits)
  note f = before_master_flags[OF b]
  have inv3: "sacrifice_inv s3"
    using inv unfolding sacrifice_inv_alt f(1,3) using f(2) by simp
  have l3: "length (probes s3) < 2 ^ 30" if r: "mstate (master s3) = RALLY"
  proof -
    define s1 where "s1 = s\<lparr>probes := map (\<lambda>i. update dt (damp env) (kin env i) (master s)
        (probes s ! i)) [0 ..< length (probes s)]\<rparr>"
    obtain s2 where h: "harvest_loop dt 0 s1 = Some s2"
      and e3: "s3 = (if mstate (master s2) = NORMAL
                     then replicate_loop dt (repl env) 0 s2 else s2)"
      using b unfolding before_master_def Let_def s1_def[symmetric]
      by (auto split: option.splits)
    have "master s3 = master s2"
      unfolding e3 using replicate_loop_frame[of s2 dt "repl env" 0]
      by (simp add: repl_frame_def)
    then have "mstate (master s2) \<noteq> NORMAL" using r by simp
    then have "s3 = s2" using e3 by simp
    then have "length (probes s3) = length (probes s)"
      using harvest_loop_frame[OF h] by (simp add: harvest_frame_def s1_def)
    then show ?thesis using len by simp
  qed
  have "sacrifice_inv s4" using masterUpdate_inv[OF m inv3 l3] .
  then show ?thesis unfolding e by (rule purgeSacrificed_inv)
qed

lemma no_dead:
  assumes "list_all sacrifice_ok ps" and "filter sacrificing ps = []"
  shows "filter dead ps = []"
  using assms by (auto simp add: list_all_iff filter_empty_conv sacrifice_ok_def)

text \<open>A tick that leads from \<open>RALLY\<close> to \<open>BUILD\<close>.\<close>

lemma simStep_rally_build:
  assumes st: "simStep dt env s = Some s2" and inv: "sacrifice_inv s"
    and len: "length (probes s) < 2 ^ 30"
    and r: "mstate (master s) = RALLY" and bd: "mstate (master s2) = BUILD"
  shows "sacrificed (master s2) = 0
     \<and> length (filter sacrificing (probes s2)) = toSacrifice (master s2)
     \<and> (\<exists>s3. before_master dt env s = Some s3
           \<and> length (probes s3) = length (probes s)
           \<and> toSacrifice (master s2)
               = nat \<lfloor>rat_of_nat (length (filter (\<lambda>p. \<not> isPlayer p \<and> \<not> dead p) (probes s3)))
                       * (10 / 100)\<rfloor>)"
proof -
  obtain s3 s4 where b: "before_master dt env s = Some s3"
    and m: "masterUpdate dt env s3 = Some s4" and e: "s2 = purgeSacrificed s4"
    using st unfolding simStep_def by (auto split: option.splits)
  note f = before_master_flags[OF b]
  have inv3: "sacrifice_inv s3"
    using inv unfolding sacrifice_inv_alt f(1,3) using f(2) by simp
  have r3: "mstate (master s3) = RALLY" using r f(3) by simp
  define s1 where "s1 = s3\<lparr>master := (master s3)\<lparr>mt := mt (master s3) + dt\<rparr>\<rparr>"
  have b4: "mstate (master s4) = BUILD" using bd unfolding e purgeSacrificed_master .
  have sb: "startBuild env s1 = Some s4"
    using masterUpdate_cases[OF m, folded s1_def] r3 b4 by (auto simp add: s1_def)
  have l3: "length (probes s3) = length (probes s)"
  proof -
    define t1 where "t1 = s\<lparr>probes := map (\<lambda>i. update dt (damp env) (kin env i) (master s)
        (probes s ! i)) [0 ..< length (probes s)]\<rparr>"
    obtain t2 where h: "harvest_loop dt 0 t1 = Some t2"
      and e3: "s3 = (if mstate (master t2) = NORMAL
                     then replicate_loop dt (repl env) 0 t2 else t2)"
      using b unfolding before_master_def Let_def t1_def[symmetric]
      by (auto split: option.splits)
    have "master s3 = master t2"
      unfolding e3 using replicate_loop_frame[of t2 dt "repl env" 0]
      by (simp add: repl_frame_def)
    then have "mstate (master t2) \<noteq> NORMAL" using r3 by simp
    then have "s3 = t2" using e3 by simp
    then show ?thesis
      using harvest_loop_frame[OF h] by (simp add: harvest_frame_def t1_def)
  qed
  note a = inv3[unfolded sacrifice_inv_alt]
  have ns: "filter sacrificing (probes s1) = []" using a r3 by (simp add: s1_def)
  have ok: "list_all sacrifice_ok (probes s1)" using a by (simp add: s1_def)
  have l1: "length (probes s1) < 2 ^ 30" using len l3 by (simp add: s1_def)
  from startBuild_spec[OF ns ok l1, of env] sb
  have p: "sacrificed (master s4) = 0"
    "toSacrifice (master s4)
         = nat \<lfloor>rat_of_nat (length (filter (\<lambda>p. \<not> isPlayer p \<and> \<not> dead p) (probes s1)))
                 * (10 / 100)\<rfloor>"
    "length (filter sacrificing (probes s4)) = toSacrifice (master s4)"
    "map dead (probes s4) = map dead (probes s1)"
    by auto
  have "filter dead (probes s1) = []" using no_dead[OF ok ns] .
  then have "filter (\<lambda>b. b) (map dead (probes s1)) = []"
    by (simp add: filter_map o_def)
  then have "filter (\<lambda>b. b) (map dead (probes s4)) = []" using p(4) by simp
  then have d4: "filter dead (probes s4) = []" by (simp add: filter_map o_def)
  then have k: "filter (\<lambda>p. \<not> dead p) (probes s4) = probes s4"
    by (simp add: filter_empty_conv)
  have "sacrificed (master s2) = 0" unfolding e purgeSacrificed_master using p(1) d4 by simp
  moreover have "length (filter sacrificing (probes s2)) = toSacrifice (master s2)"
    unfolding e purgeSacrificed_master k using p(3) .
  moreover have "toSacrifice (master s2)
      = nat \<lfloor>rat_of_nat (length (filter (\<lambda>p. \<not> isPlayer p \<and> \<not> dead p) (probes s3)))
              * (10 / 100)\<rfloor>"
    unfolding e purgeSacrificed_master using p(2) by (simp add: s1_def)
  ultimately show ?thesis using b l3 by blast
qed

text \<open>A tick that starts in \<open>BUILD\<close> keeps \<open>toSacrifice\<close>.\<close>

lemma simStep_build:
  assumes st: "simStep dt env s = Some s2" and bd: "mstate (master s) = BUILD"
  shows "toSacrifice (master s2) = toSacrifice (master s)"
proof -
  obtain s3 s4 where b: "before_master dt env s = Some s3"
    and m: "masterUpdate dt env s3 = Some s4" and e: "s2 = purgeSacrificed s4"
    using st unfolding simStep_def by (auto split: option.splits)
  have m3: "master s3 = master s" using before_master_master[OF b] .
  define s1 where "s1 = s3\<lparr>master := (master s3)\<lparr>mt := mt (master s3) + dt\<rparr>\<rparr>"
  from masterUpdate_cases[OF m, folded s1_def] bd m3
  have "s4 = s3 \<or> s4 = s1 \<or> s4 = startCharge s1" by auto
  then have "toSacrifice (master s4) = toSacrifice (master s3)"
    by (auto simp add: s1_def startCharge_def)
  then show ?thesis unfolding e purgeSacrificed_master using m3 by simp
qed

text \<open>
  Claim C3.  In a state that satisfies the sacrifice accounting, on fewer than \<open>2^30\<close>
  probes: \<open>startBuild\<close>, called in \<open>RALLY\<close>, returns with the master in \<open>BUILD\<close>,
  \<open>sacrificed = 0\<close>, \<open>toSacrifice\<close> the floor of a tenth of the number of living
  non-player probes, exactly \<open>toSacrifice\<close> probes sacrificing and the player not among
  them; a tick keeps the accounting, and when it leads from \<open>RALLY\<close> to \<open>BUILD\<close> these
  values are the ones at its end, the probes being counted after the tick's update and
  harvest; a tick that starts in \<open>BUILD\<close> keeps \<open>toSacrifice\<close>, and when it ends in
  \<open>CHARGE\<close> no probe is sacrificing and \<open>sacrificed\<close> equals \<open>toSacrifice\<close>; the
  compaction pass adds to \<open>sacrificed\<close> the number of dead probes it removes.
\<close>

theorem sacrifice_accounting:
  assumes inv: "sacrifice_inv s" and len: "length (probes s) < 2 ^ 30"
  shows "(mstate (master s) = RALLY \<longrightarrow>
           (\<exists>sb. startBuild env s = Some sb \<and> mstate (master sb) = BUILD
              \<and> sacrificed (master sb) = 0
              \<and> toSacrifice (master sb)
                  = nat \<lfloor>rat_of_nat (length (filter (\<lambda>p. \<not> isPlayer p \<and> \<not> dead p)
                                                 (probes s))) * (10 / 100)\<rfloor>
              \<and> length (filter sacrificing (probes sb)) = toSacrifice (master sb)
              \<and> list_all (\<lambda>p. isPlayer p \<longrightarrow> \<not> sacrificing p) (probes sb)))
     \<and> (simStep dt env s = Some s2 \<longrightarrow>
          sacrifice_inv s2
          \<and> (mstate (master s) = RALLY \<and> mstate (master s2) = BUILD \<longrightarrow>
               sacrificed (master s2) = 0
               \<and> length (filter sacrificing (probes s2)) = toSacrifice (master s2)
               \<and> (\<exists>s3. before_master dt env s = Some s3
                     \<and> length (probes s3) = length (probes s)
                     \<and> toSacrifice (master s2)
                         = nat \<lfloor>rat_of_nat (length (filter (\<lambda>p. \<not> isPlayer p \<and> \<not> dead p)
                                                        (probes s3))) * (10 / 100)\<rfloor>))
          \<and> (mstate (master s) = BUILD \<longrightarrow>
               toSacrifice (master s2) = toSacrifice (master s)
               \<and> (mstate (master s2) = CHARGE \<longrightarrow>
                    sacrificed (master s2) = toSacrifice (master s)
                    \<and> filter sacrificing (probes s2) = [])))
     \<and> sacrificed (master (purgeSacrificed s))
         = sacrificed (master s) + length (filter dead (probes s))"
proof -
  note a = inv[unfolded sacrifice_inv_alt]
  have A: "\<exists>sb. startBuild env s = Some sb \<and> mstate (master sb) = BUILD
              \<and> sacrificed (master sb) = 0
              \<and> toSacrifice (master sb)
                  = nat \<lfloor>rat_of_nat (length (filter (\<lambda>p. \<not> isPlayer p \<and> \<not> dead p)
                                                 (probes s))) * (10 / 100)\<rfloor>
              \<and> length (filter sacrificing (probes sb)) = toSacrifice (master sb)
              \<and> list_all (\<lambda>p. isPlayer p \<longrightarrow> \<not> sacrificing p) (probes sb)"
    if r: "mstate (master s) = RALLY"
  proof -
    have ns: "filter sacrificing (probes s) = []" using a r by simp
    have ok: "list_all sacrifice_ok (probes s)" using a by simp
    from startBuild_spec[OF ns ok len, of env] obtain sb where
      sb: "startBuild env s = Some sb" "mstate (master sb) = BUILD"
        "sacrificed (master sb) = 0"
        "toSacrifice (master sb)
           = nat \<lfloor>rat_of_nat (length (filter (\<lambda>p. \<not> isPlayer p \<and> \<not> dead p) (probes s)))
                   * (10 / 100)\<rfloor>"
        "length (filter sacrificing (probes sb)) = toSacrifice (master sb)"
        "list_all sacrifice_ok (probes sb)"
      by blast
    have "list_all (\<lambda>p. isPlayer p \<longrightarrow> \<not> sacrificing p) (probes sb)"
      using sb(6) by (simp add: list_all_iff sacrifice_ok_def)
    then show ?thesis using sb(1-5) by blast
  qed
  have B: "sacrifice_inv s2
          \<and> (mstate (master s) = RALLY \<and> mstate (master s2) = BUILD \<longrightarrow>
               sacrificed (master s2) = 0
               \<and> length (filter sacrificing (probes s2)) = toSacrifice (master s2)
               \<and> (\<exists>s3. before_master dt env s = Some s3
                     \<and> length (probes s3) = length (probes s)
                     \<and> toSacrifice (master s2)
                         = nat \<lfloor>rat_of_nat (length (filter (\<lambda>p. \<not> isPlayer p \<and> \<not> dead p)
                                                        (probes s3))) * (10 / 100)\<rfloor>))
          \<and> (mstate (master s) = BUILD \<longrightarrow>
               toSacrifice (master s2) = toSacrifice (master s)
               \<and> (mstate (master s2) = CHARGE \<longrightarrow>
                    sacrificed (master s2) = toSacrifice (master s)
                    \<and> filter sacrificing (probes s2) = []))"
    if st: "simStep dt env s = Some s2"
  proof -
    have i2: "sacrifice_inv s2" using simStep_inv[OF st inv len] .
    have c: "sacrificed (master s2) = toSacrifice (master s)
                    \<and> filter sacrificing (probes s2) = []"
      if "mstate (master s) = BUILD" "mstate (master s2) = CHARGE"
      using i2[unfolded sacrifice_inv_alt] that simStep_build[OF st that(1)] by simp
    show ?thesis
      using i2 simStep_rally_build[OF st inv len] simStep_build[OF st] c by blast
  qed
  show ?thesis using A B purgeSacrificed_master(3)[of s] by blast
qed

lemma ex_rally_inv: "sacrifice_inv ex_rally" "length (probes ex_rally) < 2 ^ 30"
  "mstate (master ex_rally) = RALLY"
  "length (filter (\<lambda>p. \<not> isPlayer p \<and> \<not> dead p) (probes ex_rally)) = 10"
  by (simp_all add: sacrifice_inv_def sacrifice_ok_def ex_rally_def ex_sim_def ex_probe_def
      ex_master_def)

lemma ex_snap_inv: "sacrifice_inv ex_snap" "length (probes ex_snap) < 2 ^ 30"
  by (simp_all add: sacrifice_inv_def sacrifice_ok_def ex_snap_defs)

lemmas ex_build_defs = ex_build_def ex_build1_def ex_build2_def ex_sim_def ex_tick_env_def
  ex_control_def ex_probe_def ex_master_def ex_dna_def ex_env_def

lemma ex_build_before:
  "before_master (1 / 50) ex_tick_env ex_build
     = Some (ex_build\<lparr>probes := [(probes ex_build ! 0)\<lparr>sacrificeT := - (1 / 100),
                                                          dead := True\<rparr>]\<rparr>)"
proof (rule before_master_single)
  show "length (probes ex_build) = 1" by (simp add: ex_build_def)
  show "harvest (1 / 50) 0 (ex_build\<lparr>probes := [update (1 / 50) (damp ex_tick_env)
      (kin ex_tick_env 0) (master ex_build) (probes ex_build ! 0)]\<rparr>)
      = Some (ex_build\<lparr>probes := [(probes ex_build ! 0)\<lparr>sacrificeT := - (1 / 100),
                                                          dead := True\<rparr>]\<rparr>)"
    by (simp add: ex_build_defs update_def sacrificeBehavior_def steer_def wrap01Fast_def
        Let_def WORLD_w_def WORLD_h_def harvest_def)
  show "mstate (master (ex_build\<lparr>probes := [(probes ex_build ! 0)\<lparr>sacrificeT := - (1 / 100),
                                                          dead := True\<rparr>]\<rparr>)) = NORMAL \<longrightarrow>
      tryAutoReplicate (1 / 50) (repl ex_tick_env 0) 0
        (ex_build\<lparr>probes := [(probes ex_build ! 0)\<lparr>sacrificeT := - (1 / 100),
                                                          dead := True\<rparr>]\<rparr>)
        = ex_build\<lparr>probes := [(probes ex_build ! 0)\<lparr>sacrificeT := - (1 / 100),
                                                          dead := True\<rparr>]\<rparr>"
    by (simp add: ex_build_defs)
qed

lemma ex_build_step: "simStep (1 / 50) ex_tick_env ex_build = Some ex_build1"
  unfolding simStep_def ex_build_before
  by (simp add: ex_build_defs masterUpdate_def Let_def purgeSacrificed_def)

lemma before_master_empty:
  assumes "probes s = []"
  shows "before_master dt env s = Some s"
proof -
  have h: "harvest_loop dt 0 s = Some s" using assms by (subst harvest_loop.simps) simp
  have r: "replicate_loop dt (repl env) 0 s = s"
    using assms by (subst replicate_loop.simps) simp
  have "s\<lparr>probes := map (\<lambda>i. update dt (damp env) (kin env i) (master s) (probes s ! i))
                              [0 ..< length (probes s)]\<rparr> = s" using assms by simp
  then show ?thesis unfolding before_master_def Let_def by (simp add: h r)
qed

lemma ex_build1_step: "simStep (1 / 50) ex_tick_env ex_build1 = Some ex_build2"
proof -
  have b: "before_master (1 / 50) ex_tick_env ex_build1 = Some ex_build1"
    by (rule before_master_empty) (simp add: ex_build1_def)
  show ?thesis unfolding simStep_def b
    by (simp add: ex_build_defs masterUpdate_def Let_def purgeSacrificed_def startCharge_def)
qed

lemma ex_build_inv: "sacrifice_inv ex_build" "length (probes ex_build) < 2 ^ 30"
  "length (probes ex_build1) < 2 ^ 30"
  "mstate (master ex_build) = BUILD" "mstate (master ex_build1) = BUILD"
  "mstate (master ex_build2) = CHARGE" "toSacrifice (master ex_build) = 1"
  by (simp_all add: sacrifice_inv_def sacrifice_ok_def ex_build_defs)

theorem sacrifice_accounting_witness:
  "sacrifice_inv ex_rally \<and> length (probes ex_rally) < 2 ^ 30
   \<and> mstate (master ex_rally) = RALLY
   \<and> (\<exists>sb. startBuild ex_tick_env ex_rally = Some sb \<and> mstate (master sb) = BUILD
          \<and> sacrificed (master sb) = 0 \<and> toSacrifice (master sb) = 1
          \<and> length (filter sacrificing (probes sb)) = 1
          \<and> list_all (\<lambda>p. isPlayer p \<longrightarrow> \<not> sacrificing p) (probes sb))
   \<and> sacrifice_inv ex_build \<and> length (probes ex_build) < 2 ^ 30
   \<and> mstate (master ex_build) = BUILD \<and> toSacrifice (master ex_build) = 1
   \<and> simStep (1 / 50) ex_tick_env ex_build = Some ex_build1
   \<and> sacrifice_inv ex_build1 \<and> mstate (master ex_build1) = BUILD
   \<and> toSacrifice (master ex_build1) = 1
   \<and> simStep (1 / 50) ex_tick_env ex_build1 = Some ex_build2
   \<and> mstate (master ex_build2) = CHARGE
   \<and> sacrificed (master ex_build2) = 1 \<and> toSacrifice (master ex_build2) = 1
   \<and> filter sacrificing (probes ex_build2) = []"
proof -
  have k: "nat \<lfloor>rat_of_nat 10 * (10 / 100)\<rfloor> = 1" unfolding floor_tenth by simp
  note t = sacrifice_accounting[OF ex_rally_inv(1,2), of ex_tick_env "1 / 50" ex_rally]
  from conjunct1[OF t] ex_rally_inv(3) obtain sb where
    sb: "startBuild ex_tick_env ex_rally = Some sb" "mstate (master sb) = BUILD"
      "sacrificed (master sb) = 0"
      "toSacrifice (master sb)
         = nat \<lfloor>rat_of_nat (length (filter (\<lambda>p. \<not> isPlayer p \<and> \<not> dead p)
                                        (probes ex_rally))) * (10 / 100)\<rfloor>"
      "length (filter sacrificing (probes sb)) = toSacrifice (master sb)"
      "list_all (\<lambda>p. isPlayer p \<longrightarrow> \<not> sacrificing p) (probes sb)"
    by blast
  have one: "toSacrifice (master sb) = 1" unfolding sb(4) ex_rally_inv(4) by (rule k)
  have a: "\<exists>sb. startBuild ex_tick_env ex_rally = Some sb \<and> mstate (master sb) = BUILD
          \<and> sacrificed (master sb) = 0 \<and> toSacrifice (master sb) = 1
          \<and> length (filter sacrificing (probes sb)) = 1
          \<and> list_all (\<lambda>p. isPlayer p \<longrightarrow> \<not> sacrificing p) (probes sb)"
    using sb(1,2,3,5,6) one by auto
  note t1 = sacrifice_accounting[OF ex_build_inv(1,2), of ex_tick_env "1 / 50" ex_build1]
  have i1: "sacrifice_inv ex_build1" "toSacrifice (master ex_build1) = 1"
    using t1 ex_build_step ex_build_inv(4,7) by simp_all
  note t2 = sacrifice_accounting[OF i1(1) ex_build_inv(3), of ex_tick_env "1 / 50" ex_build2]
  have c: "sacrificed (master ex_build2) = 1" "toSacrifice (master ex_build2) = 1"
    "filter sacrificing (probes ex_build2) = []"
    using t2 ex_build1_step ex_build_inv(5,6) i1(2) by simp_all
  show ?thesis
    using ex_rally_inv(1-3) a ex_build_inv(1,2,4,5,6,7) ex_build_step i1 ex_build1_step c
    by blast
qed

end
